(* ===== verification/Prelude.thy ===== *)
theory Prelude
  imports Main "HOL-Library.Word"
begin

unbundle bit_operations_syntax

text \<open>
  What every component of the development shares: the types of machine words and bytes, the
  monad in which kernel code is written, and the generic lemmas on words and lists.

  A piece of kernel code is a function from an environment and a state to an outcome. It returns
  a value and a new state, or it stops in \<^verbatim>\<open>panic()\<close> with its message, or it is still waiting when
  the environment has no more steps. The environment is the list of what the rest of the machine
  (the other harts, the other processes, the devices) does while this code waits: a spinning
  \<^verbatim>\<open>acquire()\<close> and a \<^verbatim>\<open>swtch()\<close> into the scheduler each let the next element of the list act on the
  state. Code that never waits leaves the list alone.
\<close>

section \<open>Machine types\<close>

type_synonym byte = "8 word"
type_synonym uint = "32 word"
type_synonym uint64 = "64 word"
type_synonym addr = "64 word"
type_synonym memory = "addr \<Rightarrow> byte"

named_theorems kapply "rules that run a piece of kernel code on a state"
named_theorems wordfacts "facts on words that the components share"

section \<open>The monad of kernel code\<close>

datatype ('s, 'a) outcome =
    Ret 'a 's "('s \<Rightarrow> 's) list"
  | Panic string
  | Blocked 's

type_synonym ('s, 'a) ker = "('s \<Rightarrow> 's) list \<Rightarrow> 's \<Rightarrow> ('s, 'a) outcome"

definition kret :: "'a \<Rightarrow> ('s, 'a) ker" where
  "kret x = (\<lambda>w s. Ret x s w)"

definition kbind :: "('s, 'a) ker \<Rightarrow> ('a \<Rightarrow> ('s, 'b) ker) \<Rightarrow> ('s, 'b) ker" where
  "kbind m f = (\<lambda>w s. case m w s of
       Ret x s' w' \<Rightarrow> f x w' s'
     | Panic e \<Rightarrow> Panic e
     | Blocked s' \<Rightarrow> Blocked s')"

definition kget :: "('s \<Rightarrow> 'a) \<Rightarrow> ('s, 'a) ker" where
  "kget f = (\<lambda>w s. Ret (f s) s w)"

definition kmod :: "('s \<Rightarrow> 's) \<Rightarrow> ('s, unit) ker" where
  "kmod f = (\<lambda>w s. Ret () (f s) w)"

definition kpanic :: "string \<Rightarrow> ('s, 'a) ker" where
  "kpanic e = (\<lambda>w s. Panic e)"

definition kwhen :: "bool \<Rightarrow> ('s, unit) ker \<Rightarrow> ('s, unit) ker" where
  "kwhen b m = (if b then m else kret ())"

text \<open>A statement list followed by the rest of the function.\<close>

primrec kdo :: "('s, unit) ker list \<Rightarrow> ('s, 'a) ker \<Rightarrow> ('s, 'a) ker" where
  "kdo [] m = m"
| "kdo (x # xs) m = kbind x (\<lambda>_. kdo xs m)"

text \<open>A loop over a list of indices without early exit.\<close>

primrec kfor :: "'i list \<Rightarrow> ('i \<Rightarrow> ('s, unit) ker) \<Rightarrow> ('s, unit) ker" where
  "kfor [] body = kret ()"
| "kfor (i # is) body = kbind (body i) (\<lambda>_. kfor is body)"

text \<open>A loop over a list of indices that the body can leave with a value.\<close>

primrec kfind :: "'i list \<Rightarrow> ('i \<Rightarrow> ('s, 'r option) ker) \<Rightarrow> ('s, 'r option) ker" where
  "kfind [] body = kret None"
| "kfind (i # is) body =
     kbind (body i) (\<lambda>r. case r of Some x \<Rightarrow> kret (Some x) | None \<Rightarrow> kfind is body)"

text \<open>The thread gives up the hart: the rest of the machine takes its next step.\<close>

definition kwait :: "('s, unit) ker" where
  "kwait = (\<lambda>w s. case w of [] \<Rightarrow> Blocked s | e # w' \<Rightarrow> Ret () (e s) w')"

text \<open>
  A loop that runs its body until it yields a value. In \<open>kwaitloop\<close> every round that goes on has
  waited at least once, so the environment bounds the number of rounds.
\<close>

primrec kloop :: "nat \<Rightarrow> ('s, 'r option) ker \<Rightarrow> ('s, 'r) ker" where
  "kloop 0 body = (\<lambda>w s. Blocked s)"
| "kloop (Suc n) body = kbind body (\<lambda>r. case r of Some x \<Rightarrow> kret x | None \<Rightarrow> kloop n body)"

definition kwaitloop :: "('s, 'r option) ker \<Rightarrow> ('s, 'r) ker" where
  "kwaitloop body = (\<lambda>w s. kloop (Suc (length w)) body w s)"

lemma kret_apply [kapply]: "kret x w s = Ret x s w"
  by (simp add: kret_def)

lemma kget_apply [kapply]: "kget f w s = Ret (f s) s w"
  by (simp add: kget_def)

lemma kmod_apply [kapply]: "kmod f w s = Ret () (f s) w"
  by (simp add: kmod_def)

lemma kpanic_apply [kapply]: "kpanic e w s = Panic e"
  by (simp add: kpanic_def)

lemma kbind_apply [kapply]:
  "kbind m f w s = (case m w s of
       Ret x s' w' \<Rightarrow> f x w' s'
     | Panic e \<Rightarrow> Panic e
     | Blocked s' \<Rightarrow> Blocked s')"
  by (simp add: kbind_def)

lemma kbind_Ret: "m w s = Ret x s' w' \<Longrightarrow> kbind m f w s = f x w' s'"
  by (simp add: kbind_apply)

lemma kbind_Panic: "m w s = Panic e \<Longrightarrow> kbind m f w s = Panic e"
  by (simp add: kbind_apply)

lemma kbind_Blocked: "m w s = Blocked s' \<Longrightarrow> kbind m f w s = Blocked s'"
  by (simp add: kbind_apply)

lemma kbind_RetE:
  assumes "kbind m f w s = Ret y t v"
  obtains x s' w' where "m w s = Ret x s' w'" and "f x w' s' = Ret y t v"
  using assms by (auto simp: kbind_apply split: outcome.splits)

lemma kwhen_apply [kapply]: "kwhen b m w s = (if b then m w s else Ret () s w)"
  by (simp add: kwhen_def kapply)

lemma kif_apply [kapply]: "(if b then m else n) w s = (if b then m w s else n w s)"
  for m n :: "('s, 'a) ker"
  by simp

lemma kbind_assoc: "kbind (kbind m f) g = kbind m (\<lambda>x. kbind (f x) g)"
  by (rule ext, rule ext) (simp add: kbind_apply split: outcome.splits)

lemma kbind_kret [simp]: "kbind (kret x) f = f x"
  by (rule ext, rule ext) (simp add: kbind_apply kret_apply)

lemma kfor_append: "kfor (xs @ ys) body = kbind (kfor xs body) (\<lambda>_. kfor ys body)"
  by (induction xs) (simp_all add: kbind_assoc kbind_kret)

text \<open>
  A total run that does not wait: the code returns, the environment is untouched, and the value
  and the final state satisfy \<open>Q\<close>.
\<close>

definition runs :: "('s, 'a) ker \<Rightarrow> ('s \<Rightarrow> 's) list \<Rightarrow> 's \<Rightarrow> ('a \<Rightarrow> 's \<Rightarrow> bool) \<Rightarrow> bool" where
  "runs m w s Q \<longleftrightarrow> (\<exists>x s'. m w s = Ret x s' w \<and> Q x s')"

lemma runsI: "m w s = Ret x s' w \<Longrightarrow> Q x s' \<Longrightarrow> runs m w s Q"
  by (auto simp: runs_def)

lemma runsE:
  assumes "runs m w s Q"
  obtains x s' where "m w s = Ret x s' w" and "Q x s'"
  using assms by (auto simp: runs_def)

lemma runs_kret [simp]: "runs (kret x) w s Q \<longleftrightarrow> Q x s"
  by (auto simp: runs_def kapply)

lemma runs_kget [simp]: "runs (kget f) w s Q \<longleftrightarrow> Q (f s) s"
  by (auto simp: runs_def kapply)

lemma runs_kmod [simp]: "runs (kmod f) w s Q \<longleftrightarrow> Q () (f s)"
  by (auto simp: runs_def kapply)

lemma runs_kbindI:
  assumes "runs m w s R" and "\<And>x s'. R x s' \<Longrightarrow> runs (f x) w s' Q"
  shows "runs (kbind m f) w s Q"
  using assms by (fastforce simp: runs_def kbind_apply)

lemma runs_conseq:
  assumes "runs m w s R" and "\<And>x s'. R x s' \<Longrightarrow> Q x s'"
  shows "runs m w s Q"
  using assms by (auto simp: runs_def)

lemma runs_kwhenI:
  assumes "b \<Longrightarrow> runs m w s (\<lambda>_. Q)" and "\<not> b \<Longrightarrow> Q s"
  shows "runs (kwhen b m) w s (\<lambda>_. Q)"
  using assms by (auto simp: kwhen_def)

text \<open>A loop keeps what each of its iterations keeps.\<close>

lemma runs_kforI:
  assumes "I s"
    and "\<And>i t. i \<in> set is \<Longrightarrow> I t \<Longrightarrow> runs (body i) w t (\<lambda>_. I)"
  shows "runs (kfor is body) w s (\<lambda>_. I)"
  using assms
proof (induction "is" arbitrary: s)
  case Nil
  then show ?case by simp
next
  case (Cons i "is")
  show ?case
    by (auto intro!: runs_kbindI [where R = "\<lambda>_. I"] Cons.IH Cons.prems)
qed

lemma kwait_Nil [kapply]: "kwait [] s = Blocked s"
  by (simp add: kwait_def)

lemma kwait_Cons [kapply]: "kwait (e # w) s = Ret () (e s) w"
  by (simp add: kwait_def)

lemma kwaitloop_Ret: "body w s = Ret (Some x) t w' \<Longrightarrow> kwaitloop body w s = Ret x t w'"
  by (simp add: kwaitloop_def kapply)

lemma kwaitloop_Panic: "body w s = Panic e \<Longrightarrow> kwaitloop body w s = Panic e"
  by (simp add: kwaitloop_def kapply)

lemma kwaitloop_Blocked: "body w s = Blocked t \<Longrightarrow> kwaitloop body w s = Blocked t"
  by (simp add: kwaitloop_def kapply)

text \<open>More rounds than the loop needs make no difference.\<close>

lemma kloop_more:
  assumes "kloop n body w s = Ret x t w'" and "n \<le> m"
  shows "kloop m body w s = Ret x t w'"
  using assms
proof (induction n arbitrary: m w s)
  case 0
  then show ?case by simp
next
  case (Suc n)
  then obtain k where m: "m = Suc k" and k: "n \<le> k" by (cases m) auto
  from Suc.prems(1) obtain r s' v
    where b: "body w s = Ret r s' v"
      and rest: "(case r of Some x \<Rightarrow> kret x | None \<Rightarrow> kloop n body) v s' = Ret x t w'"
    by (auto elim: kbind_RetE)
  from rest have "(case r of Some x \<Rightarrow> kret x | None \<Rightarrow> kloop k body) v s' = Ret x t w'"
    using Suc.IH [OF _ k] by (auto split: option.splits)
  with b show ?case by (simp add: m kbind_apply)
qed

text \<open>One round that waits, then the rest.\<close>

lemma kwaitloop_None:
  assumes "body w s = Ret None s' w'" and "length w' < length w"
    and "kwaitloop body w' s' = Ret x t v"
  shows "kwaitloop body w s = Ret x t v"
proof -
  have "kloop (length w) body w' s' = Ret x t v"
    by (rule kloop_more [of "Suc (length w')"]) (use assms in \<open>auto simp: kwaitloop_def\<close>)
  with assms(1) show ?thesis by (simp add: kwaitloop_def kapply)
qed

lemma kfind_append:
  "kfind (xs @ ys) body =
     kbind (kfind xs body) (\<lambda>r. case r of Some x \<Rightarrow> kret (Some x) | None \<Rightarrow> kfind ys body)"
proof (induction xs)
  case Nil
  then show ?case by simp
next
  case (Cons i xs)
  have "(\<lambda>r. kbind (case r of Some x \<Rightarrow> kret (Some x) | None \<Rightarrow> kfind xs body)
             (\<lambda>r. case r of Some x \<Rightarrow> kret (Some x) | None \<Rightarrow> kfind ys body)) =
        (\<lambda>r. case r of Some x \<Rightarrow> kret (Some x) | None \<Rightarrow> kfind (xs @ ys) body)"
    by (rule ext) (simp add: Cons.IH split: option.splits)
  then show ?case by (simp add: kbind_assoc)
qed

section \<open>Systems of steps\<close>

text \<open>
  The contract between a step relation and its invariant. Each concurrent component interprets it
  on its own steps and takes the reachability lemmas from here.
\<close>

locale step_system =
  fixes start :: "'s \<Rightarrow> bool" and step :: "'s \<Rightarrow> 's \<Rightarrow> bool" and inv :: "'s \<Rightarrow> bool"
  assumes inv_start: "start s \<Longrightarrow> inv s"
    and inv_step: "inv s \<Longrightarrow> step s t \<Longrightarrow> inv t"
begin

lemma inv_steps: "step\<^sup>*\<^sup>* s t \<Longrightarrow> inv s \<Longrightarrow> inv t"
  by (induction rule: rtranclp_induct) (auto intro: inv_step)

lemma inv_reachable: "start s \<Longrightarrow> step\<^sup>*\<^sup>* s t \<Longrightarrow> inv t"
  by (blast intro: inv_start inv_steps)

end

section \<open>Search in a table\<close>

text \<open>The first index of a list whose element satisfies a predicate, as the table scans find it.\<close>

primrec find_idx :: "('a \<Rightarrow> bool) \<Rightarrow> 'a list \<Rightarrow> nat option" where
  "find_idx P [] = None"
| "find_idx P (x # xs) = (if P x then Some 0 else map_option Suc (find_idx P xs))"

lemma find_idx_None: "find_idx P xs = None \<longleftrightarrow> (\<forall>x \<in> set xs. \<not> P x)"
  by (induction xs) auto

lemma find_idx_Some:
  "find_idx P xs = Some i \<longleftrightarrow> i < length xs \<and> P (xs ! i) \<and> (\<forall>j < i. \<not> P (xs ! j))"
proof (induction xs arbitrary: i)
  case Nil
  then show ?case by simp
next
  case (Cons x xs)
  show ?case by (cases i) (auto simp: Cons.IH less_Suc_eq_0_disj)
qed

section \<open>Words\<close>

lemma unat_64_bound [wordfacts]: "unat (x :: 64 word) < 2 ^ 64"
  using unsigned_less [of x] by simp

lemma unat_32_bound [wordfacts]: "unat (x :: 32 word) < 2 ^ 32"
  using unsigned_less [of x] by simp

lemma unat_add_lt64: "unat a + unat b < 2 ^ 64 \<Longrightarrow> unat (a + b :: 64 word) = unat a + unat b"
  by (simp add: unat_word_ariths)

lemma unat_diff_Suc: "x \<noteq> d \<Longrightarrow> unat (x - d) = Suc (unat (x - (d + 1)))"
  for x d :: "'a::len word"
proof -
  assume "x \<noteq> d"
  then have "x - d \<noteq> 0" by simp
  then have "0 < unat (x - d)" and "unat (x - d - 1) = unat (x - d) - 1"
    by (simp_all add: unat_gt_0 unat_minus_one)
  moreover have "x - (d + 1) = x - d - 1" by (simp add: algebra_simps)
  ultimately show ?thesis by (simp only:)
qed

lemma unat_of_natD: "unat y = n \<Longrightarrow> y = of_nat n"
  by auto

lemma unat_of_nat64: "n < 2 ^ 64 \<Longrightarrow> unat (of_nat n :: 64 word) = n"
  by (simp add: unat_of_nat)

lemma unat_eq_of_nat: "unat x = k \<Longrightarrow> x = of_nat k"
  by auto

lemma scast_ucast_small:
  assumes "m < 2 ^ 31"
  shows "scast (ucast (of_nat m :: 64 word) :: 32 word) = (of_nat m :: 64 word)"
proof -
  have "uint (ucast (of_nat m :: 64 word) :: 32 word) = int m"
    using assms by (simp add: unsigned_ucast_eq take_bit_nat_eq_self unat_of_nat uint_nat)
  then have "sint (ucast (of_nat m :: 64 word) :: 32 word) = int m"
    using assms by (simp add: sint_uint signed_take_bit_eq_if_positive bit_iff_odd take_bit_int_eq_self)
  then show ?thesis by (simp add: scast_eq)
qed

lemma unat_of_nat32: "n < 2 ^ 32 \<Longrightarrow> unat (of_nat n :: 32 word) = n"
  by (simp add: unat_of_nat)

end
