(* ===== verification/Riscv.thy ===== *)
theory Riscv
  imports Prelude
begin

text \<open>
  The constants and macros of \<^verbatim>\<open>kernel/param.h\<close>, \<^verbatim>\<open>kernel/riscv.h\<close> and \<^verbatim>\<open>kernel/memlayout.h\<close>:
  limits, page arithmetic, page-table entries, the memory map, and the bits of \<^verbatim>\<open>sstatus\<close>. The
  lemmas give the arithmetic meaning of the bit manipulations: rounding to pages, the packing and
  unpacking of page-table entries, and the three 9-bit indices of an Sv39 address.
\<close>

section \<open>\<^verbatim>\<open>param.h\<close>\<close>

definition NPROC :: nat where "NPROC = 64"
definition NCPU :: nat where "NCPU = 8"
definition NOFILE :: nat where "NOFILE = 16"
definition NFILE :: nat where "NFILE = 100"
definition NINODE :: nat where "NINODE = 50"
definition NDEV :: nat where "NDEV = 10"
definition ROOTDEV :: nat where "ROOTDEV = 1"
definition MAXARG :: nat where "MAXARG = 32"
definition MAXOPBLOCKS :: nat where "MAXOPBLOCKS = 10"
definition LOGSIZE :: nat where "LOGSIZE = MAXOPBLOCKS * 3"
definition NBUF :: nat where "NBUF = MAXOPBLOCKS * 3"
definition FSSIZE :: nat where "FSSIZE = 1000"
definition MAXPATH :: nat where "MAXPATH = 128"

lemmas param_defs = NPROC_def NCPU_def NOFILE_def NFILE_def NINODE_def NDEV_def ROOTDEV_def
  MAXARG_def MAXOPBLOCKS_def LOGSIZE_def NBUF_def FSSIZE_def MAXPATH_def

section \<open>\<^verbatim>\<open>riscv.h\<close>\<close>

definition SSTATUS_SPP :: uint64 where "SSTATUS_SPP = push_bit 8 1"
definition SSTATUS_SPIE :: uint64 where "SSTATUS_SPIE = push_bit 5 1"
definition SSTATUS_SIE :: uint64 where "SSTATUS_SIE = push_bit 1 1"

definition SATP_SV39 :: uint64 where "SATP_SV39 = push_bit 60 8"

definition MAKE_SATP :: "addr \<Rightarrow> uint64" where
  "MAKE_SATP pagetable = SATP_SV39 OR drop_bit 12 pagetable"

definition PGSIZE :: uint64 where "PGSIZE = 4096"
definition PGSHIFT :: nat where "PGSHIFT = 12"

definition PGROUNDUP :: "uint64 \<Rightarrow> uint64" where
  "PGROUNDUP sz = (sz + PGSIZE - 1) AND NOT (PGSIZE - 1)"

definition PGROUNDDOWN :: "uint64 \<Rightarrow> uint64" where
  "PGROUNDDOWN a = a AND NOT (PGSIZE - 1)"

definition PTE_V :: uint64 where "PTE_V = push_bit 0 1"
definition PTE_R :: uint64 where "PTE_R = push_bit 1 1"
definition PTE_W :: uint64 where "PTE_W = push_bit 2 1"
definition PTE_X :: uint64 where "PTE_X = push_bit 3 1"
definition PTE_U :: uint64 where "PTE_U = push_bit 4 1"

definition PA2PTE :: "addr \<Rightarrow> uint64" where
  "PA2PTE pa = push_bit 10 (drop_bit 12 pa)"

definition PTE2PA :: "uint64 \<Rightarrow> addr" where
  "PTE2PA pte = push_bit 12 (drop_bit 10 pte)"

definition PTE_FLAGS :: "uint64 \<Rightarrow> uint64" where
  "PTE_FLAGS pte = pte AND 0x3FF"

definition PXSHIFT :: "nat \<Rightarrow> nat" where
  "PXSHIFT level = PGSHIFT + 9 * level"

definition PX :: "nat \<Rightarrow> addr \<Rightarrow> uint64" where
  "PX level va = drop_bit (PXSHIFT level) va AND 0x1FF"

definition MAXVA :: uint64 where "MAXVA = push_bit (9 + 9 + 9 + 12 - 1) 1"

lemmas pte_bits = PTE_V_def PTE_R_def PTE_W_def PTE_X_def PTE_U_def

section \<open>\<^verbatim>\<open>memlayout.h\<close>\<close>

definition UART0 :: addr where "UART0 = 0x10000000"
definition UART0_IRQ :: nat where "UART0_IRQ = 10"
definition VIRTIO0 :: addr where "VIRTIO0 = 0x10001000"
definition VIRTIO0_IRQ :: nat where "VIRTIO0_IRQ = 1"
definition CLINT :: addr where "CLINT = 0x2000000"
definition PLIC :: addr where "PLIC = 0x0c000000"
definition KERNBASE :: addr where "KERNBASE = 0x80000000"
definition PHYSTOP :: addr where "PHYSTOP = KERNBASE + 128 * 1024 * 1024"
definition TRAMPOLINE :: addr where "TRAMPOLINE = MAXVA - PGSIZE"
definition KSTACK :: "nat \<Rightarrow> addr" where "KSTACK p = TRAMPOLINE - (of_nat p + 1) * 2 * PGSIZE"
definition TRAPFRAME :: addr where "TRAPFRAME = TRAMPOLINE - PGSIZE"

section \<open>Pages\<close>

lemma mask12: "(4095 :: 64 word) = mask 12"
  by (simp add: mask_eq_exp_minus_1)

lemma PGROUNDDOWN_shift: "PGROUNDDOWN a = push_bit 12 (drop_bit 12 a)"
  unfolding PGROUNDDOWN_def PGSIZE_def by (rule bit_word_eqI) (auto simp: mask12 bit_simps)

lemma unat_push_drop: "unat (push_bit n (drop_bit n a)) = unat a div 2 ^ n * 2 ^ n" for a :: "64 word"
proof -
  have "push_bit n (drop_bit n (unat a)) < 2 ^ 64"
    using unat_64_bound [of a]
    by (simp add: push_bit_eq_mult drop_bit_eq_div) (meson div_times_less_eq_dividend le_less_trans)
  then show ?thesis
    by (simp add: unsigned_push_bit_eq unat_drop_bit_eq take_bit_nat_eq_self)
      (simp add: push_bit_eq_mult drop_bit_eq_div)
qed

lemma unat_PGROUNDDOWN: "unat (PGROUNDDOWN a) = unat a div 4096 * 4096"
  by (simp add: PGROUNDDOWN_shift unat_push_drop)

lemma PGROUNDUP_DOWN: "PGROUNDUP a = PGROUNDDOWN (a + 4095)"
  by (simp add: PGROUNDUP_def PGROUNDDOWN_def PGSIZE_def add.commute)

lemma unat_PGROUNDUP:
  "unat a + 4095 < 2 ^ 64 \<Longrightarrow> unat (PGROUNDUP a) = (unat a + 4095) div 4096 * 4096"
  by (simp add: PGROUNDUP_DOWN unat_PGROUNDDOWN unat_add_lt64)

definition page_aligned :: "addr \<Rightarrow> bool" where
  "page_aligned a \<longleftrightarrow> a mod PGSIZE = 0"

lemma page_aligned_nat: "page_aligned a \<longleftrightarrow> unat a mod 4096 = 0"
  by (simp add: page_aligned_def PGSIZE_def word_unat_eq_iff unat_mod_distrib)

lemma page_aligned_dvd: "page_aligned a \<longleftrightarrow> 4096 dvd unat a"
  by (simp add: page_aligned_nat dvd_eq_mod_eq_0)

lemma page_aligned_PGROUNDDOWN [simp]: "page_aligned (PGROUNDDOWN a)"
  by (simp add: page_aligned_nat unat_PGROUNDDOWN)

lemma PGROUNDDOWN_aligned: "page_aligned a \<Longrightarrow> PGROUNDDOWN a = a"
  by (auto simp: word_unat_eq_iff unat_PGROUNDDOWN page_aligned_dvd)

lemma page_aligned_add:
  assumes "page_aligned a" and "page_aligned b" shows "page_aligned (a + b)"
proof -
  have "4096 dvd (2 :: nat) ^ 64" by simp
  then have "4096 dvd (unat a + unat b) mod 2 ^ 64"
    using assms by (simp add: page_aligned_dvd dvd_mod)
  then show ?thesis by (simp add: page_aligned_dvd unat_word_ariths)
qed

lemma page_aligned_PGSIZE [simp]: "page_aligned PGSIZE"
  by (simp add: page_aligned_nat PGSIZE_def)

text \<open>Two different aligned pages have no byte in common.\<close>

lemma pages_apart_nat:
  assumes "page_aligned a" "page_aligned b" "a \<noteq> b" "x < 4096" "y < 4096"
  shows "unat a + x \<noteq> unat b + y"
proof
  assume eq: "unat a + x = unat b + y"
  from assms(1,2) have "unat a = 4096 * (unat a div 4096)" "unat b = 4096 * (unat b div 4096)"
    by (auto simp: page_aligned_dvd)
  moreover from eq have "(unat a + x) div 4096 = (unat b + y) div 4096" by simp
  moreover have "(unat a + x) div 4096 = unat a div 4096" "(unat b + y) div 4096 = unat b div 4096"
    using assms by (auto simp: page_aligned_dvd elim!: dvdE)
  ultimately show False using assms(3) by (metis word_unat_eq_iff)
qed

lemma PGROUNDUP_aligned:
  assumes "page_aligned a" shows "PGROUNDUP a = a"
proof -
  obtain q where q: "unat a = 4096 * q" using assms by (auto simp: page_aligned_dvd)
  then have "unat a + 4095 < 2 ^ 64" using unsigned_less [of a, where 'a = nat] by simp
  then show ?thesis using q by (simp add: word_unat_eq_iff unat_PGROUNDUP)
qed

lemma page_end: "page_aligned a \<Longrightarrow> unat a + 4096 \<le> 2 ^ 64"
  using unat_64_bound [of a] by (auto simp: page_aligned_dvd elim!: dvdE)

section \<open>Page-table entries\<close>

lemma PTE_FLAGS_take: "PTE_FLAGS pte = take_bit 10 pte"
  by (simp add: PTE_FLAGS_def take_bit_eq_mask mask_eq_exp_minus_1)

lemma low_bits: "x < 2 ^ k \<Longrightarrow> bit x n \<Longrightarrow> n < k" for x :: "64 word"
  by (metis bit_take_bit_iff less_mask_eq take_bit_eq_mask)

lemma aligned_low_bits: "page_aligned a \<Longrightarrow> n < 12 \<Longrightarrow> \<not> bit a n"
proof -
  assume "page_aligned a" "n < 12"
  then have "PGROUNDDOWN a = a" by (simp add: PGROUNDDOWN_aligned)
  with \<open>n < 12\<close> show ?thesis by (metis PGROUNDDOWN_shift bit_push_bit_iff not_less)
qed

lemma PTE2PA_PA2PTE:
  assumes "page_aligned pa" and "pa < 2 ^ 56" and "fl < 2 ^ 10"
  shows "PTE2PA (PA2PTE pa OR fl) = pa"
proof (rule bit_word_eqI)
  fix n assume n: "n < LENGTH(64)"
  show "bit (PTE2PA (PA2PTE pa OR fl)) n = bit pa n"
  proof (cases "n < 12")
    case True
    then show ?thesis using aligned_low_bits [OF assms(1)] by (simp add: PTE2PA_def bit_simps)
  next
    case False
    then have "\<not> bit fl (n - 2)" using low_bits [OF assms(3), of "n - 2"] by auto
    moreover have "n = 12 + (n - 12)" using False by simp
    ultimately show ?thesis
      using False n low_bits [OF assms(2), of n]
      by (auto simp: PTE2PA_def PA2PTE_def bit_simps)
  qed
qed

lemma PTE_FLAGS_PA2PTE:
  assumes "fl < 2 ^ 10"
  shows "PTE_FLAGS (PA2PTE pa OR fl) = fl"
  unfolding PTE_FLAGS_take
  by (rule bit_word_eqI)
    (use low_bits [OF assms] in
      \<open>auto simp: PA2PTE_def bit_take_bit_iff bit_or_iff bit_push_bit_iff\<close>)

lemma page_aligned_PTE2PA [simp]: "page_aligned (PTE2PA pte)"
proof -
  have "PGROUNDDOWN (PTE2PA pte) = PTE2PA pte"
    unfolding PGROUNDDOWN_shift PTE2PA_def by (rule bit_word_eqI) (auto simp: bit_simps)
  then show ?thesis by (metis page_aligned_PGROUNDDOWN)
qed

section \<open>The three indices of a virtual address\<close>

lemma mask9: "(511 :: 64 word) = mask 9"
  by (simp add: mask_eq_exp_minus_1)

lemma unat_PX: "unat (PX l va) = unat va div 2 ^ (12 + 9 * l) mod 512"
  unfolding PX_def PXSHIFT_def PGSHIFT_def
  by (simp add: mask9 take_bit_eq_mask [symmetric] unsigned_take_bit_eq unat_drop_bit_eq)
    (simp add: take_bit_eq_mod drop_bit_eq_div)

lemma PX_less: "unat (PX l va) < 512"
  by (simp add: unat_PX)

lemma unat_MAXVA: "unat MAXVA = 2 ^ 38"
  by (simp add: MAXVA_def)

text \<open>
  The three indices determine the page of an address of 39 bits. \<^verbatim>\<open>MAXVA\<close> is one bit less.
\<close>

definition SV39 :: uint64 where "SV39 = push_bit 39 1"

lemma unat_SV39: "unat SV39 = 2 ^ 39"
  by (simp add: SV39_def)

lemma MAXVA_SV39 [simp, intro]: "va < MAXVA \<Longrightarrow> va < SV39"
  by (simp add: word_less_nat_alt unat_SV39 unat_MAXVA)

lemma page_of_PX:
  assumes "va < SV39"
  shows "unat va div 4096 = unat (PX 2 va) * 2 ^ 18 + unat (PX 1 va) * 2 ^ 9 + unat (PX 0 va)"
proof -
  let ?v = "unat va div 4096"
  have "unat va < 2 ^ 39" using assms by (simp add: word_less_nat_alt unat_SV39)
  then have "?v div 512 div 512 < 512" by (simp add: div_mult2_eq [symmetric])
  then have "unat (PX 2 va) = ?v div 512 div 512" by (simp add: unat_PX div_mult2_eq [symmetric])
  moreover have "unat (PX 1 va) = ?v div 512 mod 512" by (simp add: unat_PX div_mult2_eq [symmetric])
  moreover have "unat (PX 0 va) = ?v mod 512" by (simp add: unat_PX)
  moreover have "w = w div 512 div 512 * 262144 + w div 512 mod 512 * 512 + w mod 512" for w :: nat
    using div_mult_mod_eq [of w 512] div_mult_mod_eq [of "w div 512" 512] by linarith
  ultimately show ?thesis by simp
qed

lemma same_page_PX:
  assumes "va < SV39" "va' < SV39"
  shows "PGROUNDDOWN va = PGROUNDDOWN va' \<longleftrightarrow>
         PX 2 va = PX 2 va' \<and> PX 1 va = PX 1 va' \<and> PX 0 va = PX 0 va'"
proof
  assume "PGROUNDDOWN va = PGROUNDDOWN va'"
  then have "unat va div 4096 = unat va' div 4096"
    by (simp add: word_unat_eq_iff unat_PGROUNDDOWN)
  then have "unat va div 4096 div 2 ^ (9 * l) = unat va' div 4096 div 2 ^ (9 * l)" for l by simp
  then have "unat va div 2 ^ (12 + 9 * l) = unat va' div 2 ^ (12 + 9 * l)" for l
    by (simp add: power_add div_mult2_eq [symmetric])
  from this [of 2] this [of 1] this [of 0]
  show "PX 2 va = PX 2 va' \<and> PX 1 va = PX 1 va' \<and> PX 0 va = PX 0 va'"
    by (simp add: word_unat_eq_iff unat_PX)
next
  assume "PX 2 va = PX 2 va' \<and> PX 1 va = PX 1 va' \<and> PX 0 va = PX 0 va'"
  then have "unat va div 4096 = unat va' div 4096"
    using assms by (simp add: page_of_PX)
  then show "PGROUNDDOWN va = PGROUNDDOWN va'"
    by (simp add: word_unat_eq_iff unat_PGROUNDDOWN)
qed

section \<open>Interrupt bits of \<^verbatim>\<open>sstatus\<close>\<close>

lemma sie_bit: "x AND SSTATUS_SIE \<noteq> 0 \<longleftrightarrow> bit x 1"
  by (simp add: SSTATUS_SIE_def bit_iff_and_push_bit_not_eq_0)

lemma bit_SIE: "bit SSTATUS_SIE n \<longleftrightarrow> n = 1"
  by (auto simp: SSTATUS_SIE_def bit_simps)

lemma sie_set: "(x OR SSTATUS_SIE) AND SSTATUS_SIE \<noteq> 0"
  unfolding sie_bit by (simp add: bit_or_iff bit_SIE)

lemma sie_clear: "(x AND NOT SSTATUS_SIE) AND SSTATUS_SIE = 0"
  by (simp add: and.assoc)

lemma sie_off_off: "x AND SSTATUS_SIE = 0 \<Longrightarrow> x AND NOT SSTATUS_SIE = x"
  using sie_bit [of x]
  by (intro bit_word_eqI) (auto simp: bit_and_iff bit_not_iff bit_SIE)

lemma sie_off_on: "x AND SSTATUS_SIE \<noteq> 0 \<Longrightarrow> (x AND NOT SSTATUS_SIE) OR SSTATUS_SIE = x"
  using sie_bit [of x]
  by (intro bit_word_eqI) (auto simp: bit_and_iff bit_or_iff bit_not_iff bit_SIE)

end
