(* ===== verification/Memory.thy ===== *)
theory Memory
  imports Prelude
begin

text \<open>
  Byte memory. Addresses are 64-bit words and address arithmetic wraps, as on the machine. A
  range of memory is read and written as a list of bytes; integers are stored with the least
  significant byte first. The loops of \<^verbatim>\<open>kernel/string.c\<close> are related to these two operations in
  theory Strings, and disk blocks and on-disk structures use the same encoding.
\<close>

section \<open>Ranges of memory\<close>

definition readbytes :: "memory \<Rightarrow> addr \<Rightarrow> nat \<Rightarrow> byte list" where
  "readbytes m a n = map (\<lambda>i. m (a + of_nat i)) [0..<n]"

definition writebytes :: "memory \<Rightarrow> addr \<Rightarrow> byte list \<Rightarrow> memory" where
  "writebytes m a bs = (\<lambda>x. if unat (x - a) < length bs then bs ! unat (x - a) else m x)"

lemma length_readbytes [simp]: "length (readbytes m a n) = n"
  by (simp add: readbytes_def)

lemma nth_readbytes [simp]: "i < n \<Longrightarrow> readbytes m a n ! i = m (a + of_nat i)"
  by (simp add: readbytes_def)

lemma readbytes_0 [simp]: "readbytes m a 0 = []"
  by (simp add: readbytes_def)

lemma readbytes_Suc: "readbytes m a (Suc n) = m a # readbytes m (a + 1) n"
  by (rule nth_equalityI) (auto simp: nth_Cons add.assoc split: nat.splits)

lemma readbytes_snoc: "readbytes m a (Suc n) = readbytes m a n @ [m (a + of_nat n)]"
  by (simp add: readbytes_def)

lemma readbytes_add: "readbytes m a (n + k) = readbytes m a n @ readbytes m (a + of_nat n) k"
  by (rule nth_equalityI) (auto simp: nth_append algebra_simps)

lemma writebytes_Nil [simp]: "writebytes m a [] = m"
  by (simp add: writebytes_def)

lemma writebytes_apply:
  "writebytes m a bs x = (if unat (x - a) < length bs then bs ! unat (x - a) else m x)"
  by (simp add: writebytes_def)

lemma writebytes_outside: "length bs \<le> unat (x - a) \<Longrightarrow> writebytes m a bs x = m x"
  by (simp add: writebytes_def)

lemma readbytes_writebytes [simp]:
  assumes "length bs \<le> 2 ^ 64"
  shows "readbytes (writebytes m a bs) a (length bs) = bs"
  using assms by (intro nth_equalityI) (auto simp: writebytes_def unat_of_nat64)

text \<open>Two ranges are apart when no byte of the one is a byte of the other.\<close>

definition apart :: "addr \<Rightarrow> nat \<Rightarrow> addr \<Rightarrow> nat \<Rightarrow> bool" where
  "apart a n b k \<longleftrightarrow> (\<forall>i < n. k \<le> unat (a + of_nat i - b))"

lemma readbytes_writebytes_apart:
  "apart a n b (length bs) \<Longrightarrow> readbytes (writebytes m b bs) a n = readbytes m a n"
  by (intro nth_equalityI) (auto simp: apart_def writebytes_def)

lemma apart_ranges:
  assumes "unat a + n \<le> unat b \<or> unat b + k \<le> unat a"
    and "unat a + n \<le> 2 ^ 64" and "unat b + k \<le> 2 ^ 64"
  shows "apart a n b k"
  unfolding apart_def
proof (intro allI impI)
  fix i assume i: "i < n"
  have ai: "unat (a + of_nat i) = unat a + i"
    using i assms(2) by (simp add: unat_word_ariths unat_of_nat64)
  show "k \<le> unat (a + of_nat i - b)"
  proof (cases "unat b \<le> unat a + i")
    case True
    then have "unat (a + of_nat i - b) = unat a + i - unat b"
      by (simp add: ai unat_sub_if')
    with True i assms show ?thesis by auto
  next
    case False
    then have "unat (a + of_nat i - b) = unat a + i + 2 ^ 64 - unat b"
      by (simp add: ai unat_sub_if')
    with assms(3) show ?thesis by simp
  qed
qed

section \<open>Integers in memory, least significant byte first\<close>

primrec le_bytes :: "nat \<Rightarrow> nat \<Rightarrow> byte list" where
  "le_bytes 0 v = []"
| "le_bytes (Suc n) v = of_nat v # le_bytes n (v div 256)"

primrec of_le :: "byte list \<Rightarrow> nat" where
  "of_le [] = 0"
| "of_le (b # bs) = unat b + 256 * of_le bs"

lemma length_le_bytes [simp]: "length (le_bytes n v) = n"
  by (induction n arbitrary: v) auto

lemma of_le_le_bytes [simp]: "of_le (le_bytes n v) = v mod 256 ^ n"
proof (induction n arbitrary: v)
  case 0
  then show ?case by simp
next
  case (Suc n)
  have "unat (of_nat v :: byte) = v mod 256" by (simp add: unat_of_nat)
  then show ?case using Suc by (simp add: mod_mult2_eq)
qed

lemma of_le_bound: "of_le bs < 256 ^ length bs"
proof (induction bs)
  case Nil
  then show ?case by simp
next
  case (Cons b bs)
  have "unat b < 256" using unsigned_less [of b] by simp
  with Cons show ?case by simp
qed

lemma le_bytes_of_le [simp]: "le_bytes (length bs) (of_le bs) = bs"
proof (induction bs)
  case Nil
  then show ?case by simp
next
  case (Cons b bs)
  have b: "unat b < 256" using unsigned_less [of b] by simp
  then have "unat (of_nat (unat b + 256 * of_le bs) :: byte) = unat b"
    by (simp only: unat_of_nat) simp
  then have "(of_nat (unat b + 256 * of_le bs) :: byte) = b"
    by (rule unsigned_word_eqI)
  moreover have "(unat b + 256 * of_le bs) div 256 = of_le bs"
    using b by simp
  ultimately show ?case using Cons by (simp only: length_Cons le_bytes.simps of_le.simps)
qed

definition load64 :: "memory \<Rightarrow> addr \<Rightarrow> uint64" where
  "load64 m a = of_nat (of_le (readbytes m a 8))"

definition store64 :: "memory \<Rightarrow> addr \<Rightarrow> uint64 \<Rightarrow> memory" where
  "store64 m a v = writebytes m a (le_bytes 8 (unat v))"

lemma load64_store64 [simp]: "load64 (store64 m a v) a = v"
proof -
  have "readbytes (writebytes m a (le_bytes 8 (unat v))) a 8 = le_bytes 8 (unat v)"
    using readbytes_writebytes [of "le_bytes 8 (unat v)" m a] by simp
  moreover have "unat v < 256 ^ 8" using unat_64_bound [of v] by simp
  ultimately show ?thesis by (simp add: load64_def store64_def)
qed

lemma load64_store64_apart: "apart a 8 b 8 \<Longrightarrow> load64 (store64 m b v) a = load64 m a"
  by (simp add: load64_def store64_def readbytes_writebytes_apart)

lemma load64_writebytes_apart: "apart a 8 b (length bs) \<Longrightarrow> load64 (writebytes m b bs) a = load64 m a"
  by (simp add: load64_def readbytes_writebytes_apart)

lemma load64_cong: "readbytes m a 8 = readbytes m' a 8 \<Longrightarrow> load64 m a = load64 m' a"
  by (simp add: load64_def)

lemma load64_zero_memory: "load64 (\<lambda>_. 0) a = 0"
  by (simp add: load64_def readbytes_def upt_rec)

end
