(* ===== verification/Kernel_State.thy ===== *)
theory Kernel_State
  imports Riscv Memory
begin

text \<open>
  The data structures of the kernel headers and the global variables of the kernel, as one
  record. A pointer to an element of a static table (\<^verbatim>\<open>proc[]\<close>, \<^verbatim>\<open>cpus[]\<close>, \<^verbatim>\<open>ftable.file[]\<close>,
  \<^verbatim>\<open>icache.inode[]\<close>, \<^verbatim>\<open>bcache.buf[]\<close>) is the index of the element, and a null pointer is
  \<^const>\<open>None\<close>; a pointer to memory from \<^verbatim>\<open>kalloc()\<close> is its 64-bit address, and null is 0. The
  address of a spinlock, of a sleeplock and of a wait channel is a value of a datatype with one
  constructor per object of the source that is used so. Flags that the code only sets to 0 or 1
  and tests are booleans.
\<close>

section \<open>Addresses of locks and wait channels\<close>

datatype slockid = BufSL nat | InodeSL nat

datatype lockid =
    KmemLock | PidLock | ProcLock nat | TicksLock | BcacheLock | SleepSpin slockid | LogLock
  | IcacheLock | FtableLock | PipeLock addr | ConsLock | UartTxLock | PrLock | DiskLock

datatype chan =
    NoChan | ChanProc nat | ChanSL slockid | ChanPipeRead addr | ChanPipeWrite addr | ChanLog
  | ChanTicks | ChanConsR | ChanUartTx | ChanBuf nat | ChanDiskFree

section \<open>\<^verbatim>\<open>spinlock.h\<close>, \<^verbatim>\<open>sleeplock.h\<close>\<close>

record spinlock =
  locked :: uint
  lname :: string
  lcpu :: "nat option"

record sleeplock =
  sl_locked :: uint
  sl_name :: string
  sl_pid :: int

section \<open>\<^verbatim>\<open>proc.h\<close>\<close>

record cpu_context =
  ctx_ra :: uint64
  ctx_sp :: uint64
  ctx_s :: "uint64 list"

record cpu =
  cpu_proc :: "nat option"
  cpu_ctx :: cpu_context
  noff :: int
  intena :: bool

datatype procstate = UNUSED | SLEEPING | RUNNABLE | RUNNING | ZOMBIE

record proc =
  p_state :: procstate
  p_parent :: "nat option"
  p_chan :: chan
  p_killed :: bool
  p_xstate :: int
  p_pid :: int
  p_kstack :: addr
  p_sz :: uint64
  p_pagetable :: addr
  p_trapframe :: addr
  p_context :: cpu_context
  p_ofile :: "nat option list"
  p_cwd :: "nat option"
  p_name :: "byte list"

text \<open>Offsets of the fields of \<^verbatim>\<open>struct trapframe\<close>, which lives in a page of its own.\<close>

definition TF_kernel_satp :: addr where "TF_kernel_satp = 0"
definition TF_kernel_sp :: addr where "TF_kernel_sp = 8"
definition TF_kernel_trap :: addr where "TF_kernel_trap = 16"
definition TF_epc :: addr where "TF_epc = 24"
definition TF_kernel_hartid :: addr where "TF_kernel_hartid = 32"
definition TF_sp :: addr where "TF_sp = 48"
definition TF_a0 :: addr where "TF_a0 = 112"
definition TF_a1 :: addr where "TF_a1 = 120"
definition TF_a7 :: addr where "TF_a7 = 168"
definition TF_size :: nat where "TF_size = 288"

section \<open>\<^verbatim>\<open>buf.h\<close>, \<^verbatim>\<open>fs.h\<close>, \<^verbatim>\<open>file.h\<close>, \<^verbatim>\<open>pipe.c\<close>\<close>

record buf =
  b_valid :: bool
  b_disk :: bool
  b_dev :: uint
  b_blockno :: uint
  b_refcnt :: uint
  b_prev :: nat
  b_next :: nat
  b_data :: "byte list"

record superblock =
  sb_magic :: uint
  sb_size :: uint
  sb_nblocks :: uint
  sb_ninodes :: uint
  sb_nlog :: uint
  sb_logstart :: uint
  sb_inodestart :: uint
  sb_bmapstart :: uint

record dinode =
  d_type :: "16 word"
  d_major :: "16 word"
  d_minor :: "16 word"
  d_nlink :: "16 word"
  d_size :: uint
  d_addrs :: "uint list"

record logheader =
  lh_n :: int
  lh_block :: "uint list"

record log =
  log_start :: int
  log_size :: int
  log_outstanding :: int
  log_committing :: bool
  log_dev :: uint
  log_lh :: logheader

record inode =
  i_dev :: uint
  i_inum :: uint
  i_ref :: int
  i_valid :: bool
  i_type :: "16 word"
  i_major :: "16 word"
  i_minor :: "16 word"
  i_nlink :: "16 word"
  i_size :: uint
  i_addrs :: "uint list"

datatype ftype = FD_NONE | FD_PIPE | FD_INODE | FD_DEVICE

record kfile =
  f_type :: ftype
  f_ref :: int
  f_readable :: bool
  f_writable :: bool
  f_pipe :: addr
  f_ip :: "nat option"
  f_off :: uint
  f_major :: "16 word"

record pipe =
  pi_data :: "byte list"
  pi_nread :: uint
  pi_nwrite :: uint
  pi_readopen :: bool
  pi_writeopen :: bool

section \<open>Console and UART state\<close>

record cons =
  cons_buf :: "byte list"
  cons_r :: uint
  cons_w :: uint
  cons_e :: uint

text \<open>
  The registers of the UART are memory-mapped: \<open>uart_lsr\<close> and \<open>uart_rhr\<close> are the values that the
  next reads of the line status and of the receive register will return, \<open>uart_out\<close> the writes
  \<open>(register, value)\<close> so far.
\<close>

record uart =
  uart_tx_buf :: "byte list"
  uart_tx_w :: int
  uart_tx_r :: int
  uart_lsr :: "byte list"
  uart_rhr :: "byte list"
  uart_out :: "(nat \<times> byte) list"

section \<open>\<^verbatim>\<open>virtio.h\<close> and the disk driver\<close>

text \<open>
  What a descriptor's address can point to: the request header on the stack of \<^verbatim>\<open>virtio_disk_rw()\<close>
  (with its type and sector), the data of a buffer, the status byte of an entry of \<^verbatim>\<open>disk.info[]\<close>.
\<close>

datatype daddr = DNull | DHeader uint uint64 | DBufData nat | DStatus nat

record vring_desc =
  vd_addr :: daddr
  vd_len :: uint
  vd_flags :: "16 word"
  vd_next :: "16 word"

record vdisk =
  vk_desc :: "vring_desc list"
  vk_avail_idx :: "16 word"
  vk_avail :: "16 word list"
  vk_used_id :: "16 word"
  vk_used :: "uint list"
  vk_free :: "bool list"
  vk_used_idx :: "16 word"
  vk_info_b :: "nat option list"
  vk_info_status :: "byte list"
  vk_regs :: "nat \<Rightarrow> uint"
  vk_writes :: "(nat \<times> uint) list"

section \<open>\<^verbatim>\<open>file.h\<close>: the device switch\<close>

datatype devfn = Fn_consoleread | Fn_consolewrite

record devsw =
  dv_read :: "devfn option"
  dv_write :: "devfn option"

section \<open>The machine state of the harts\<close>

text \<open>
  \<open>tp\<close> is the hart that runs the code, \<open>sstatus\<close> the status register of each hart; the other
  control registers that the trap code uses are per hart too.
\<close>

record csrs =
  sstatus :: uint64
  sepc :: uint64
  scause :: uint64
  stval :: uint64
  stvec :: uint64
  satp :: uint64
  sip :: uint64

record hwstate =
  tp :: nat
  cpus :: "nat \<Rightarrow> cpu"
  csr :: "nat \<Rightarrow> csrs"
  locks :: "lockid \<Rightarrow> spinlock"

text \<open>Addresses that the linker and the assembly files define.\<close>

record symbols =
  sym_end :: addr
  sym_etext :: addr
  sym_trampoline :: addr
  sym_uservec :: addr
  sym_userret :: addr
  sym_kernelvec :: addr
  sym_usertrap :: addr
  sym_forkret :: addr

section \<open>All of the kernel\<close>

record kernel =
  hw :: hwstate
  syms :: symbols
  pmem :: memory
  freelist :: addr
  kernel_pagetable :: addr
  procs :: "proc list"
  initproc :: "nat option"
  nextpid :: int
  ticks :: uint
  sleeplocks :: "slockid \<Rightarrow> sleeplock"
  pipes :: "addr \<Rightarrow> pipe"
  ftable :: "kfile list"
  disk :: "uint \<Rightarrow> byte list"
  disk_writes :: "(uint \<times> byte list) list"
  bcache :: "buf list"
  klog :: log
  sb :: superblock
  icache :: "inode list"
  kcons :: cons
  kuart :: uart
  panicked :: bool
  pr_locking :: bool
  kdevsw :: "devsw list"
  kvdisk :: vdisk
  plic_claims :: "int list"
  plic_done :: "int list"
  forkret_first :: bool
  started :: bool
  junk :: "nat \<Rightarrow> byte"

text \<open>
  \<open>disk\<close> is the contents of the disk by block number and \<open>disk_writes\<close> the writes that it has carried out,
  in order; after a loss of power the disk holds what some first part of them made of it.
  \<open>plic_claims\<close> are the values that the next reads of the claim register return, \<open>plic_done\<close> what was
  written to it; \<open>junk\<close> is the content of uninitialised stack bytes.
\<close>

type_synonym 'a kcode = "(kernel, 'a) ker"

section \<open>The static initial values\<close>

text \<open>
  The globals as the C program starts with them: everything zero but \<^verbatim>\<open>nextpid\<close>. The contents of
  the disk and of memory, and the linker's addresses, are given from outside.
\<close>

definition ctx0 :: cpu_context where
  "ctx0 = \<lparr>ctx_ra = 0, ctx_sp = 0, ctx_s = replicate 12 0\<rparr>"

definition cpu0 :: cpu where
  "cpu0 = \<lparr>cpu_proc = None, cpu_ctx = ctx0, noff = 0, intena = False\<rparr>"

definition proc0 :: proc where
  "proc0 = \<lparr>p_state = UNUSED, p_parent = None, p_chan = NoChan, p_killed = False, p_xstate = 0,
     p_pid = 0, p_kstack = 0, p_sz = 0, p_pagetable = 0, p_trapframe = 0, p_context = ctx0,
     p_ofile = replicate NOFILE None, p_cwd = None, p_name = replicate 16 0\<rparr>"

definition spinlock0 :: spinlock where
  "spinlock0 = \<lparr>locked = 0, lname = [], lcpu = None\<rparr>"

definition buf0 :: buf where
  "buf0 = \<lparr>b_valid = False, b_disk = False, b_dev = 0, b_blockno = 0, b_refcnt = 0, b_prev = 0,
     b_next = 0, b_data = replicate 1024 0\<rparr>"

definition inode0 :: inode where
  "inode0 = \<lparr>i_dev = 0, i_inum = 0, i_ref = 0, i_valid = False, i_type = 0, i_major = 0, i_minor = 0,
     i_nlink = 0, i_size = 0, i_addrs = replicate 13 0\<rparr>"

definition kfile0 :: kfile where
  "kfile0 = \<lparr>f_type = FD_NONE, f_ref = 0, f_readable = False, f_writable = False, f_pipe = 0,
     f_ip = None, f_off = 0, f_major = 0\<rparr>"

definition pipe0 :: pipe where
  "pipe0 = \<lparr>pi_data = replicate 512 0, pi_nread = 0, pi_nwrite = 0, pi_readopen = False,
     pi_writeopen = False\<rparr>"

definition hw0 :: hwstate where
  "hw0 = \<lparr>tp = 0, cpus = (\<lambda>_. cpu0),
     csr = (\<lambda>_. \<lparr>sstatus = 0, sepc = 0, scause = 0, stval = 0, stvec = 0, satp = 0, sip = 0\<rparr>),
     locks = (\<lambda>_. spinlock0)\<rparr>"

definition bss :: "symbols \<Rightarrow> memory \<Rightarrow> (uint \<Rightarrow> byte list) \<Rightarrow> kernel" where
  "bss sy m d = \<lparr>hw = hw0, syms = sy, pmem = m, freelist = 0, kernel_pagetable = 0,
     procs = replicate NPROC proc0, initproc = None, nextpid = 1, ticks = 0,
     sleeplocks = (\<lambda>_. \<lparr>sl_locked = 0, sl_name = [], sl_pid = 0\<rparr>),
     pipes = (\<lambda>_. pipe0), ftable = replicate NFILE kfile0, disk = d, disk_writes = [],
     bcache = replicate (NBUF + 1) buf0,
     klog = \<lparr>log_start = 0, log_size = 0, log_outstanding = 0, log_committing = False, log_dev = 0,
              log_lh = \<lparr>lh_n = 0, lh_block = replicate LOGSIZE 0\<rparr>\<rparr>,
     sb = \<lparr>sb_magic = 0, sb_size = 0, sb_nblocks = 0, sb_ninodes = 0, sb_nlog = 0, sb_logstart = 0,
           sb_inodestart = 0, sb_bmapstart = 0\<rparr>,
     icache = replicate NINODE inode0,
     kcons = \<lparr>cons_buf = replicate 128 0, cons_r = 0, cons_w = 0, cons_e = 0\<rparr>,
     kuart = \<lparr>uart_tx_buf = replicate 32 0, uart_tx_w = 0, uart_tx_r = 0, uart_lsr = [],
              uart_rhr = [], uart_out = []\<rparr>,
     panicked = False, pr_locking = False,
     kdevsw = replicate NDEV \<lparr>dv_read = None, dv_write = None\<rparr>,
     kvdisk = \<lparr>vk_desc = replicate 8 \<lparr>vd_addr = DNull, vd_len = 0, vd_flags = 0, vd_next = 0\<rparr>,
                vk_avail_idx = 0, vk_avail = replicate 8 0, vk_used_id = 0, vk_used = replicate 8 0,
                vk_free = replicate 8 False, vk_used_idx = 0, vk_info_b = replicate 8 None,
                vk_info_status = replicate 8 0, vk_regs = (\<lambda>_. 0), vk_writes = []\<rparr>,
     plic_claims = [], plic_done = [], forkret_first = True, started = False, junk = (\<lambda>_. 0)\<rparr>"

text \<open>A linker map with three pages of free memory, for examples.\<close>

definition syms0 :: symbols where
  "syms0 = \<lparr>sym_end = KERNBASE + 34 * PGSIZE, sym_etext = KERNBASE + 8 * PGSIZE,
     sym_trampoline = KERNBASE + 7 * PGSIZE, sym_uservec = KERNBASE + 7 * PGSIZE,
     sym_userret = KERNBASE + 7 * PGSIZE + 144, sym_kernelvec = KERNBASE + 0x5000,
     sym_usertrap = KERNBASE + 0x2000, sym_forkret = KERNBASE + 0x1a00\<rparr>"

definition kernel0 :: kernel where
  "kernel0 = bss syms0 (\<lambda>_. 0) (\<lambda>_. replicate 1024 0)"

end
