(* ===== verification/Spinlock.thy ===== *)
theory Spinlock
  imports Kernel_State
begin

text \<open>
  \<^verbatim>\<open>kernel/spinlock.c\<close> with the interrupt primitives of \<^verbatim>\<open>riscv.h\<close> and \<^verbatim>\<open>cpuid\<close>/\<^verbatim>\<open>mycpu\<close> of
  \<^verbatim>\<open>proc.c\<close>. The code runs on the hart \<open>tp\<close>. The functions \<open>enter\<close> and \<open>leave\<close> give the effect of an
  uncontended \<^verbatim>\<open>acquire\<close> and of \<^verbatim>\<open>release\<close> on the machine state; \<open>leave_enter\<close> shows that they
  cancel, which is what lets every other component reason about its critical sections. The last
  section is the multi-hart system: harts take and drop locks in any order, and in every reachable
  state a hart that holds a lock has its interrupts off.
\<close>

section \<open>Interrupt primitives\<close>

definition r_sstatus :: "uint64 kcode" where
  "r_sstatus = kget (\<lambda>s. sstatus (csr (hw s) (tp (hw s))))"

definition set_sstatus :: "uint64 \<Rightarrow> hwstate \<Rightarrow> hwstate" where
  "set_sstatus x h = h\<lparr>csr := (csr h)(tp h := (csr h (tp h))\<lparr>sstatus := x\<rparr>)\<rparr>"

definition w_sstatus :: "uint64 \<Rightarrow> unit kcode" where
  "w_sstatus x = kmod (\<lambda>s. s\<lparr>hw := set_sstatus x (hw s)\<rparr>)"

definition intr_on :: "unit kcode" where
  "intr_on = kbind r_sstatus (\<lambda>x. w_sstatus (x OR SSTATUS_SIE))"

definition intr_off :: "unit kcode" where
  "intr_off = kbind r_sstatus (\<lambda>x. w_sstatus (x AND NOT SSTATUS_SIE))"

definition intr_get :: "bool kcode" where
  "intr_get = kbind r_sstatus (\<lambda>x. kret (x AND SSTATUS_SIE \<noteq> 0))"

definition cpuid :: "nat kcode" where
  "cpuid = kget (\<lambda>s. tp (hw s))"

definition mycpu :: "cpu kcode" where
  "mycpu = kbind cpuid (\<lambda>i. kget (\<lambda>s. cpus (hw s) i))"

definition set_mycpu :: "(cpu \<Rightarrow> cpu) \<Rightarrow> hwstate \<Rightarrow> hwstate" where
  "set_mycpu f h = h\<lparr>cpus := (cpus h)(tp h := f (cpus h (tp h)))\<rparr>"

definition upd_mycpu :: "(cpu \<Rightarrow> cpu) \<Rightarrow> unit kcode" where
  "upd_mycpu f = kmod (\<lambda>s. s\<lparr>hw := set_mycpu f (hw s)\<rparr>)"

section \<open>\<^verbatim>\<open>spinlock.c\<close>\<close>

definition set_lock :: "lockid \<Rightarrow> (spinlock \<Rightarrow> spinlock) \<Rightarrow> hwstate \<Rightarrow> hwstate" where
  "set_lock lk f h = h\<lparr>locks := (locks h)(lk := f (locks h lk))\<rparr>"

definition upd_lock :: "lockid \<Rightarrow> (spinlock \<Rightarrow> spinlock) \<Rightarrow> unit kcode" where
  "upd_lock lk f = kmod (\<lambda>s. s\<lparr>hw := set_lock lk f (hw s)\<rparr>)"

definition initlock :: "lockid \<Rightarrow> string \<Rightarrow> unit kcode" where
  "initlock lk name = upd_lock lk (\<lambda>l. l\<lparr>lname := name, locked := 0, lcpu := None\<rparr>)"

definition holding :: "lockid \<Rightarrow> bool kcode" where
  "holding lk = kbind (kget (\<lambda>s. locks (hw s) lk)) (\<lambda>l.
     kbind cpuid (\<lambda>i. kret (locked l \<noteq> 0 \<and> lcpu l = Some i)))"

definition push_off :: "unit kcode" where
  "push_off =
     kbind intr_get (\<lambda>old.
     kdo [intr_off] (
     kbind mycpu (\<lambda>c.
     kdo [kwhen (noff c = 0) (upd_mycpu (\<lambda>c. c\<lparr>intena := old\<rparr>)),
          upd_mycpu (\<lambda>c. c\<lparr>noff := noff c + 1\<rparr>)]
     (kret ()))))"

definition pop_off :: "unit kcode" where
  "pop_off =
     kbind intr_get (\<lambda>on.
     if on then kpanic ''pop_off - interruptible'' else
     kbind mycpu (\<lambda>c.
     if noff c < 1 then kpanic ''pop_off'' else
     kdo [upd_mycpu (\<lambda>c. c\<lparr>noff := noff c - 1\<rparr>)] (
     kbind mycpu (\<lambda>c.
     kwhen (noff c = 0 \<and> intena c) intr_on))))"

text \<open>
  The spin loop. \<^verbatim>\<open>__sync_lock_test_and_set\<close> stores 1 and yields the old value; as long as the old
  value is not 0 the rest of the machine takes its next step.
\<close>

fun spin :: "lockid \<Rightarrow> unit kcode" where
  "spin lk w s =
     (let old = locked (locks (hw s) lk);
          s' = s\<lparr>hw := set_lock lk (\<lambda>l. l\<lparr>locked := 1\<rparr>) (hw s)\<rparr>
      in if old = 0 then Ret () s' w
         else case w of [] \<Rightarrow> Blocked s' | e # w' \<Rightarrow> spin lk w' (e s'))"

declare spin.simps [simp del]

definition acquire :: "lockid \<Rightarrow> unit kcode" where
  "acquire lk =
     kdo [push_off] (
     kbind (holding lk) (\<lambda>h.
     if h then kpanic ''acquire'' else
     kdo [spin lk] (
     kbind cpuid (\<lambda>i.
     upd_lock lk (\<lambda>l. l\<lparr>lcpu := Some i\<rparr>)))))"

definition release :: "lockid \<Rightarrow> unit kcode" where
  "release lk =
     kbind (holding lk) (\<lambda>h.
     if \<not> h then kpanic ''release'' else
     kdo [upd_lock lk (\<lambda>l. l\<lparr>lcpu := None\<rparr>),
          upd_lock lk (\<lambda>l. l\<lparr>locked := 0\<rparr>),
          pop_off]
     (kret ()))"

section \<open>The effect on the machine state\<close>

definition sie :: "hwstate \<Rightarrow> bool" where
  "sie h \<longleftrightarrow> sstatus (csr h (tp h)) AND SSTATUS_SIE \<noteq> 0"

abbreviation me :: "hwstate \<Rightarrow> cpu" where
  "me h \<equiv> cpus h (tp h)"

definition irq_off :: "hwstate \<Rightarrow> hwstate" where
  "irq_off h = set_sstatus (sstatus (csr h (tp h)) AND NOT SSTATUS_SIE) h"

definition irq_on :: "hwstate \<Rightarrow> hwstate" where
  "irq_on h = set_sstatus (sstatus (csr h (tp h)) OR SSTATUS_SIE) h"

definition pushed :: "hwstate \<Rightarrow> hwstate" where
  "pushed h = set_mycpu (\<lambda>c. c\<lparr>intena := (if noff c = 0 then sie h else intena c),
                             noff := noff c + 1\<rparr>) (irq_off h)"

definition popped :: "hwstate \<Rightarrow> hwstate" where
  "popped h = (let h' = set_mycpu (\<lambda>c. c\<lparr>noff := noff c - 1\<rparr>) h
               in if noff (me h') = 0 \<and> intena (me h') then irq_on h' else h')"

definition enter :: "lockid \<Rightarrow> hwstate \<Rightarrow> hwstate" where
  "enter lk h = set_lock lk (\<lambda>l. l\<lparr>locked := 1, lcpu := Some (tp h)\<rparr>) (pushed h)"

definition leave :: "lockid \<Rightarrow> hwstate \<Rightarrow> hwstate" where
  "leave lk h = popped (set_lock lk (\<lambda>l. l\<lparr>lcpu := None, locked := 0\<rparr>) h)"

text \<open>A lock nobody holds, and one that this hart holds.\<close>

definition lock_free :: "lockid \<Rightarrow> hwstate \<Rightarrow> bool" where
  "lock_free lk h \<longleftrightarrow> locked (locks h lk) = 0 \<and> lcpu (locks h lk) = None"

definition held :: "lockid \<Rightarrow> hwstate \<Rightarrow> bool" where
  "held lk h \<longleftrightarrow> locked (locks h lk) \<noteq> 0 \<and> lcpu (locks h lk) = Some (tp h)"

text \<open>
  The interrupt bookkeeping of this hart is consistent: inside a \<^verbatim>\<open>push_off\<close> interrupts are off, and
  outside the saved flag is the current one.
\<close>

definition calm :: "hwstate \<Rightarrow> bool" where
  "calm h \<longleftrightarrow> 0 \<le> noff (me h) \<and> (if noff (me h) = 0 then intena (me h) = sie h else \<not> sie h)"

lemmas hw_defs = set_sstatus_def set_mycpu_def set_lock_def irq_on_def irq_off_def

lemma tp_upd [simp]:
  "tp (set_sstatus x h) = tp h" "tp (set_mycpu f h) = tp h" "tp (set_lock lk g h) = tp h"
  "tp (irq_on h) = tp h" "tp (irq_off h) = tp h" "tp (pushed h) = tp h" "tp (popped h) = tp h"
  "tp (enter lk h) = tp h" "tp (leave lk h) = tp h"
  by (simp_all add: hw_defs pushed_def popped_def enter_def leave_def Let_def)

lemma locks_upd [simp]:
  "locks (set_sstatus x h) = locks h" "locks (set_mycpu f h) = locks h"
  "locks (irq_on h) = locks h" "locks (irq_off h) = locks h" "locks (pushed h) = locks h"
  "locks (popped h) = locks h"
  "locks (set_lock lk g h) = (locks h)(lk := g (locks h lk))"
  by (simp_all add: hw_defs pushed_def popped_def Let_def)

lemma sie_upd [simp]:
  "sie (set_mycpu f h) = sie h" "sie (set_lock lk g h) = sie h" "\<not> sie (irq_off h)" "sie (irq_on h)"
  using sie_clear sie_set by (simp_all add: sie_def hw_defs)

lemma cpus_upd [simp]:
  "cpus (set_sstatus x h) = cpus h" "cpus (set_lock lk g h) = cpus h"
  "cpus (irq_on h) = cpus h" "cpus (irq_off h) = cpus h"
  "cpus (set_mycpu f h) = (cpus h)(tp h := f (me h))"
  by (simp_all add: hw_defs)

lemma sie_pushed [simp]: "\<not> sie (pushed h)"
  by (simp add: pushed_def)

lemma noff_pushed [simp]: "noff (cpus (pushed h) (tp h)) = noff (me h) + 1"
  by (simp add: pushed_def)

lemma csr_upd [simp]:
  "csr (set_mycpu f h) = csr h" "csr (set_lock lk g h) = csr h"
  by (simp_all add: hw_defs)

lemma irq_on_off: "sie h \<Longrightarrow> irq_on (irq_off h) = h"
  by (simp add: sie_def hw_defs sie_off_on)

lemma irq_off_off: "\<not> sie h \<Longrightarrow> irq_off h = h"
  by (simp add: sie_def hw_defs sie_off_off)

lemma irq_on_set_mycpu: "irq_on (set_mycpu f h) = set_mycpu f (irq_on h)"
  by (simp add: hw_defs)

lemma irq_on_set_lock: "irq_on (set_lock lk f h) = set_lock lk f (irq_on h)"
  by (simp add: hw_defs)

lemma set_mycpu_comp [simp]: "set_mycpu f (set_mycpu g h) = set_mycpu (\<lambda>c. f (g c)) h"
  by (simp add: hw_defs)

lemma set_lock_comp [simp]: "set_lock lk f (set_lock lk g h) = set_lock lk (\<lambda>l. f (g l)) h"
  by (simp add: hw_defs)

lemma set_lock_id: "f (locks h lk) = locks h lk \<Longrightarrow> set_lock lk f h = h"
  by (simp add: hw_defs)

lemma set_mycpu_id: "f (me h) = me h \<Longrightarrow> set_mycpu f h = h"
  by (simp add: hw_defs)

lemma set_lock_set_mycpu: "set_lock lk f (set_mycpu g h) = set_mycpu g (set_lock lk f h)"
  by (simp add: hw_defs)

lemma popped_set_lock: "popped (set_lock lk f h) = set_lock lk f (popped h)"
  by (simp add: popped_def Let_def set_lock_set_mycpu [symmetric] irq_on_set_lock)

lemma pushed_set_lock: "pushed (set_lock lk f h) = set_lock lk f (pushed h)"
  by (simp add: pushed_def irq_off_def set_sstatus_def set_lock_def set_mycpu_def sie_def)

lemma set_lock_swap:
  "lk \<noteq> lk' \<Longrightarrow> set_lock lk f (set_lock lk' g h) = set_lock lk' g (set_lock lk f h)"
  by (simp add: set_lock_def fun_upd_twist)

text \<open>\<^verbatim>\<open>pop_off\<close> undoes \<^verbatim>\<open>push_off\<close>.\<close>

lemma popped_pushed: "calm h \<Longrightarrow> popped (pushed h) = h"
proof -
  assume c: "calm h"
  let ?g = "\<lambda>c :: cpu. c\<lparr>intena := (if noff c = 0 then sie h else intena c)\<rparr>"
  have *: "set_mycpu (\<lambda>c. c\<lparr>noff := noff c - 1\<rparr>) (pushed h) = set_mycpu ?g (irq_off h)"
    by (simp add: pushed_def)
  have id: "set_mycpu ?g h' = h'" if "me h' = me h" for h'
    using c that by (intro set_mycpu_id) (auto simp: calm_def)
  have "set_mycpu ?g (irq_off h) = irq_off h" by (rule id) simp
  then have **: "popped (pushed h) =
      (if noff (me h) = 0 \<and> intena (me h) then irq_on (irq_off h) else irq_off h)"
    unfolding popped_def * by (simp add: Let_def)
  show ?thesis
    using c unfolding ** by (auto simp: calm_def irq_on_off irq_off_off split: if_splits)
qed

theorem leave_enter: "calm h \<Longrightarrow> lock_free lk h \<Longrightarrow> leave lk (enter lk h) = h"
  by (simp add: leave_def enter_def popped_set_lock popped_pushed set_lock_id lock_free_def)

lemma calm_enter [simp]: "calm h \<Longrightarrow> calm (enter lk h)"
  by (auto simp: calm_def enter_def)

lemma sie_enter: "\<not> sie (enter lk h)"
  by (simp add: enter_def)

lemma noff_enter: "noff (cpus (enter lk h) (tp h)) = noff (me h) + 1"
  by (simp add: enter_def)

lemma held_enter [simp]: "held lk (enter lk h)"
  by (simp add: held_def enter_def)

lemma lock_free_enter [simp]: "lk \<noteq> lk' \<Longrightarrow> lock_free lk (enter lk' h) = lock_free lk h"
  by (simp add: lock_free_def enter_def)

lemma not_free_enter [simp]: "\<not> lock_free lk (enter lk h)"
  by (simp add: lock_free_def enter_def)

lemma held_other_enter [simp]: "lk \<noteq> lk' \<Longrightarrow> held lk (enter lk' h) = held lk h"
  by (simp add: held_def enter_def)

section \<open>Running the lock operations\<close>

lemma intr_get_run [kapply]: "intr_get w s = Ret (sie (hw s)) s w"
  by (simp add: intr_get_def r_sstatus_def kapply sie_def)

lemma intr_off_run [kapply]: "intr_off w s = Ret () (s\<lparr>hw := irq_off (hw s)\<rparr>) w"
  by (simp add: intr_off_def r_sstatus_def w_sstatus_def kapply irq_off_def)

lemma intr_on_run [kapply]: "intr_on w s = Ret () (s\<lparr>hw := irq_on (hw s)\<rparr>) w"
  by (simp add: intr_on_def r_sstatus_def w_sstatus_def kapply irq_on_def)

lemma cpuid_run [kapply]: "cpuid w s = Ret (tp (hw s)) s w"
  by (simp add: cpuid_def kapply)

lemma mycpu_run [kapply]: "mycpu w s = Ret (me (hw s)) s w"
  by (simp add: mycpu_def kapply)

lemma upd_mycpu_run [kapply]: "upd_mycpu f w s = Ret () (s\<lparr>hw := set_mycpu f (hw s)\<rparr>) w"
  by (simp add: upd_mycpu_def kapply)

lemma upd_lock_run [kapply]: "upd_lock lk f w s = Ret () (s\<lparr>hw := set_lock lk f (hw s)\<rparr>) w"
  by (simp add: upd_lock_def kapply)

lemma holding_run [kapply]: "holding lk w s = Ret (held lk (hw s)) s w"
  by (simp add: holding_def kapply held_def)

lemma push_off_run [kapply]: "push_off w s = Ret () (s\<lparr>hw := pushed (hw s)\<rparr>) w"
  by (simp add: push_off_def kapply pushed_def)

lemma pop_off_run [kapply]:
  "pop_off w s =
     (if sie (hw s) then Panic ''pop_off - interruptible''
      else if noff (me (hw s)) < 1 then Panic ''pop_off''
      else Ret () (s\<lparr>hw := popped (hw s)\<rparr>) w)"
  by (simp add: pop_off_def kapply popped_def Let_def)

lemma spin_free:
  "locked (locks (hw s) lk) = 0 \<Longrightarrow>
   spin lk w s = Ret () (s\<lparr>hw := set_lock lk (\<lambda>l. l\<lparr>locked := 1\<rparr>) (hw s)\<rparr>) w"
  by (simp add: spin.simps Let_def)

lemma acquire_free:
  "lock_free lk (hw s) \<Longrightarrow> acquire lk w s = Ret () (s\<lparr>hw := enter lk (hw s)\<rparr>) w"
  by (simp add: acquire_def kapply held_def lock_free_def spin_free enter_def)

lemma release_held:
  "held lk (hw s) \<Longrightarrow> \<not> sie (hw s) \<Longrightarrow> 1 \<le> noff (me (hw s)) \<Longrightarrow>
   release lk w s = Ret () (s\<lparr>hw := leave lk (hw s)\<rparr>) w"
  by (simp add: release_def kapply leave_def)

lemma release_enter:
  "hw t = enter lk h \<Longrightarrow> calm h \<Longrightarrow> lock_free lk h \<Longrightarrow> release lk w t = Ret () (t\<lparr>hw := h\<rparr>) w"
  by (subst release_held) (simp_all add: leave_enter sie_enter noff_enter calm_def)

text \<open>
  \<^verbatim>\<open>sleep()\<close> drops its lock while it holds a second one, so locks are not always released in the
  order opposite to their acquisition.
\<close>

lemma leave_under:
  assumes "calm h" "lock_free lk h" "lk \<noteq> lk'"
  shows "leave lk (enter lk' (enter lk h)) = enter lk' h"
proof -
  let ?free = "\<lambda>l :: spinlock. l\<lparr>locked := 1, lcpu := Some (tp h), lcpu := None, locked := 0\<rparr>"
  let ?take = "\<lambda>l :: spinlock. l\<lparr>locked := 1, lcpu := Some (tp h)\<rparr>"
  have "leave lk (enter lk' (enter lk h)) = popped (set_lock lk' ?take (set_lock lk ?free (pushed (pushed h))))"
    using assms(3) by (simp add: leave_def enter_def pushed_set_lock set_lock_swap [of lk lk'])
  also have "set_lock lk ?free (pushed (pushed h)) = pushed (pushed h)"
    by (rule set_lock_id) (use assms(2) in \<open>simp add: lock_free_def\<close>)
  also have "popped (set_lock lk' ?take (pushed (pushed h))) = set_lock lk' ?take (pushed h)"
    using assms(1) by (simp add: popped_set_lock popped_pushed calm_def)
  finally show ?thesis by (simp add: enter_def)
qed

section \<open>Many harts\<close>

text \<open>
  A step is one hart running one lock operation to its end: \<^verbatim>\<open>acquire\<close> when its test-and-set
  succeeds, a test-and-set that fails, \<^verbatim>\<open>release\<close>, a free-standing \<^verbatim>\<open>push_off\<close>, the \<^verbatim>\<open>pop_off\<close> that
  closes one, and, outside all of them, the \<^verbatim>\<open>intr_on\<close> and \<^verbatim>\<open>intr_off\<close> of the scheduler and of the
  trap code. Beside the kernel's state a step carries the locks that each hart is inside of: those
  whose \<^verbatim>\<open>acquire\<close> has returned on the hart and whose \<^verbatim>\<open>release\<close> has not, whatever the fields of the
  locks say.
\<close>

definition on_hart :: "nat \<Rightarrow> kernel \<Rightarrow> kernel" where
  "on_hart i s = s\<lparr>hw := (hw s)\<lparr>tp := i\<rparr>\<rparr>"

definition held_by :: "nat \<Rightarrow> hwstate \<Rightarrow> lockid set" where
  "held_by i h = {lk. locked (locks h lk) \<noteq> 0 \<and> lcpu (locks h lk) = Some i}"

definition sie_at :: "nat \<Rightarrow> hwstate \<Rightarrow> bool" where
  "sie_at i h \<longleftrightarrow> sstatus (csr h i) AND SSTATUS_SIE \<noteq> 0"

type_synonym inside = "nat \<Rightarrow> lockid set"

inductive hart_step :: "inside \<times> kernel \<Rightarrow> inside \<times> kernel \<Rightarrow> bool" where
  hart_acquire: "acquire lk [] (on_hart i s) = Ret () t [] \<Longrightarrow>
    hart_step (I, s) (I(i := insert lk (I i)), t)"
| hart_spin: "spin lk [] (on_hart i s) = Blocked t \<Longrightarrow> hart_step (I, s) (I, t)"
| hart_release: "release lk [] (on_hart i s) = Ret () t [] \<Longrightarrow>
    hart_step (I, s) (I(i := I i - {lk}), t)"
| hart_push: "push_off [] (on_hart i s) = Ret () t [] \<Longrightarrow> hart_step (I, s) (I, t)"
| hart_pop: "int (card (I i)) < noff (cpus (hw s) i) \<Longrightarrow>
    pop_off [] (on_hart i s) = Ret () t [] \<Longrightarrow> hart_step (I, s) (I, t)"
| hart_on: "noff (cpus (hw s) i) = 0 \<Longrightarrow> intr_on [] (on_hart i s) = Ret () t [] \<Longrightarrow> hart_step (I, s) (I, t)"
| hart_off: "noff (cpus (hw s) i) = 0 \<Longrightarrow> intr_off [] (on_hart i s) = Ret () t [] \<Longrightarrow> hart_step (I, s) (I, t)"

definition booted :: "kernel \<Rightarrow> bool" where
  "booted s \<longleftrightarrow> (\<forall>lk. lock_free lk (hw s)) \<and> (\<forall>i. noff (cpus (hw s) i) = 0)"

definition hart_inv :: "kernel \<Rightarrow> bool" where
  "hart_inv s \<longleftrightarrow>
     (\<forall>i. finite (held_by i (hw s)) \<and> int (card (held_by i (hw s))) \<le> noff (cpus (hw s) i)) \<and>
     (\<forall>i. 0 < noff (cpus (hw s) i) \<longrightarrow> \<not> sie_at i (hw s)) \<and>
     (\<forall>lk. locked (locks (hw s) lk) \<noteq> 0 \<longleftrightarrow> lcpu (locks (hw s) lk) \<noteq> None)"

definition inside_start :: "inside \<times> kernel \<Rightarrow> bool" where
  "inside_start c \<longleftrightarrow> fst c = (\<lambda>i. {}) \<and> booted (snd c)"

definition inside_inv :: "inside \<times> kernel \<Rightarrow> bool" where
  "inside_inv c \<longleftrightarrow> hart_inv (snd c) \<and> (\<forall>i. fst c i = held_by i (hw (snd c)))"

lemma hw_on_hart [simp]: "hw (on_hart i s) = (hw s)\<lparr>tp := i\<rparr>"
  by (simp add: on_hart_def)

lemma held_by_set_lock:
  "held_by i (set_lock lk f h) =
     (if locked (f (locks h lk)) \<noteq> 0 \<and> lcpu (f (locks h lk)) = Some i
      then insert lk (held_by i h) else held_by i h - {lk})"
  by (auto simp: held_by_def)

lemma held_by_pushed [simp]: "held_by i (pushed h) = held_by i h"
  by (simp add: held_by_def)

lemma held_by_popped [simp]: "held_by i (popped h) = held_by i h"
  by (simp add: held_by_def)

lemma held_by_tp [simp]: "held_by i (h\<lparr>tp := j\<rparr>) = held_by i h"
  by (simp add: held_by_def)

lemma sie_at_upd [simp]:
  "sie_at i (set_lock lk f h) = sie_at i h" "sie_at i (h\<lparr>tp := j\<rparr>) = sie_at i h"
  "sie_at i (set_mycpu g h) = sie_at i h"
  by (simp_all add: sie_at_def set_lock_def set_mycpu_def)

lemma sie_at_irq_off: "sie_at i (irq_off h) \<longleftrightarrow> i \<noteq> tp h \<and> sie_at i h"
  using sie_clear by (auto simp: sie_at_def irq_off_def set_sstatus_def)

lemma sie_at_irq_on: "sie_at i (irq_on h) \<longleftrightarrow> i = tp h \<or> sie_at i h"
  using sie_set by (auto simp: sie_at_def irq_on_def set_sstatus_def)

lemma sie_at_pushed: "sie_at i (pushed h) \<longleftrightarrow> i \<noteq> tp h \<and> sie_at i h"
  by (simp add: pushed_def sie_at_irq_off)

lemma sie_at_popped: "sie_at i (popped h) \<Longrightarrow> sie_at i h \<or> i = tp h \<and> noff (me h) = 1"
  by (auto simp: popped_def Let_def sie_at_irq_on split: if_splits)

lemma noff_pushed_at: "noff (cpus (pushed h) i) = noff (cpus h i) + (if i = tp h then 1 else 0)"
  by (simp add: pushed_def)

lemma noff_popped_at: "noff (cpus (popped h) i) = noff (cpus h i) - (if i = tp h then 1 else 0)"
  by (simp add: popped_def Let_def)

lemma acquire_RetD:
  assumes "acquire lk [] s = Ret () t []"
  shows "locked (locks (hw s) lk) = 0 \<and> t = s\<lparr>hw := enter lk (hw s)\<rparr>"
  using assms by (auto simp: acquire_def kapply spin.simps Let_def enter_def split: if_splits)

lemma release_RetD:
  assumes "release lk [] s = Ret () t []"
  shows "held lk (hw s) \<and> \<not> sie (hw s) \<and> 1 \<le> noff (me (hw s)) \<and> t = s\<lparr>hw := leave lk (hw s)\<rparr>"
  using assms by (auto simp: release_def kapply leave_def split: if_splits)

lemma spin_BlockedD:
  assumes "spin lk [] s = Blocked t"
  shows "locked (locks (hw s) lk) \<noteq> 0 \<and> t = s\<lparr>hw := set_lock lk (\<lambda>l. l\<lparr>locked := 1\<rparr>) (hw s)\<rparr>"
  using assms by (auto simp: spin.simps Let_def split: if_splits)

lemma hart_inv_start: "booted s \<Longrightarrow> hart_inv s"
  by (auto simp: booted_def hart_inv_def lock_free_def held_by_def)

lemma held_by_enter:
  "locked (locks h lk) = 0 \<Longrightarrow>
   held_by j (enter lk h) = (if j = tp h then insert lk (held_by j h) else held_by j h)"
  by (auto simp: enter_def held_by_set_lock held_by_def)

lemma held_by_leave:
  "held lk h \<Longrightarrow> held_by j (leave lk h) = (if j = tp h then held_by j h - {lk} else held_by j h)"
  by (auto simp: leave_def held_by_set_lock held_by_def held_def)

lemma held_by_relock:
  "locked (locks h lk) \<noteq> 0 \<Longrightarrow> held_by j (set_lock lk (\<lambda>l. l\<lparr>locked := 1\<rparr>) h) = held_by j h"
  by (auto simp: held_by_def)

lemma hart_inv_relock:
  assumes "hart_inv s" "locked (locks (hw s) lk) \<noteq> 0"
  shows "hart_inv (s\<lparr>hw := set_lock lk (\<lambda>l. l\<lparr>locked := 1\<rparr>) ((hw s)\<lparr>tp := i\<rparr>)\<rparr>)"
  using assms by (auto simp: hart_inv_def held_by_relock)

lemma hart_inv_enter:
  assumes inv: "hart_inv s" and free: "locked (locks (hw s) lk) = 0"
  shows "hart_inv (s\<lparr>hw := enter lk ((hw s)\<lparr>tp := i\<rparr>)\<rparr>)"
proof -
  have "lk \<notin> held_by j (hw s)" for j using free by (simp add: held_by_def)
  with inv show ?thesis
    unfolding hart_inv_def enter_def
    by (auto simp: held_by_set_lock sie_at_pushed noff_pushed_at)
qed

lemma hart_inv_leave:
  assumes inv: "hart_inv s" and held: "held lk ((hw s)\<lparr>tp := i\<rparr>)"
  shows "hart_inv (s\<lparr>hw := leave lk ((hw s)\<lparr>tp := i\<rparr>)\<rparr>)"
proof -
  have mem: "lk \<in> held_by i (hw s)" using held by (simp add: held_def held_by_def)
  have other: "lk \<notin> held_by j (hw s)" if "j \<noteq> i" for j
    using held that by (simp add: held_def held_by_def)
  have fin: "finite (held_by j (hw s))" for j using inv by (simp add: hart_inv_def)
  have card: "int (card (held_by i (hw s) - {lk})) = int (card (held_by i (hw s))) - 1"
    using mem fin [of i] by (simp add: card_Diff_singleton card_gt_0_iff Suc_leI of_nat_diff)
      (metis card_gt_0_iff empty_iff One_nat_def Suc_leI of_nat_1 of_nat_diff)
  have "int (card (held_by i (hw s))) \<le> noff (cpus (hw s) i)" using inv by (simp add: hart_inv_def)
  then have "int (card (held_by i (hw s))) - 1 < noff (cpus (hw s) i)" by simp
  then show ?thesis
    using inv card other unfolding hart_inv_def leave_def
    by (auto simp: held_by_set_lock noff_popped_at fin dest!: sie_at_popped)
qed

lemma hart_inv_irq_on:
  assumes "hart_inv s" "noff (cpus (hw s) i) = 0"
  shows "hart_inv (s\<lparr>hw := irq_on ((hw s)\<lparr>tp := i\<rparr>)\<rparr>)"
  using assms by (auto simp: hart_inv_def held_by_def sie_at_irq_on)

lemma hart_inv_irq_off:
  assumes "hart_inv s"
  shows "hart_inv (s\<lparr>hw := irq_off ((hw s)\<lparr>tp := i\<rparr>)\<rparr>)"
  using assms by (auto simp: hart_inv_def held_by_def sie_at_irq_off)

lemma hart_inv_pushed:
  assumes "hart_inv s"
  shows "hart_inv (s\<lparr>hw := pushed ((hw s)\<lparr>tp := i\<rparr>)\<rparr>)"
proof -
  have "int (card (held_by i (hw s))) \<le> noff (cpus (hw s) i)" using assms by (simp add: hart_inv_def)
  then have "int (card (held_by i (hw s))) \<le> noff (cpus (hw s) i) + 1" by simp
  with assms show ?thesis by (auto simp: hart_inv_def sie_at_pushed noff_pushed_at)
qed

lemma hart_inv_popped:
  assumes inv: "hart_inv s" and more: "int (card (held_by i (hw s))) < noff (cpus (hw s) i)"
  shows "hart_inv (s\<lparr>hw := popped ((hw s)\<lparr>tp := i\<rparr>)\<rparr>)"
  using assms by (auto simp: hart_inv_def noff_popped_at dest!: sie_at_popped)

lemma on_hart_hw: "(on_hart i s)\<lparr>hw := h\<rparr> = s\<lparr>hw := h\<rparr>"
  by (simp add: on_hart_def)

lemma held_by_irq [simp]: "held_by i (irq_on h) = held_by i h" "held_by i (irq_off h) = held_by i h"
  by (simp_all add: held_by_def)

lemma inside_inv_step:
  assumes "inside_inv c" and "hart_step c d"
  shows "inside_inv d"
  using assms(2,1)
proof (cases rule: hart_step.cases)
  case (hart_acquire lk i s t I)
  then show ?thesis
    using assms(1) unfolding inside_inv_def
    by (auto dest!: acquire_RetD simp: on_hart_hw held_by_enter intro: hart_inv_enter)
next
  case (hart_spin lk i s t I)
  then show ?thesis
    using assms(1) unfolding inside_inv_def
    by (auto dest!: spin_BlockedD simp: on_hart_hw held_by_relock intro: hart_inv_relock)
next
  case (hart_release lk i s t I)
  then show ?thesis
    using assms(1) unfolding inside_inv_def
    by (auto dest!: release_RetD simp: on_hart_hw held_by_leave intro: hart_inv_leave)
qed (use assms(1) in \<open>auto simp: inside_inv_def kapply on_hart_hw split: if_splits
      intro: hart_inv_irq_on hart_inv_irq_off hart_inv_pushed hart_inv_popped\<close>)

lemma inside_inv_start: "inside_start c \<Longrightarrow> inside_inv c"
  by (auto simp: inside_start_def inside_inv_def booted_def lock_free_def held_by_def intro!: hart_inv_start)

interpretation harts: step_system inside_start hart_step inside_inv
  by unfold_locales (blast intro: inside_inv_start inside_inv_step)+

section \<open>Properties\<close>

text \<open>
  C1. Harts run lock operations in any order from boot. A hart is inside a lock from the return of its
  \<^verbatim>\<open>acquire\<close> to its \<^verbatim>\<open>release\<close>. In every state they reach, no two harts are inside the same lock, and
  the locks a hart is inside of are those that name it as their holder. A hart inside a lock has device
  interrupts disabled, so that no interrupt handler on that hart can spin on a lock its own hart holds;
  the nesting depth is at least the number of locks held; and a hart that is at depth 1 and inside \<open>lk\<close>
  is inside no other lock, which is what \<^verbatim>\<open>sched()\<close> tests.
\<close>

theorem spinlock_discipline:
  assumes "booted s" and "hart_step\<^sup>*\<^sup>* (\<lambda>i. {}, s) (I, t)"
  shows "(i \<noteq> j \<longrightarrow> I i \<inter> I j = {}) \<and>
         I i = held_by i (hw t) \<and>
         (I i \<noteq> {} \<longrightarrow> \<not> sie_at i (hw t)) \<and>
         int (card (I i)) \<le> noff (cpus (hw t) i) \<and>
         (noff (cpus (hw t) i) = 1 \<and> lk \<in> I i \<longrightarrow> I i = {lk})"
proof -
  have "inside_inv (I, t)"
    by (rule harts.inv_reachable [OF _ assms(2)]) (use assms(1) in \<open>simp add: inside_start_def\<close>)
  then have inv: "hart_inv t" and own: "\<And>k. I k = held_by k (hw t)" by (simp_all add: inside_inv_def)
  then have fin: "finite (I i)" and card: "int (card (I i)) \<le> noff (cpus (hw t) i)"
    by (auto simp: hart_inv_def)
  have "0 < noff (cpus (hw t) i)" if "I i \<noteq> {}"
    using that fin card by (metis card_gt_0_iff of_nat_0_less_iff order_less_le_trans)
  then have "I i \<noteq> {} \<longrightarrow> \<not> sie_at i (hw t)" using inv by (auto simp: hart_inv_def)
  moreover have "I i = {lk}" if "noff (cpus (hw t) i) = 1" "lk \<in> I i"
  proof -
    have "card (I i) \<le> card {lk}" using that card by simp
    with that(2) fin show ?thesis by (metis card_seteq empty_subsetI insert_subset)
  qed
  moreover have "i \<noteq> j \<longrightarrow> I i \<inter> I j = {}" by (auto simp: own held_by_def)
  ultimately show ?thesis using card own by blast
qed

lemma booted_kernel0: "booted kernel0"
  by (simp add: booted_def lock_free_def kernel0_def bss_def hw0_def cpu0_def spinlock0_def)

lemma calm_kernel0: "calm (hw kernel0)"
  by (simp add: calm_def sie_def kernel0_def bss_def hw0_def cpu0_def)

lemma free_kernel0: "lock_free lk (hw kernel0)"
  using booted_kernel0 by (simp add: booted_def)

lemma hart_step_free:
  assumes "lock_free lk (hw s)"
  obtains t where "hart_step (I, s) (I(i := insert lk (I i)), t)"
    "\<And>lk'. lk' \<noteq> lk \<Longrightarrow> lock_free lk' (hw t) = lock_free lk' (hw s)"
proof -
  let ?h = "enter lk (hw (on_hart i s))"
  have f: "lock_free lk (hw (on_hart i s))" using assms by (simp add: lock_free_def)
  have "hart_step (I, s) (I(i := insert lk (I i)), (on_hart i s)\<lparr>hw := ?h\<rparr>)"
    by (rule hart_step.hart_acquire [OF acquire_free [OF f]])
  moreover have "lock_free lk' ((hw s)\<lparr>tp := i\<rparr>) = lock_free lk' (hw s)" for lk' by (simp add: lock_free_def)
  ultimately show thesis using that by simp
qed

theorem spinlock_discipline_witness:
  "\<exists>I t. hart_step\<^sup>*\<^sup>* (\<lambda>i. {}, kernel0) (I, t) \<and> KmemLock \<in> I 0 \<and> FtableLock \<in> I 1 \<and>
     KmemLock \<notin> I 1 \<and> \<not> sie_at 0 (hw t) \<and> \<not> sie_at 1 (hw t)"
proof -
  define I :: inside where "I = (\<lambda>i. {})(0 := insert KmemLock {})"
  define J where "J = I(1 := insert FtableLock (I 1))"
  obtain s where s: "hart_step (\<lambda>i. {}, kernel0) (I, s)" "lock_free FtableLock (hw s)"
  proof (rule hart_step_free [OF free_kernel0])
    fix s
    assume st: "hart_step (\<lambda>i. {}, kernel0) ((\<lambda>i. {})(0 := insert KmemLock {}), s)"
      and fr: "\<And>lk'. lk' \<noteq> KmemLock \<Longrightarrow> lock_free lk' (hw s) = lock_free lk' (hw kernel0)"
    have "lock_free FtableLock (hw s)" using fr [of FtableLock] free_kernel0 by simp
    with st show thesis unfolding I_def by (rule that [unfolded I_def])
  qed
  obtain t where t: "hart_step (I, s) (J, t)" using hart_step_free [OF s(2)] unfolding J_def by blast
  have st: "hart_step\<^sup>*\<^sup>* (\<lambda>i. {}, kernel0) (J, t)" using s(1) t by (meson r_into_rtranclp rtranclp.rtrancl_into_rtrancl)
  have in0: "KmemLock \<in> J 0" and in1: "FtableLock \<in> J 1" by (simp_all add: I_def J_def)
  have "KmemLock \<notin> J 1" "\<not> sie_at 0 (hw t)" "\<not> sie_at 1 (hw t)"
    using spinlock_discipline [OF booted_kernel0 st, of 0 1] spinlock_discipline [OF booted_kernel0 st, of 1 0] in0 in1
    by blast+
  with st in0 in1 show ?thesis by blast
qed

text \<open>
  C4. \<^verbatim>\<open>acquire\<close> followed by \<^verbatim>\<open>release\<close> of a free lock leaves the machine as it was: interrupts,
  nesting depth, saved flag and all locks. Inside, the lock is held and interrupts are off. Taking
  a lock the hart already holds, and dropping one it does not hold, panics. A lock that another
  hart holds is never obtained as long as that hart does nothing.
\<close>

theorem acquire_release:
  assumes "calm (hw s)"
  shows "(lock_free lk (hw s) \<longrightarrow>
            (\<exists>t. acquire lk w s = Ret () t w \<and> held lk (hw t) \<and> \<not> sie (hw t) \<and>
                 release lk w t = Ret () s w)) \<and>
         (held lk (hw s) \<longrightarrow> acquire lk w s = Panic ''acquire'') \<and>
         (\<not> held lk (hw s) \<longrightarrow> release lk w s = Panic ''release'') \<and>
         (locked (locks (hw s) lk) \<noteq> 0 \<and> lcpu (locks (hw s) lk) \<noteq> Some (tp (hw s)) \<longrightarrow>
            (\<exists>t. acquire lk [] s = Blocked t))"
proof (intro conjI)
  show "lock_free lk (hw s) \<longrightarrow>
      (\<exists>t. acquire lk w s = Ret () t w \<and> held lk (hw t) \<and> \<not> sie (hw t) \<and> release lk w t = Ret () s w)"
    using assms by (auto simp: acquire_free sie_enter release_enter)
  show "held lk (hw s) \<longrightarrow> acquire lk w s = Panic ''acquire''"
    by (simp add: acquire_def kapply held_def)
  show "\<not> held lk (hw s) \<longrightarrow> release lk w s = Panic ''release''"
    by (simp add: release_def kapply)
  show "locked (locks (hw s) lk) \<noteq> 0 \<and> lcpu (locks (hw s) lk) \<noteq> Some (tp (hw s)) \<longrightarrow>
      (\<exists>t. acquire lk [] s = Blocked t)"
    by (simp add: acquire_def kapply held_def spin.simps Let_def)
qed

theorem acquire_release_witness:
  "\<exists>t. acquire KmemLock [] kernel0 = Ret () t [] \<and> release KmemLock [] t = Ret () kernel0 []"
  using acquire_release [OF calm_kernel0, of KmemLock "[]"] free_kernel0 by blast

end
