(* ===== verification/Strings.thy ===== *)
theory Strings
  imports Memory
begin

text \<open>
  \<^verbatim>\<open>kernel/string.c\<close>: the memory and string routines of the kernel, one definition per loop, on
  byte memory. The results relate each loop to \<^const>\<open>readbytes\<close> and \<^const>\<open>writebytes\<close>:
  \<^verbatim>\<open>memmove\<close> copies the old contents of the source whatever the overlap, and the string copies
  write within the size they are given.
\<close>

section \<open>The routines\<close>

definition memset :: "memory \<Rightarrow> addr \<Rightarrow> uint \<Rightarrow> uint \<Rightarrow> memory" where
  "memset m dst c n = fold (\<lambda>i m. m(dst + of_nat i := ucast c)) [0..<unat n] m"

primrec memcmp_loop :: "memory \<Rightarrow> addr \<Rightarrow> addr \<Rightarrow> nat \<Rightarrow> int" where
  "memcmp_loop m s1 s2 0 = 0"
| "memcmp_loop m s1 s2 (Suc n) =
     (if m s1 \<noteq> m s2 then uint (m s1) - uint (m s2)
      else memcmp_loop m (s1 + 1) (s2 + 1) n)"

definition memcmp :: "memory \<Rightarrow> addr \<Rightarrow> addr \<Rightarrow> uint \<Rightarrow> int" where
  "memcmp m v1 v2 n = memcmp_loop m v1 v2 (unat n)"

primrec copy_up :: "memory \<Rightarrow> addr \<Rightarrow> addr \<Rightarrow> nat \<Rightarrow> memory" where
  "copy_up m d s 0 = m"
| "copy_up m d s (Suc n) = copy_up (m(d := m s)) (d + 1) (s + 1) n"

primrec copy_down :: "memory \<Rightarrow> addr \<Rightarrow> addr \<Rightarrow> nat \<Rightarrow> memory" where
  "copy_down m d s 0 = m"
| "copy_down m d s (Suc n) = copy_down (m(d - 1 := m (s - 1))) (d - 1) (s - 1) n"

definition memmove :: "memory \<Rightarrow> addr \<Rightarrow> addr \<Rightarrow> uint \<Rightarrow> memory" where
  "memmove m dst src n =
     (if src < dst \<and> src + ucast n > dst
      then copy_down m (dst + ucast n) (src + ucast n) (unat n)
      else copy_up m dst src (unat n))"

definition memcpy :: "memory \<Rightarrow> addr \<Rightarrow> addr \<Rightarrow> uint \<Rightarrow> memory" where
  "memcpy m dst src n = memmove m dst src n"

primrec strncmp_loop :: "memory \<Rightarrow> addr \<Rightarrow> addr \<Rightarrow> nat \<Rightarrow> int" where
  "strncmp_loop m p q 0 = 0"
| "strncmp_loop m p q (Suc n) =
     (if m p \<noteq> 0 \<and> m p = m q then strncmp_loop m (p + 1) (q + 1) n
      else uint (m p) - uint (m q))"

definition strncmp :: "memory \<Rightarrow> addr \<Rightarrow> addr \<Rightarrow> uint \<Rightarrow> int" where
  "strncmp m p q n = strncmp_loop m p q (unat n)"

text \<open>
  The first loop of \<^verbatim>\<open>strncpy\<close> returns the memory, the advanced destination pointer and how many
  bytes of the bound are left.
\<close>

primrec strncpy_copy :: "memory \<Rightarrow> addr \<Rightarrow> addr \<Rightarrow> nat \<Rightarrow> memory \<times> addr \<times> nat" where
  "strncpy_copy m s t 0 = (m, s, 0)"
| "strncpy_copy m s t (Suc n) =
     (let c = m t; m' = m(s := c)
      in if c \<noteq> 0 then strncpy_copy m' (s + 1) (t + 1) n else (m', s + 1, n))"

primrec zero_fill :: "memory \<Rightarrow> addr \<Rightarrow> nat \<Rightarrow> memory" where
  "zero_fill m s 0 = m"
| "zero_fill m s (Suc n) = zero_fill (m(s := 0)) (s + 1) n"

definition strncpy :: "memory \<Rightarrow> addr \<Rightarrow> addr \<Rightarrow> int \<Rightarrow> memory" where
  "strncpy m s t n =
     (case strncpy_copy m s t (nat n) of (m', s', k) \<Rightarrow> zero_fill m' s' k)"

text \<open>The loop of \<^verbatim>\<open>safestrcpy\<close> returns the memory and the advanced destination pointer.\<close>

primrec safestrcpy_copy :: "memory \<Rightarrow> addr \<Rightarrow> addr \<Rightarrow> nat \<Rightarrow> memory \<times> addr" where
  "safestrcpy_copy m s t 0 = (m, s)"
| "safestrcpy_copy m s t (Suc n) =
     (let c = m t; m' = m(s := c)
      in if c \<noteq> 0 then safestrcpy_copy m' (s + 1) (t + 1) n else (m', s + 1))"

definition terminate :: "memory \<times> addr \<Rightarrow> memory" where
  "terminate p = (fst p)(snd p := 0)"

definition safestrcpy :: "memory \<Rightarrow> addr \<Rightarrow> addr \<Rightarrow> int \<Rightarrow> memory" where
  "safestrcpy m s t n =
     (if n \<le> 0 then m
      else terminate (safestrcpy_copy m s t (nat (n - 1))))"

partial_function (option) strlen_loop :: "memory \<Rightarrow> addr \<Rightarrow> nat \<Rightarrow> nat option" where
  "strlen_loop m s n =
     (if m (s + of_nat n) \<noteq> 0 then strlen_loop m s (Suc n) else Some n)"

definition strlen :: "memory \<Rightarrow> addr \<Rightarrow> nat option" where
  "strlen m s = strlen_loop m s 0"

section \<open>Strings in memory\<close>

definition cstr :: "memory \<Rightarrow> addr \<Rightarrow> byte list \<Rightarrow> bool" where
  "cstr m s cs \<longleftrightarrow> readbytes m s (length cs) = cs \<and> m (s + of_nat (length cs)) = 0 \<and> 0 \<notin> set cs"

lemma cstr_Nil: "cstr m s [] \<longleftrightarrow> m s = 0"
  by (simp add: cstr_def)

lemma cstr_Cons: "cstr m s (c # cs) \<longleftrightarrow> m s = c \<and> c \<noteq> 0 \<and> cstr m (s + 1) cs"
  by (auto simp: cstr_def readbytes_Suc add.assoc)

lemma cstr_nth: "cstr m s cs \<Longrightarrow> i < length cs \<Longrightarrow> m (s + of_nat i) = cs ! i"
  unfolding cstr_def by (metis nth_readbytes)

lemma cstr_unique: "cstr m s cs \<Longrightarrow> cstr m s ds \<Longrightarrow> cs = ds"
proof (induction cs arbitrary: s ds)
  case Nil
  then show ?case by (cases ds) (auto simp: cstr_Nil cstr_Cons)
next
  case (Cons c cs)
  then show ?case by (cases ds) (auto simp: cstr_Nil cstr_Cons)
qed

section \<open>Block operations\<close>

lemma fold_set_bytes:
  "n \<le> 2 ^ 64 \<Longrightarrow>
   fold (\<lambda>i m. m(dst + of_nat i := c)) [0..<n] m = writebytes m dst (replicate n c)"
proof (induction n)
  case 0
  then show ?case by simp
next
  case (Suc n)
  show ?case
  proof (rule ext)
    fix x
    have "x = dst + of_nat n \<longleftrightarrow> unat (x - dst) = n"
    proof
      assume "unat (x - dst) = n"
      then have "x - dst = of_nat n" by auto
      then show "x = dst + of_nat n" by (simp add: algebra_simps)
    qed (use Suc.prems in \<open>simp add: unat_of_nat64\<close>)
    then show "fold (\<lambda>i m. m(dst + of_nat i := c)) [0..<Suc n] m x =
        writebytes m dst (replicate (Suc n) c) x"
      using Suc.prems by (auto simp: Suc.IH writebytes_def less_Suc_eq simp del: replicate_Suc)
  qed
qed

lemma memset_eq: "memset m dst c n = writebytes m dst (replicate (unat n) (ucast c))"
proof -
  have "unat n \<le> 2 ^ 64" using unat_32_bound [of n] by simp
  then show ?thesis by (simp add: memset_def fold_set_bytes)
qed

lemma memcmp_loop_eq_0: "memcmp_loop m p q n = 0 \<longleftrightarrow> readbytes m p n = readbytes m q n"
  by (induction n arbitrary: p q) (auto simp: readbytes_Suc word_uint_eq_iff)

lemma copy_up_eq:
  assumes "n \<le> 2 ^ 64" and "\<And>i j. j < i \<Longrightarrow> i < n \<Longrightarrow> s + of_nat i \<noteq> d + of_nat j"
  shows "copy_up m d s n = writebytes m d (readbytes m s n)"
  using assms
proof (induction n arbitrary: m d s)
  case 0
  then show ?case by simp
next
  case (Suc n)
  let ?m = "m(d := m s)"
  have sep: "s + 1 + of_nat i \<noteq> d + 1 + of_nat j" if "j < i" "i < n" for i j
    using Suc.prems(2) [of "Suc j" "Suc i"] that by (simp add: algebra_simps)
  have keep: "?m (s + 1 + of_nat i) = m (s + 1 + of_nat i)" if "i < n" for i
    using Suc.prems(2) [of 0 "Suc i"] that by (simp add: algebra_simps)
  have "copy_up m d s (Suc n) = writebytes ?m (d + 1) (readbytes ?m (s + 1) n)"
    unfolding copy_up.simps by (rule Suc.IH) (use Suc.prems(1) sep in auto)
  also have "readbytes ?m (s + 1) n = readbytes m (s + 1) n"
    using keep by (intro nth_equalityI) auto
  also have "writebytes ?m (d + 1) (readbytes m (s + 1) n) = writebytes m d (readbytes m s (Suc n))"
    (is "?l = ?r")
  proof (rule ext)
    fix x
    have shift: "unat (x - d) = Suc (unat (x - (d + 1)))" if "x \<noteq> d"
      using that by (rule unat_diff_Suc)
    have wrap: "unat (d - (d + 1)) = 2 ^ 64 - 1"
      by (simp add: unsigned_minus_1_eq_mask mask_eq_exp_minus_1)
    show "?l x = ?r x"
    proof (cases "x = d")
      case True
      then show ?thesis using Suc.prems(1) wrap by (simp add: writebytes_def readbytes_Suc)
    next
      case False
      then show ?thesis by (auto simp: writebytes_def readbytes_Suc shift)
    qed
  qed
  finally show ?case .
qed

lemma copy_down_eq:
  assumes "n < 2 ^ 64"
    and "\<And>i j. i < j \<Longrightarrow> j < n \<Longrightarrow> d - 1 - of_nat i \<noteq> s - 1 - of_nat j"
  shows "copy_down m d s n = writebytes m (d - of_nat n) (readbytes m (s - of_nat n) n)"
  using assms
proof (induction n arbitrary: m d s)
  case 0
  then show ?case by simp
next
  case (Suc n)
  let ?m = "m(d - 1 := m (s - 1))"
  let ?a = "d - 1 - of_nat n" and ?b = "s - 1 - of_nat n"
  have sep: "d - 1 - 1 - of_nat i \<noteq> s - 1 - 1 - of_nat j" if "i < j" "j < n" for i j
    using Suc.prems(2) [of "Suc i" "Suc j"] that by (simp add: algebra_simps)
  have keep: "?m (?b + of_nat i) = m (?b + of_nat i)" if "i < n" for i
  proof -
    have "d - 1 - of_nat 0 \<noteq> s - 1 - of_nat (n - i)"
      using Suc.prems(2) [of 0 "n - i"] that by simp
    moreover have "s - 1 - of_nat (n - i) = ?b + of_nat i"
      using that by (simp add: of_nat_diff algebra_simps)
    ultimately show ?thesis by auto
  qed
  have "copy_down m d s (Suc n) = writebytes ?m ?a (readbytes ?m ?b n)"
    unfolding copy_down.simps by (rule Suc.IH) (use Suc.prems(1) sep in auto)
  also have "readbytes ?m ?b n = readbytes m ?b n"
    using keep by (intro nth_equalityI) auto
  also have "writebytes ?m ?a (readbytes m ?b n) = writebytes m ?a (readbytes m ?b (Suc n))"
    (is "?l = ?r")
  proof (rule ext)
    fix x
    have top: "x = d - 1 \<longleftrightarrow> unat (x - ?a) = n"
    proof
      assume "unat (x - ?a) = n"
      then have "x - ?a = of_nat n" by (rule unat_of_natD)
      then show "x = d - 1" unfolding diff_eq_eq by simp
    next
      assume "x = d - 1"
      then show "unat (x - ?a) = n" using Suc.prems(1) by (simp add: unat_of_nat64)
    qed
    have "m (?b + of_nat n) = m (s - 1)" by simp
    then show "?l x = ?r x"
      using top by (auto simp: writebytes_def readbytes_snoc nth_append less_Suc_eq)
  qed
  finally show ?case by (simp add: algebra_simps)
qed

lemma memmove_eq:
  assumes src: "unat src + unat n < 2 ^ 64" and dst: "unat dst + unat n < 2 ^ 64"
  shows "memmove m dst src n = writebytes m dst (readbytes m src (unat n))"
proof -
  let ?n = "ucast n :: addr"
  have n: "unat ?n = unat n" by transfer simp
  have at: "unat (a + of_nat i) = unat a + i" if "i < unat n" "unat a + unat n < 2 ^ 64" for a :: addr and i
    using that by (simp add: unat_word_ariths unat_of_nat64)
  have lt: "unat n < 2 ^ 64" using src by simp
  show ?thesis
  proof (cases "src < dst \<and> src + ?n > dst")
    case True
    have "dst + ?n - 1 - of_nat i \<noteq> src + ?n - 1 - of_nat j"
      if "i < j" "j < unat n" for i j
    proof
      assume "dst + ?n - 1 - of_nat i = src + ?n - 1 - of_nat j"
      then have "dst + of_nat j = src + of_nat i" by (simp add: algebra_simps)
      then have "unat (dst + of_nat j) = unat (src + of_nat i)" by (rule arg_cong)
      then have "unat dst + j = unat src + i" using that src dst by (simp add: at)
      with True that show False by (simp add: word_less_nat_alt)
    qed
    then have "copy_down m (dst + ?n) (src + ?n) (unat n) =
        writebytes m (dst + ?n - of_nat (unat n)) (readbytes m (src + ?n - of_nat (unat n)) (unat n))"
      by (rule copy_down_eq [OF lt])
    with True show ?thesis by (simp add: memmove_def)
  next
    case False
    have sep: "src + of_nat i \<noteq> dst + of_nat j" if "j < i" "i < unat n" for i j
    proof
      assume "src + of_nat i = dst + of_nat j"
      then have "unat (src + of_nat i) = unat (dst + of_nat j)" by (rule arg_cong)
      then have eq: "unat src + i = unat dst + j" using that src dst by (simp add: at)
      have "unat (src + ?n) = unat src + unat n" using src n by (simp add: unat_add_lt64)
      with eq False that show False by (simp add: word_less_nat_alt)
    qed
    have "copy_up m dst src (unat n) = writebytes m dst (readbytes m src (unat n))"
      by (rule copy_up_eq) (use lt sep in auto)
    with False show ?thesis by (auto simp: memmove_def)
  qed
qed

section \<open>String operations\<close>

lemma strlen_loop_cstr:
  "cstr m (s + of_nat k) cs \<Longrightarrow> strlen_loop m s k = Some (k + length cs)"
proof (induction cs arbitrary: k)
  case Nil
  then show ?case by (simp add: cstr_Nil strlen_loop.simps)
next
  case (Cons c cs)
  then have "strlen_loop m s (Suc k) = Some (Suc k + length cs)"
    by (intro Cons.IH) (simp add: cstr_Cons algebra_simps)
  with Cons.prems show ?case
    by (subst strlen_loop.simps) (simp add: cstr_Cons)
qed

lemma strlen_cstr: "cstr m s cs \<Longrightarrow> strlen m s = Some (length cs)"
  using strlen_loop_cstr [of m s 0 cs] by (simp add: strlen_def)

lemma strncmp_loop_eq_0:
  "cstr m p cs \<Longrightarrow> cstr m q ds \<Longrightarrow> strncmp_loop m p q n = 0 \<longleftrightarrow> take n cs = take n ds"
proof (induction n arbitrary: p q cs ds)
  case 0
  then show ?case by simp
next
  case (Suc n)
  then show ?case
    by (cases cs; cases ds) (auto simp: cstr_Nil cstr_Cons word_uint_eq_iff)
qed

text \<open>What \<^verbatim>\<open>strncpy\<close> leaves in the destination: the string, cut at the bound and padded with zeros.\<close>

definition padded :: "nat \<Rightarrow> byte list \<Rightarrow> byte list" where
  "padded n cs = take n cs @ replicate (n - length cs) 0"

lemma length_padded [simp]: "length (padded n cs) = n"
  by (simp add: padded_def)

lemma writebytes_Cons:
  assumes "length bs < 2 ^ 64"
  shows "writebytes m d (b # bs) = writebytes (m(d := b)) (d + 1) bs"
proof (rule ext)
  fix x
  have wrap: "unat (d - (d + 1)) = 2 ^ 64 - 1"
    by (simp add: unsigned_minus_1_eq_mask mask_eq_exp_minus_1)
  show "writebytes m d (b # bs) x = writebytes (m(d := b)) (d + 1) bs x"
  proof (cases "x = d")
    case True
    with assms wrap show ?thesis by (simp add: writebytes_def)
  next
    case False
    then show ?thesis by (simp add: writebytes_def unat_diff_Suc)
  qed
qed

lemma zero_fill_eq: "n \<le> 2 ^ 64 \<Longrightarrow> zero_fill m s n = writebytes m s (replicate n 0)"
  by (induction n arbitrary: m s) (simp_all add: writebytes_Cons)

lemma cstr_agree:
  assumes "cstr m t cs" and "\<And>i. i \<le> length cs \<Longrightarrow> m' (t + of_nat i) = m (t + of_nat i)"
  shows "cstr m' t cs"
proof -
  have "readbytes m' t (length cs) = readbytes m t (length cs)"
    by (rule nth_equalityI) (auto simp: assms(2))
  with assms show ?thesis by (simp add: cstr_def)
qed

text \<open>The bytes the copy loops may write, and a source string that none of them touches.\<close>

definition src_apart :: "addr \<Rightarrow> nat \<Rightarrow> addr \<Rightarrow> nat \<Rightarrow> bool" where
  "src_apart t k s n \<longleftrightarrow> (\<forall>i \<le> k. \<forall>j < n. t + of_nat i \<noteq> s + of_nat j)"

lemma src_apart_Suc:
  "src_apart t (Suc k) s (Suc n) \<Longrightarrow> src_apart (t + 1) k (s + 1) n"
  unfolding src_apart_def
proof (intro allI impI)
  fix i j assume a: "\<forall>i\<le>Suc k. \<forall>j<Suc n. t + of_nat i \<noteq> s + of_nat j" and "i \<le> k" "j < n"
  then have "t + of_nat (Suc i) \<noteq> s + of_nat (Suc j)" by blast
  then show "t + 1 + of_nat i \<noteq> s + 1 + of_nat j" by (simp add: algebra_simps)
qed

lemma src_apart_hd: "src_apart t k s (Suc n) \<Longrightarrow> i \<le> k \<Longrightarrow> t + of_nat i \<noteq> s"
proof -
  assume "src_apart t k s (Suc n)" and "i \<le> k"
  then have "t + of_nat i \<noteq> s + of_nat 0" unfolding src_apart_def by blast
  then show ?thesis by simp
qed

lemma cstr_copy_step:
  assumes "cstr m t (c # cs)" and "src_apart t (Suc (length cs)) s (Suc n)"
  shows "cstr (m(s := m t)) (t + 1) cs"
proof (rule cstr_agree)
  show "cstr m (t + 1) cs" using assms(1) by (simp add: cstr_Cons)
  fix i assume "i \<le> length cs"
  then have "t + 1 + of_nat i \<noteq> s"
    using src_apart_hd [OF assms(2), of "Suc i"] by (simp add: algebra_simps)
  then show "(m(s := m t)) (t + 1 + of_nat i) = m (t + 1 + of_nat i)" by simp
qed

lemma strncpy_loops_eq:
  assumes "cstr m t cs" and "src_apart t (length cs) s n" and "n \<le> 2 ^ 64"
  shows "(case strncpy_copy m s t n of (m', s', k) \<Rightarrow> zero_fill m' s' k) =
         writebytes m s (padded n cs)"
  using assms
proof (induction n arbitrary: m s t cs)
  case 0
  then show ?case by (simp add: padded_def)
next
  case (Suc n)
  show ?case
  proof (cases cs)
    case Nil
    with Suc.prems show ?thesis
      by (simp add: padded_def cstr_Nil zero_fill_eq writebytes_Cons)
  next
    case (Cons c ds)
    have "(case strncpy_copy (m(s := m t)) (s + 1) (t + 1) n of (m', s', k) \<Rightarrow> zero_fill m' s' k) =
        writebytes (m(s := m t)) (s + 1) (padded n ds)"
      by (rule Suc.IH [OF cstr_copy_step src_apart_Suc]) (use Suc.prems Cons in auto)
    with Suc.prems Cons show ?thesis
      by (simp add: Let_def cstr_Cons padded_def writebytes_Cons)
  qed
qed

lemma strncpy_eq:
  assumes "cstr m t cs" and "src_apart t (length cs) s (nat n)" and "n \<le> 2 ^ 64"
  shows "strncpy m s t n = writebytes m s (padded (nat n) cs)"
  using strncpy_loops_eq [OF assms(1,2)] assms(3) by (simp add: strncpy_def nat_le_iff)

text \<open>
  \<^verbatim>\<open>safestrcpy\<close> leaves a terminated string. When the whole string fits it stores one zero more
  than \<^verbatim>\<open>strcpy\<close> would, which is still within the bound.
\<close>

definition safe_image :: "nat \<Rightarrow> byte list \<Rightarrow> byte list" where
  "safe_image k cs = (if length cs < k then cs @ [0, 0] else take k cs @ [0])"

lemma length_safe_image: "length (safe_image k cs) \<le> Suc k"
  by (simp add: safe_image_def)

lemma safestrcpy_loop_eq:
  assumes "cstr m t cs" and "src_apart t (length cs) s k" and "k < 2 ^ 64 - 1"
  shows "terminate (safestrcpy_copy m s t k) = writebytes m s (safe_image k cs)"
  using assms
proof (induction k arbitrary: m s t cs)
  case 0
  then show ?case by (simp add: terminate_def safe_image_def writebytes_Cons)
next
  case (Suc k)
  show ?case
  proof (cases cs)
    case Nil
    with Suc.prems show ?thesis
      by (simp add: terminate_def Let_def safe_image_def cstr_Nil writebytes_Cons)
  next
    case (Cons c ds)
    have "terminate (safestrcpy_copy (m(s := m t)) (s + 1) (t + 1) k) =
        writebytes (m(s := m t)) (s + 1) (safe_image k ds)"
      by (rule Suc.IH [OF cstr_copy_step src_apart_Suc]) (use Suc.prems Cons in auto)
    moreover have "length (safe_image k ds) < 2 ^ 64"
      using length_safe_image [of k ds] Suc.prems(3) by simp
    ultimately show ?thesis using Suc.prems Cons
      by (simp add: Let_def cstr_Cons safe_image_def writebytes_Cons)
  qed
qed

lemma safestrcpy_eq:
  assumes "cstr m t cs" and "src_apart t (length cs) s (nat n)" and "0 < n" and "n < 2 ^ 32"
  shows "safestrcpy m s t n = writebytes m s (safe_image (nat n - 1) cs)"
proof -
  have "src_apart t (length cs) s (nat n - 1)"
    using assms(2) by (auto simp: src_apart_def)
  moreover have "nat n - 1 < 2 ^ 64 - 1"
    using assms(3,4) by (simp add: nat_less_iff less_imp_diff_less)
  ultimately show ?thesis
    using safestrcpy_loop_eq [OF assms(1)] assms(3) by (simp add: safestrcpy_def nat_diff_distrib)
qed

section \<open>The same routines on buffers\<close>

text \<open>
  Names inside kernel structures (\<^verbatim>\<open>p->name\<close>, the \<^verbatim>\<open>name\<close> of a directory entry, a path) are arrays of
  their structure. The routines that work on them are given here on the contents of the arrays;
  \<open>safestrcpy_buf_eq\<close> and \<open>strncpy_buf_eq\<close> tie them to the loops on memory.
\<close>

definition cstring :: "byte list \<Rightarrow> byte list" where
  "cstring bs = takeWhile (\<lambda>b. b \<noteq> 0) bs"

definition overwrite :: "byte list \<Rightarrow> byte list \<Rightarrow> byte list" where
  "overwrite dst bs = bs @ drop (length bs) dst"

definition safestrcpy_buf :: "byte list \<Rightarrow> byte list \<Rightarrow> nat \<Rightarrow> byte list" where
  "safestrcpy_buf dst src n =
     (if n = 0 then dst else overwrite dst (safe_image (n - 1) (cstring src)))"

definition strncpy_buf :: "byte list \<Rightarrow> byte list \<Rightarrow> nat \<Rightarrow> byte list" where
  "strncpy_buf dst src n = overwrite dst (padded n (cstring src))"

primrec strncmp_buf :: "nat \<Rightarrow> byte list \<Rightarrow> byte list \<Rightarrow> int" where
  "strncmp_buf 0 p q = 0"
| "strncmp_buf (Suc n) p q =
     (let a = (case p of [] \<Rightarrow> 0 | x # _ \<Rightarrow> x); b = (case q of [] \<Rightarrow> 0 | x # _ \<Rightarrow> x)
      in if a \<noteq> 0 \<and> a = b then strncmp_buf n (tl p) (tl q) else uint a - uint b)"

lemma readbytes_overwrite:
  assumes "readbytes m a (length dst) = dst" "length bs \<le> length dst" "length dst < 2 ^ 64"
  shows "readbytes (writebytes m a bs) a (length dst) = overwrite dst bs"
proof (rule nth_equalityI)
  show "length (readbytes (writebytes m a bs) a (length dst)) = length (overwrite dst bs)"
    using assms(2) by (simp add: overwrite_def)
next
  fix i assume "i < length (readbytes (writebytes m a bs) a (length dst))"
  then have i: "i < length dst" by simp
  then have "m (a + of_nat i) = dst ! i" using assms(1) by (metis nth_readbytes)
  then show "readbytes (writebytes m a bs) a (length dst) ! i = overwrite dst bs ! i"
    using i assms(3) by (simp add: writebytes_def overwrite_def nth_append unat_of_nat64)
qed

lemma safestrcpy_buf_eq:
  assumes "readbytes m s (length dst) = dst" "cstr m t (cstring src)"
    "src_apart t (length (cstring src)) s n" "n \<le> length dst" "0 < n" "length dst < 2 ^ 32"
  shows "readbytes (safestrcpy m s t (int n)) s (length dst) = safestrcpy_buf dst src n"
proof -
  have "safestrcpy m s t (int n) = writebytes m s (safe_image (n - 1) (cstring src))"
    using safestrcpy_eq [of m t "cstring src" s "int n"] assms by simp
  moreover have "length (safe_image (n - 1) (cstring src)) \<le> length dst"
    using length_safe_image [of "n - 1" "cstring src"] assms(4,5) by simp
  ultimately show ?thesis
    using readbytes_overwrite [OF assms(1)] assms(5,6) by (simp add: safestrcpy_buf_def)
qed

lemma strncpy_buf_eq:
  assumes "readbytes m s (length dst) = dst" "cstr m t (cstring src)"
    "src_apart t (length (cstring src)) s n" "n \<le> length dst" "length dst < 2 ^ 32"
  shows "readbytes (strncpy m s t (int n)) s (length dst) = strncpy_buf dst src n"
  using strncpy_eq [of m t "cstring src" s "int n"] readbytes_overwrite [OF assms(1)] assms
  by (simp add: strncpy_buf_def)

lemma strncmp_buf_eq_0: "strncmp_buf n p q = 0 \<longleftrightarrow> take n (cstring p) = take n (cstring q)"
proof (induction n arbitrary: p q)
  case 0
  then show ?case by simp
next
  case (Suc n)
  show ?case
    by (cases p; cases q) (auto simp: cstring_def Let_def Suc.IH word_uint_eq_iff)
qed

lemma length_safestrcpy_buf [simp]:
  "n \<le> length dst \<Longrightarrow> length (safestrcpy_buf dst src n) = length dst"
  using length_safe_image [of "n - 1" "cstring src"]
  by (auto simp: safestrcpy_buf_def overwrite_def)

lemma length_strncpy_buf [simp]:
  "n \<le> length dst \<Longrightarrow> length (strncpy_buf dst src n) = length dst"
  by (simp add: strncpy_buf_def overwrite_def)

end
