(* ===== verification/Kalloc.thy ===== *)
theory Kalloc
  imports Spinlock Strings
begin

text \<open>
  \<^verbatim>\<open>kernel/kalloc.c\<close>: the physical page allocator. The free list is threaded through the free pages
  themselves, in byte memory, as the code has it; \<open>flist\<close> says that memory holds a list of pages,
  and \<open>kmem_inv\<close> is the allocator's invariant. The locale \<open>page_allocator\<close> is the interface that
  the rest of the kernel uses; \<^verbatim>\<open>kalloc\<close>/\<^verbatim>\<open>kfree\<close> are its interpretation.
\<close>

section \<open>Code\<close>

definition kmemset :: "addr \<Rightarrow> uint \<Rightarrow> uint \<Rightarrow> unit kcode" where
  "kmemset dst c n = kmod (\<lambda>s. s\<lparr>pmem := memset (pmem s) dst c n\<rparr>)"

definition kfree :: "addr \<Rightarrow> unit kcode" where
  "kfree pa =
     kbind (kget (\<lambda>s. sym_end (syms s))) (\<lambda>kend.
     if pa mod PGSIZE \<noteq> 0 \<or> pa < kend \<or> PHYSTOP \<le> pa then kpanic ''kfree'' else
     kdo [kmemset pa 1 4096,
          acquire KmemLock,
          kmod (\<lambda>s. s\<lparr>pmem := store64 (pmem s) pa (freelist s)\<rparr>),
          kmod (\<lambda>s. s\<lparr>freelist := pa\<rparr>),
          release KmemLock]
     (kret ()))"

definition kalloc :: "addr kcode" where
  "kalloc =
     kdo [acquire KmemLock] (
     kbind (kget freelist) (\<lambda>r.
     kdo [kwhen (r \<noteq> 0) (kmod (\<lambda>s. s\<lparr>freelist := load64 (pmem s) r\<rparr>)),
          release KmemLock,
          kwhen (r \<noteq> 0) (kmemset r 5 4096)]
     (kret r)))"

text \<open>
  The loop of \<^verbatim>\<open>freerange\<close>. It can make at most one step per page below \<open>pa_end\<close>; if the pointer
  wraps around, the loop does not end.
\<close>

primrec freerange_loop :: "nat \<Rightarrow> addr \<Rightarrow> addr \<Rightarrow> unit kcode" where
  "freerange_loop 0 p pa_end = (\<lambda>w s. Blocked s)"
| "freerange_loop (Suc fuel) p pa_end =
     (if p + PGSIZE \<le> pa_end
      then kdo [kfree p] (freerange_loop fuel (p + PGSIZE) pa_end)
      else kret ())"

definition freerange :: "addr \<Rightarrow> addr \<Rightarrow> unit kcode" where
  "freerange pa_start pa_end =
     freerange_loop (unat pa_end div 4096 + 1) (PGROUNDUP pa_start) pa_end"

definition kinit :: "unit kcode" where
  "kinit =
     kdo [initlock KmemLock ''kmem''] (
     kbind (kget (\<lambda>s. sym_end (syms s))) (\<lambda>kend.
     freerange kend PHYSTOP))"

section \<open>Pages and memory\<close>

lemma in_page_iff:
  assumes "page_aligned a"
  shows "unat (x - a) < 4096 \<longleftrightarrow> PGROUNDDOWN x = a"
proof
  assume lt: "unat (x - a) < 4096"
  have a: "unat a + 4096 \<le> 2 ^ 64" "4096 dvd unat a"
    using assms page_end by (auto simp: page_aligned_dvd)
  have "unat x = unat a + unat (x - a)"
    using unat_add_lt64 [of a "x - a"] lt a(1) by simp
  with lt a(2) show "PGROUNDDOWN x = a"
    by (auto simp: word_unat_eq_iff unat_PGROUNDDOWN elim!: dvdE)
next
  assume "PGROUNDDOWN x = a"
  then have a: "unat a = unat x div 4096 * 4096" by (metis unat_PGROUNDDOWN)
  then have "unat (x - a) = unat x - unat a" by (simp add: unat_sub_if')
  with a show "unat (x - a) < 4096" by (simp add: minus_div_mult_eq_mod)
qed

lemma page_write_apart:
  assumes "page_aligned a" "page_aligned b" "a \<noteq> b" "i + n \<le> 4096" "j + k \<le> 4096"
  shows "apart (a + of_nat i) n (b + of_nat j) k"
proof (cases "n = 0 \<or> k = 0")
  case True
  then show ?thesis by (auto simp: apart_def)
next
  case False
  have "unat a + 4096 \<le> 2 ^ 64" "unat b + 4096 \<le> 2 ^ 64" using assms page_end by auto
  then have u: "unat (a + of_nat i) = unat a + i" "unat (b + of_nat j) = unat b + j"
    using assms(4,5) False by (simp_all add: unat_word_ariths unat_of_nat64)
  have "unat a \<noteq> unat b" using assms(3) by (simp add: word_unat_eq_iff)
  moreover obtain x y where "unat a = 4096 * x" "unat b = 4096 * y"
    using assms(1,2) by (auto simp: page_aligned_dvd elim!: dvdE)
  ultimately have "unat a + 4096 \<le> unat b \<or> unat b + 4096 \<le> unat a" by auto
  then show ?thesis
    using assms(4,5) \<open>unat a + 4096 \<le> 2 ^ 64\<close> \<open>unat b + 4096 \<le> 2 ^ 64\<close>
    by (intro apart_ranges) (auto simp: u)
qed

text \<open>A load from one page is not affected by a write within another.\<close>

lemma load64_other_page:
  assumes "page_aligned a" "page_aligned b" "a \<noteq> b" "i + 8 \<le> 4096" "length bs \<le> 4096"
  shows "load64 (writebytes m b bs) (a + of_nat i) = load64 m (a + of_nat i)"
  by (rule load64_writebytes_apart) (use page_write_apart [of a b i 8 0 "length bs"] assms in simp)

lemma load64_store64_other_page:
  assumes "page_aligned a" "page_aligned b" "a \<noteq> b" "i + 8 \<le> 4096" "j + 8 \<le> 4096"
  shows "load64 (store64 m (b + of_nat j) v) (a + of_nat i) = load64 m (a + of_nat i)"
  by (rule load64_store64_apart) (use page_write_apart [of a b i 8 j 8] assms in simp)

text \<open>A page filled with one byte.\<close>

definition fill_page :: "memory \<Rightarrow> addr \<Rightarrow> byte \<Rightarrow> memory" where
  "fill_page m a b = writebytes m a (replicate 4096 b)"

lemma load64_fill_other_page:
  assumes "page_aligned a" "page_aligned b" "a \<noteq> b" "i + 8 \<le> 4096"
  shows "load64 (fill_page m b c) (a + of_nat i) = load64 m (a + of_nat i)"
  unfolding fill_page_def by (rule load64_other_page) (use assms in simp_all)

lemmas load64_fill_page = load64_fill_other_page [where i = 0, simplified]
lemmas load64_store64_page = load64_store64_other_page [where i = 0 and j = 0, simplified]

lemma writebytes_page_frame:
  assumes "page_aligned a" "length bs \<le> 4096" "PGROUNDDOWN x \<noteq> a"
  shows "writebytes m a bs x = m x"
  using in_page_iff [OF assms(1), of x] assms(2,3) by (auto simp: writebytes_def)

lemma fill_page_frame:
  "page_aligned a \<Longrightarrow> PGROUNDDOWN x \<noteq> a \<Longrightarrow> fill_page m a b x = m x"
  by (simp add: fill_page_def writebytes_page_frame)

lemma fill_page_inside:
  "page_aligned a \<Longrightarrow> PGROUNDDOWN x = a \<Longrightarrow> fill_page m a b x = b"
  using in_page_iff [of a x] by (simp add: fill_page_def writebytes_def)

lemma store64_page_frame:
  assumes "page_aligned a" "PGROUNDDOWN x \<noteq> a"
  shows "store64 m a v x = m x"
  using assms by (auto simp: store64_def intro: writebytes_page_frame)

section \<open>The free list in memory\<close>

primrec flist :: "memory \<Rightarrow> addr \<Rightarrow> addr list \<Rightarrow> bool" where
  "flist m p [] \<longleftrightarrow> p = 0"
| "flist m p (a # as) \<longleftrightarrow> p = a \<and> a \<noteq> 0 \<and> flist m (load64 m a) as"

lemma flist_unique: "flist m p as \<Longrightarrow> flist m p bs \<Longrightarrow> as = bs"
proof (induction as arbitrary: p bs)
  case Nil
  then show ?case by (cases bs) auto
next
  case (Cons a as)
  then show ?case by (cases bs) auto
qed

lemma flist_agree:
  "(\<And>a. a \<in> set as \<Longrightarrow> load64 m' a = load64 m a) \<Longrightarrow> flist m p as \<Longrightarrow> flist m' p as"
  by (induction as arbitrary: p) auto

definition usable :: "symbols \<Rightarrow> addr \<Rightarrow> bool" where
  "usable sy a \<longleftrightarrow> page_aligned a \<and> sym_end sy \<le> a \<and> a < PHYSTOP"

definition kmem_inv :: "kernel \<Rightarrow> addr list \<Rightarrow> bool" where
  "kmem_inv s as \<longleftrightarrow>
     flist (pmem s) (freelist s) as \<and> distinct as \<and> (\<forall>a \<in> set as. usable (syms s) a) \<and>
     0 < sym_end (syms s)"

text \<open>When the allocator may be called: its lock is free and the hart's bookkeeping consistent.\<close>

definition kmem_ready :: "kernel \<Rightarrow> bool" where
  "kmem_ready s \<longleftrightarrow> calm (hw s) \<and> lock_free KmemLock (hw s)"

lemma usable_nonzero: "usable sy a \<Longrightarrow> 0 < sym_end sy \<Longrightarrow> a \<noteq> 0"
  by (auto simp: usable_def)

lemma usable_aligned: "usable sy a \<Longrightarrow> page_aligned a"
  by (simp add: usable_def)

lemma usable_below_2_56: "usable sy a \<Longrightarrow> a < 2 ^ 56"
  by (auto simp: usable_def PHYSTOP_def KERNBASE_def elim: order_less_trans)

lemma kmemset_run:
  "kmemset d c n w s = Ret () (s\<lparr>pmem := writebytes (pmem s) d (replicate (unat n) (ucast c))\<rparr>) w"
  by (simp add: kmemset_def kapply memset_eq)

lemma kmemset_page [kapply]:
  "kmemset d c 4096 w s = Ret () (s\<lparr>pmem := fill_page (pmem s) d (ucast c)\<rparr>) w"
  by (simp add: kmemset_run fill_page_def)

lemma kfree_run:
  assumes "kmem_ready s" and "usable (syms s) pa"
  shows "kfree pa w s =
     Ret () (s\<lparr>pmem := store64 (fill_page (pmem s) pa 1) pa (freelist s),
              freelist := pa\<rparr>) w"
  using assms unfolding kfree_def
  by (simp add: kapply kmem_ready_def usable_def page_aligned_def not_less not_le
      acquire_free release_enter)

lemma kfree_panics:
  "\<not> usable (syms s) pa \<Longrightarrow> kfree pa w s = Panic ''kfree''"
  unfolding kfree_def by (auto simp: kapply usable_def page_aligned_def not_less not_le)

lemma kalloc_run:
  assumes "kmem_ready s"
  shows "kalloc w s =
     (if freelist s = 0 then Ret 0 s w
      else Ret (freelist s)
             (s\<lparr>freelist := load64 (pmem s) (freelist s),
                pmem := fill_page (pmem s) (freelist s) 5\<rparr>) w)"
  using assms unfolding kalloc_def
  by (simp add: kapply kmem_ready_def acquire_free release_enter)

lemma kmem_inv_kalloc:
  assumes inv: "kmem_inv s (a # as)"
  shows "kmem_inv (s\<lparr>freelist := load64 (pmem s) a, pmem := fill_page (pmem s) a 5\<rparr>) as"
proof -
  have "load64 (fill_page (pmem s) a 5) b = load64 (pmem s) b" if "b \<in> set as" for b
    by (rule load64_fill_page) (use inv that in \<open>auto simp: kmem_inv_def usable_def\<close>)
  then have "flist (fill_page (pmem s) a 5) (load64 (pmem s) a) as"
    by (rule flist_agree [of _ _ "pmem s"]) (use inv in \<open>simp_all add: kmem_inv_def\<close>)
  then show ?thesis
    using inv by (simp add: kmem_inv_def)
qed

lemma kmem_inv_kfree:
  assumes inv: "kmem_inv s as" and a: "usable (syms s) a" "a \<notin> set as"
  shows "kmem_inv (s\<lparr>pmem := store64 (fill_page (pmem s) a 1) a (freelist s), freelist := a\<rparr>) (a # as)"
proof -
  have "load64 (store64 (fill_page (pmem s) a 1) a (freelist s)) b = load64 (pmem s) b"
    if "b \<in> set as" for b
  proof -
    have b: "page_aligned b" "page_aligned a" "b \<noteq> a"
      using inv that a by (auto simp: kmem_inv_def usable_def)
    show ?thesis by (simp only: load64_store64_page [OF b] load64_fill_page [OF b])
  qed
  then have "flist (store64 (fill_page (pmem s) a 1) a (freelist s)) (freelist s) as"
    by (rule flist_agree [of _ _ "pmem s"]) (use inv in \<open>simp_all add: kmem_inv_def\<close>)
  moreover have "a \<noteq> 0" using a(1) inv usable_nonzero by (simp add: kmem_inv_def)
  ultimately show ?thesis
    using inv a by (simp add: kmem_inv_def)
qed

lemma kmem_ready_upd [simp]:
  "kmem_ready (s\<lparr>pmem := m\<rparr>) = kmem_ready s" "kmem_ready (s\<lparr>freelist := f\<rparr>) = kmem_ready s"
  by (simp_all add: kmem_ready_def)

section \<open>The interface\<close>

text \<open>
  What a client of the allocator may rely on. \<open>inv s as\<close>: in state \<open>s\<close> the free pages are \<open>as\<close>, in
  the order they will be handed out.
\<close>

locale page_allocator =
  fixes alloc :: "('s, addr) ker" and free :: "addr \<Rightarrow> ('s, unit) ker"
    and inv :: "'s \<Rightarrow> addr list \<Rightarrow> bool" and allocatable :: "'s \<Rightarrow> addr \<Rightarrow> bool"
  assumes alloc_empty: "inv s [] \<Longrightarrow> alloc w s = Ret 0 s w"
    and alloc_Cons: "inv s (a # as) \<Longrightarrow>
                     runs alloc w s (\<lambda>r t. r = a \<and> inv t as \<and> allocatable t = allocatable s)"
    and free_inv: "inv s as \<Longrightarrow> allocatable s a \<Longrightarrow> a \<notin> set as \<Longrightarrow>
                   runs (free a) w s (\<lambda>_ t. inv t (a # as) \<and> allocatable t = allocatable s)"
    and inv_pages: "inv s as \<Longrightarrow> distinct as \<and> (\<forall>a \<in> set as. a \<noteq> 0 \<and> allocatable s a)"

primrec alloc_many :: "('s, addr) ker \<Rightarrow> nat \<Rightarrow> ('s, addr list) ker" where
  "alloc_many alloc 0 = kret []"
| "alloc_many alloc (Suc n) = kbind alloc (\<lambda>a. kbind (alloc_many alloc n) (\<lambda>as. kret (a # as)))"

context page_allocator
begin

lemma alloc_many_runs:
  "inv s as \<Longrightarrow> n \<le> length as \<Longrightarrow>
   runs (alloc_many alloc n) w s (\<lambda>rs t. rs = take n as \<and> inv t (drop n as))"
proof (induction n arbitrary: s as)
  case 0
  then show ?case by simp
next
  case (Suc n)
  from Suc.prems obtain a bs where as: "as = a # bs" by (cases as) auto
  with Suc.prems have "runs alloc w s (\<lambda>r t. r = a \<and> inv t bs)"
    by (auto intro: runs_conseq [OF alloc_Cons])
  then show ?case
    using Suc as by (auto intro!: runs_kbindI)
qed

text \<open>Pages handed out together are different, none is null, and none is still free.\<close>

lemma alloc_many_fresh:
  assumes "inv s as" and "n \<le> length as"
  shows "runs (alloc_many alloc n) w s (\<lambda>rs t. distinct rs \<and> length rs = n \<and> 0 \<notin> set rs \<and>
           (\<exists>bs. inv t bs \<and> set rs \<inter> set bs = {} \<and> set rs \<union> set bs = set as))"
proof (rule runs_conseq [OF alloc_many_runs [OF assms]])
  fix rs t assume rt: "rs = take n as \<and> inv t (drop n as)"
  have "distinct as" and nz: "0 \<notin> set as" using inv_pages [OF assms(1)] by auto
  then have "distinct (take n as @ drop n as)" by simp
  then have "set (take n as) \<inter> set (drop n as) = {}" by (simp only: distinct_append)
  moreover have "set (take n as) \<union> set (drop n as) = set as"
    by (metis append_take_drop_id set_append)
  moreover have "0 \<notin> set (take n as)" using nz by (auto dest: in_set_takeD)
  ultimately show "distinct rs \<and> length rs = n \<and> 0 \<notin> set rs \<and>
      (\<exists>bs. inv t bs \<and> set rs \<inter> set bs = {} \<and> set rs \<union> set bs = set as)"
    using rt \<open>distinct as\<close> assms(2) by auto
qed

text \<open>A page that is freed and asked for again is the one that comes back.\<close>

lemma free_alloc:
  assumes "inv s as" "allocatable s a" "a \<notin> set as"
  shows "runs (kbind (free a) (\<lambda>_. alloc)) w s (\<lambda>r t. r = a \<and> inv t as)"
  by (rule runs_kbindI [OF free_inv [OF assms]]) (auto intro: runs_conseq [OF alloc_Cons])

end

text \<open>The invariant with the readiness of the lock, as the interface needs it.\<close>

definition kmem_state :: "kernel \<Rightarrow> addr list \<Rightarrow> bool" where
  "kmem_state s as \<longleftrightarrow> kmem_inv s as \<and> kmem_ready s"

lemma kalloc_Cons:
  "kmem_state s (a # as) \<Longrightarrow>
   kalloc w s = Ret a (s\<lparr>freelist := load64 (pmem s) a,
                        pmem := fill_page (pmem s) a 5\<rparr>) w"
  by (auto simp: kmem_state_def kalloc_run kmem_inv_def)

lemma kalloc_Nil: "kmem_state s [] \<Longrightarrow> kalloc w s = Ret 0 s w"
  by (simp add: kmem_state_def kalloc_run kmem_inv_def)

lemma kalloc_state:
  "kmem_state s (a # as) \<Longrightarrow>
   kmem_state (s\<lparr>freelist := load64 (pmem s) a, pmem := fill_page (pmem s) a 5\<rparr>) as"
  by (simp add: kmem_state_def kmem_inv_kalloc)

lemma kfree_state:
  "kmem_state s as \<Longrightarrow> usable (syms s) a \<Longrightarrow> a \<notin> set as \<Longrightarrow>
   kmem_state (s\<lparr>pmem := store64 (fill_page (pmem s) a 1) a (freelist s), freelist := a\<rparr>) (a # as)"
  by (simp add: kmem_state_def kmem_inv_kfree)

interpretation kmem: page_allocator kalloc kfree kmem_state "\<lambda>s. usable (syms s)"
proof
  fix s :: kernel and as a w
  show "kmem_state s [] \<Longrightarrow> kalloc w s = Ret 0 s w" by (rule kalloc_Nil)
  show "runs kalloc w s (\<lambda>r t. r = a \<and> kmem_state t as \<and> usable (syms t) = usable (syms s))"
    if "kmem_state s (a # as)"
    using kalloc_Cons [OF that, of w] kalloc_state [OF that] by (auto simp: runs_def)
  show "runs (kfree a) w s (\<lambda>_ t. kmem_state t (a # as) \<and> usable (syms t) = usable (syms s))"
    if "kmem_state s as" "usable (syms s) a" "a \<notin> set as"
    using kfree_run [of s a w] kfree_state [OF that] that
    by (auto intro!: runsI simp: kmem_state_def)
  show "distinct as \<and> (\<forall>a \<in> set as. a \<noteq> 0 \<and> usable (syms s) a)" if "kmem_state s as"
    using that by (auto simp: kmem_state_def kmem_inv_def dest: usable_nonzero)
qed

section \<open>Booting the allocator\<close>

lemma unat_PHYSTOP: "unat PHYSTOP = 4096 * 557056"
  by (simp add: PHYSTOP_def KERNBASE_def)

lemma aligned_step:
  assumes "page_aligned p" "p < PHYSTOP"
  shows "p + PGSIZE \<le> PHYSTOP" "unat (p + PGSIZE) = unat p + 4096" "page_aligned (p + PGSIZE)"
    "page_aligned a \<Longrightarrow> p \<le> a \<longleftrightarrow> a = p \<or> p + PGSIZE \<le> a"
proof -
  obtain k where k: "unat p = 4096 * k" using assms(1) by (auto simp: page_aligned_dvd elim!: dvdE)
  have lt: "unat p < 4096 * 557056" using assms(2) by (simp add: word_less_nat_alt unat_PHYSTOP)
  show u: "unat (p + PGSIZE) = unat p + 4096"
    using lt by (subst unat_add_lt64) (simp_all add: PGSIZE_def)
  then show "page_aligned (p + PGSIZE)" using k by (simp add: page_aligned_dvd)
  have "k < 557056" using lt k by simp
  then show "p + PGSIZE \<le> PHYSTOP" using u k by (simp add: word_le_nat_alt unat_PHYSTOP)
  show "p \<le> a \<longleftrightarrow> a = p \<or> p + PGSIZE \<le> a" if a: "page_aligned a"
  proof -
    obtain j where "unat a = 4096 * j" using a by (auto simp: page_aligned_dvd elim!: dvdE)
    then show ?thesis using u k by (auto simp: word_le_nat_alt word_unat_eq_iff)
  qed
qed

lemma freerange_loop_run:
  assumes "kmem_state s as" "page_aligned p" "sym_end (syms s) \<le> p" "p \<le> PHYSTOP"
    and "\<And>a. a \<in> set as \<Longrightarrow> a < p" and "557056 - unat p div 4096 < fuel"
  shows "runs (freerange_loop fuel p PHYSTOP) w s (\<lambda>_ t. syms t = syms s \<and> (\<exists>bs. kmem_state t bs \<and>
           set bs = set as \<union> {a. page_aligned a \<and> p \<le> a \<and> a < PHYSTOP}))"
  using assms
proof (induction fuel arbitrary: s as p)
  case 0
  then show ?case by simp
next
  case (Suc fuel)
  show ?case
  proof (cases "p < PHYSTOP")
    case True
    note st = aligned_step [OF Suc.prems(2) True]
    let ?t = "s\<lparr>pmem := store64 (fill_page (pmem s) p 1) p (freelist s), freelist := p\<rparr>"
    have u: "usable (syms s) p" using Suc.prems True by (simp add: usable_def)
    moreover have new: "p \<notin> set as" using Suc.prems(5) by auto
    ultimately have t: "kmem_state ?t (p # as)" using kfree_state Suc.prems(1) by simp
    have k: "kfree p w s = Ret () ?t w" using kfree_run u Suc.prems(1) by (simp add: kmem_state_def)
    have "p < p + PGSIZE" using st(2) by (simp add: word_less_nat_alt)
    then have below: "a < p + PGSIZE" if "a \<in> set (p # as)" for a
      using Suc.prems(5) that by (auto intro: less_trans)
    have "unat p < 4096 * 557056" using True by (simp add: word_less_nat_alt unat_PHYSTOP)
    then have fuel: "557056 - unat (p + PGSIZE) div 4096 < fuel"
      using Suc.prems(6) unfolding st(2) by auto
    have "runs (freerange_loop fuel (p + PGSIZE) PHYSTOP) w ?t
        (\<lambda>_ t'. syms t' = syms ?t \<and> (\<exists>bs. kmem_state t' bs \<and>
           set bs = set (p # as) \<union> {a. page_aligned a \<and> p + PGSIZE \<le> a \<and> a < PHYSTOP}))"
      using Suc.prems(3) \<open>p < p + PGSIZE\<close>
      by (intro Suc.IH t st(1,3) below fuel) (auto intro: order_trans less_imp_le)
    moreover have "set (p # as) \<union> {a. page_aligned a \<and> p + PGSIZE \<le> a \<and> a < PHYSTOP} =
        set as \<union> {a. page_aligned a \<and> p \<le> a \<and> a < PHYSTOP}"
      using st(4) Suc.prems(2) True by auto
    ultimately show ?thesis
      using st(1) k by (simp add: runs_def kapply)
  next
    case False
    then have "p = PHYSTOP" using Suc.prems(4) by simp
    then show ?thesis
      using Suc.prems(1) by (auto simp: PHYSTOP_def PGSIZE_def KERNBASE_def)
  qed
qed

lemma PGROUNDUP_props:
  assumes "x \<le> PHYSTOP"
  shows "page_aligned (PGROUNDUP x)" "x \<le> PGROUNDUP x" "PGROUNDUP x \<le> PHYSTOP"
    "page_aligned a \<Longrightarrow> PGROUNDUP x \<le> a \<longleftrightarrow> x \<le> a"
proof -
  have x: "unat x \<le> 4096 * 557056" using assms by (simp add: word_le_nat_alt unat_PHYSTOP)
  then have u: "unat (PGROUNDUP x) = (unat x + 4095) div 4096 * 4096"
    by (simp add: unat_PGROUNDUP)
  show "page_aligned (PGROUNDUP x)" using u by (simp add: page_aligned_dvd)
  show "x \<le> PGROUNDUP x" unfolding word_le_nat_alt u by linarith
  show "PGROUNDUP x \<le> PHYSTOP" using x unfolding word_le_nat_alt u unat_PHYSTOP by auto
  show "PGROUNDUP x \<le> a \<longleftrightarrow> x \<le> a" if a: "page_aligned a"
  proof -
    obtain j where "unat a = 4096 * j" using a by (auto simp: page_aligned_dvd elim!: dvdE)
    then show ?thesis unfolding word_le_nat_alt u by auto
  qed
qed

text \<open>
  C5. Started on an empty free list, \<^verbatim>\<open>kinit\<close> returns with exactly the pages between the end of the
  kernel image and \<^verbatim>\<open>PHYSTOP\<close> on the free list.
\<close>

theorem kinit_frees_all_pages:
  assumes "calm (hw s)" and "freelist s = 0" and "0 < sym_end (syms s)" "sym_end (syms s) \<le> PHYSTOP"
  shows "runs kinit w s (\<lambda>_ t. syms t = syms s \<and>
           (\<exists>as. kmem_state t as \<and> set as = {a. usable (syms s) a}))"
proof -
  let ?e = "sym_end (syms s)"
  obtain t where t: "initlock KmemLock ''kmem'' w s = Ret () t w" "syms t = syms s" "kmem_state t []"
    using assms
    by (auto simp: initlock_def kapply kmem_state_def kmem_inv_def kmem_ready_def lock_free_def calm_def)
  have fuel: "557056 - unat (PGROUNDUP ?e) div 4096 < unat PHYSTOP div 4096 + 1"
    by (simp add: unat_PHYSTOP)
  note r = PGROUNDUP_props [OF assms(4)]
  have "runs (freerange_loop (unat PHYSTOP div 4096 + 1) (PGROUNDUP ?e) PHYSTOP) w t
     (\<lambda>_ t'. syms t' = syms t \<and> (\<exists>bs. kmem_state t' bs \<and>
        set bs = set [] \<union> {a. page_aligned a \<and> PGROUNDUP ?e \<le> a \<and> a < PHYSTOP}))"
    by (rule freerange_loop_run [OF t(3)]) (use r t(2) fuel in auto)
  moreover have "{a. page_aligned a \<and> PGROUNDUP ?e \<le> a \<and> a < PHYSTOP} = {a. usable (syms s) a}"
    using r(4) by (auto simp: usable_def)
  ultimately show ?thesis
    using t by (simp add: kinit_def freerange_def runs_def kapply del: freerange_loop.simps)
qed

lemma kernel0_kmem [simp]: "freelist kernel0 = 0" "syms kernel0 = syms0"
  by (simp_all add: kernel0_def bss_def)

theorem kinit_frees_all_pages_witness:
  "runs kinit [] kernel0 (\<lambda>_ t. syms t = syms kernel0 \<and>
     (\<exists>as. kmem_state t as \<and> set as = {a. usable (syms kernel0) a}))"
  by (rule kinit_frees_all_pages)
    (simp_all add: calm_kernel0 syms0_def PHYSTOP_def KERNBASE_def PGSIZE_def)

text \<open>
  C6. Asking for \<open>n\<close> pages while at least \<open>n\<close> are free yields \<open>n\<close> different non-null pages, none of
  which is still on the free list, and nothing else leaves the list.
\<close>

theorem kalloc_distinct_pages:
  assumes "kmem_state s as" and "n \<le> length as"
  shows "runs (alloc_many kalloc n) w s (\<lambda>rs t. distinct rs \<and> length rs = n \<and> 0 \<notin> set rs \<and>
           (\<exists>bs. kmem_state t bs \<and> set rs \<inter> set bs = {} \<and> set rs \<union> set bs = set as))"
  by (rule kmem.alloc_many_fresh [OF assms])

text \<open>A state with two free pages.\<close>

definition two_pages :: kernel where
  "two_pages = kernel0\<lparr>freelist := 0x87fff000,
     pmem := store64 (pmem kernel0) 0x87fff000 0x87ffe000\<rparr>"

lemma kmem_state_two_pages: "kmem_state two_pages [0x87fff000, 0x87ffe000]"
proof -
  have "flist (pmem two_pages) 0x87fff000 [0x87fff000, 0x87ffe000]"
  proof -
    have "load64 (store64 (pmem kernel0) 0x87fff000 0x87ffe000) 0x87fff000 = 0x87ffe000" by simp
    moreover have "load64 (store64 (pmem kernel0) 0x87fff000 0x87ffe000) 0x87ffe000 = 0"
      by (simp add: load64_store64_page page_aligned_def PGSIZE_def kernel0_def bss_def load64_zero_memory)
    ultimately show ?thesis by (simp add: two_pages_def)
  qed
  then show ?thesis
    by (simp add: kmem_state_def kmem_inv_def kmem_ready_def two_pages_def calm_kernel0 free_kernel0
        usable_def page_aligned_def PGSIZE_def PHYSTOP_def KERNBASE_def syms0_def)
qed

theorem kalloc_distinct_pages_witness:
  "runs (alloc_many kalloc 2) [] two_pages (\<lambda>rs t. distinct rs \<and> length rs = 2 \<and> 0 \<notin> set rs \<and>
     (\<exists>bs. kmem_state t bs \<and> set rs \<inter> set bs = {} \<and>
           set rs \<union> set bs = {0x87fff000, 0x87ffe000}))"
  using kalloc_distinct_pages [OF kmem_state_two_pages, of 2 "[]"] by simp

text \<open>
  C7. \<^verbatim>\<open>kfree\<close> puts a page at the head of the free list and writes nothing outside it; the next
  \<^verbatim>\<open>kalloc\<close> returns that page filled with 5s, and the free list is as before. A page that is
  misaligned or outside the kernel's memory makes \<^verbatim>\<open>kfree\<close> panic.
\<close>

theorem kfree_kalloc:
  assumes "kmem_state s as"
  shows "if usable (syms s) a
         then a \<notin> set as \<longrightarrow>
              runs (kfree a) w s (\<lambda>_ t. kmem_state t (a # as) \<and>
                (\<forall>x. PGROUNDDOWN x \<noteq> a \<longrightarrow> pmem t x = pmem s x) \<and>
                runs kalloc w t (\<lambda>r u. r = a \<and> kmem_state u as \<and> freelist u = freelist s \<and>
                  pmem u = fill_page (pmem t) a 5))
         else kfree a w s = Panic ''kfree''"
proof (cases "usable (syms s) a")
  case True
  let ?t = "s\<lparr>pmem := store64 (fill_page (pmem s) a 1) a (freelist s), freelist := a\<rparr>"
  have al: "page_aligned a" using True by (rule usable_aligned)
  show ?thesis
  proof (cases "a \<in> set as")
    case False
    have t: "kmem_state ?t (a # as)" by (rule kfree_state [OF assms True False])
    have "kfree a w s = Ret () ?t w" using kfree_run True assms by (simp add: kmem_state_def)
    moreover have "pmem ?t x = pmem s x" if "PGROUNDDOWN x \<noteq> a" for x
      using that al by (simp add: store64_page_frame fill_page_frame)
    moreover have "runs kalloc w ?t (\<lambda>r u. r = a \<and> kmem_state u as \<and> freelist u = freelist s \<and>
                  pmem u = fill_page (pmem ?t) a 5)"
      using kalloc_Cons [OF t, of w] kalloc_state [OF t] by (simp add: runs_def)
    ultimately show ?thesis using True t by (simp add: runs_def)
  qed (simp add: True)
next
  case False
  then show ?thesis by (simp add: kfree_panics)
qed

theorem kfree_kalloc_witness:
  "runs (kfree 0x87ffd000) [] two_pages (\<lambda>_ t.
       kmem_state t [0x87ffd000, 0x87fff000, 0x87ffe000] \<and>
       runs kalloc [] t (\<lambda>r u. r = 0x87ffd000 \<and> kmem_state u [0x87fff000, 0x87ffe000]))
   \<and> kfree 0x87ffd001 [] two_pages = Panic ''kfree''"
  using kfree_kalloc [OF kmem_state_two_pages, of "0x87ffd000" "[]"]
    kfree_kalloc [OF kmem_state_two_pages, of "0x87ffd001" "[]"]
  by (simp add: usable_def page_aligned_def PGSIZE_def PHYSTOP_def KERNBASE_def two_pages_def syms0_def)
    (auto elim!: runs_conseq)

end
