(* ===== verification/Vm.thy ===== *)
theory Vm
  imports Kalloc
begin

unbundle bit_operations_syntax

text \<open>
  \<^verbatim>\<open>kernel/vm.c\<close>: page tables and user memory. Page tables live in byte memory, in pages taken from
  the allocator, as the code has them. A kernel buffer that the code passes by address to
  \<^verbatim>\<open>copyout()\<close>, \<^verbatim>\<open>copyin()\<close> and \<^verbatim>\<open>copyinstr()\<close> is passed as its contents: \<^verbatim>\<open>copyout\<close> takes the bytes of
  the source buffer, \<^verbatim>\<open>copyin\<close> and \<^verbatim>\<open>copyinstr\<close> return, next to the result code, the bytes that they
  have stored into the destination buffer.
\<close>

section \<open>Code\<close>

definition kload :: "addr \<Rightarrow> uint64 kcode" where
  "kload a = kget (\<lambda>s. load64 (pmem s) a)"

definition kstore :: "addr \<Rightarrow> uint64 \<Rightarrow> unit kcode" where
  "kstore a v = kmod (\<lambda>s. s\<lparr>pmem := store64 (pmem s) a v\<rparr>)"

definition kput :: "addr \<Rightarrow> byte list \<Rightarrow> unit kcode" where
  "kput a bs = kmod (\<lambda>s. s\<lparr>pmem := writebytes (pmem s) a bs\<rparr>)"

definition kmemmove :: "addr \<Rightarrow> addr \<Rightarrow> uint \<Rightarrow> unit kcode" where
  "kmemmove dst src n = kmod (\<lambda>s. s\<lparr>pmem := memmove (pmem s) dst src n\<rparr>)"

lemma kload_apply [kapply]: "kload a w s = Ret (load64 (pmem s) a) s w"
  by (simp add: kload_def kapply)

lemma kstore_apply [kapply]: "kstore a v w s = Ret () (s\<lparr>pmem := store64 (pmem s) a v\<rparr>) w"
  by (simp add: kstore_def kapply)

lemma kput_apply [kapply]: "kput a bs w s = Ret () (s\<lparr>pmem := writebytes (pmem s) a bs\<rparr>) w"
  by (simp add: kput_def kapply)

lemma kmemmove_apply [kapply]:
  "kmemmove d a n w s = Ret () (s\<lparr>pmem := memmove (pmem s) d a n\<rparr>) w"
  by (simp add: kmemmove_def kapply)

text \<open>The loop over the levels 2 and 1, then the entry of level 0.\<close>

primrec walk_loop :: "nat \<Rightarrow> addr \<Rightarrow> addr \<Rightarrow> bool \<Rightarrow> addr kcode" where
  "walk_loop 0 pagetable va alloc = kret (pagetable + 8 * PX 0 va)"
| "walk_loop (Suc l) pagetable va alloc =
     (let pte = pagetable + 8 * PX (Suc l) va in
      kbind (kload pte) (\<lambda>e.
      if e AND PTE_V \<noteq> 0 then walk_loop l (PTE2PA e) va alloc
      else if \<not> alloc then kret 0
      else kbind kalloc (\<lambda>pg.
        if pg = 0 then kret 0
        else kdo [kmemset pg 0 4096, kstore pte (PA2PTE pg OR PTE_V)] (walk_loop l pg va alloc))))"

definition walk :: "addr \<Rightarrow> addr \<Rightarrow> bool \<Rightarrow> addr kcode" where
  "walk pagetable va alloc =
     (if MAXVA \<le> va then kpanic ''walk'' else walk_loop 2 pagetable va alloc)"

definition walkaddr :: "addr \<Rightarrow> addr \<Rightarrow> addr kcode" where
  "walkaddr pagetable va =
     (if MAXVA \<le> va then kret 0 else
      kbind (walk pagetable va False) (\<lambda>pte.
      if pte = 0 then kret 0 else
      kbind (kload pte) (\<lambda>e.
      if e AND PTE_V = 0 then kret 0
      else if e AND PTE_U = 0 then kret 0
      else kret (PTE2PA e))))"

text \<open>
  The loop of \<^verbatim>\<open>mappages\<close> runs once per page from \<^verbatim>\<open>a\<close> to \<^verbatim>\<open>last\<close>; when \<^verbatim>\<open>last\<close> lies below \<^verbatim>\<open>a\<close> it runs
  until \<^verbatim>\<open>walk\<close> panics at \<^verbatim>\<open>MAXVA\<close>, which is at most \<open>2 ^ 26\<close> pages away.
\<close>

primrec mappages_loop :: "nat \<Rightarrow> addr \<Rightarrow> addr \<Rightarrow> addr \<Rightarrow> addr \<Rightarrow> uint64 \<Rightarrow> int kcode" where
  "mappages_loop 0 pagetable a lst pa perm = (\<lambda>w s. Blocked s)"
| "mappages_loop (Suc fuel) pagetable a lst pa perm =
     kbind (walk pagetable a True) (\<lambda>pte.
     if pte = 0 then kret (-1) else
     kbind (kload pte) (\<lambda>e.
     if e AND PTE_V \<noteq> 0 then kpanic ''remap'' else
     kdo [kstore pte (PA2PTE pa OR perm OR PTE_V)]
     (if a = lst then kret 0
      else mappages_loop fuel pagetable (a + PGSIZE) lst (pa + PGSIZE) perm)))"

definition mappages :: "addr \<Rightarrow> addr \<Rightarrow> uint64 \<Rightarrow> addr \<Rightarrow> uint64 \<Rightarrow> int kcode" where
  "mappages pagetable va sz pa perm =
     mappages_loop (2 ^ 26 + 1) pagetable (PGROUNDDOWN va) (PGROUNDDOWN (va + sz - 1)) pa perm"

definition kvmmap :: "addr \<Rightarrow> addr \<Rightarrow> uint64 \<Rightarrow> uint64 \<Rightarrow> unit kcode" where
  "kvmmap va pa sz perm =
     kbind (kget kernel_pagetable) (\<lambda>kpt.
     kbind (mappages kpt va sz pa perm) (\<lambda>r.
     if r \<noteq> 0 then kpanic ''kvmmap'' else kret ()))"

definition kvminit :: "unit kcode" where
  "kvminit =
     kbind kalloc (\<lambda>pt.
     kbind (kget syms) (\<lambda>sy.
     kdo [kmod (\<lambda>s. s\<lparr>kernel_pagetable := pt\<rparr>),
          kmemset pt 0 4096,
          kvmmap UART0 UART0 PGSIZE (PTE_R OR PTE_W),
          kvmmap VIRTIO0 VIRTIO0 PGSIZE (PTE_R OR PTE_W),
          kvmmap CLINT CLINT 0x10000 (PTE_R OR PTE_W),
          kvmmap PLIC PLIC 0x400000 (PTE_R OR PTE_W),
          kvmmap KERNBASE KERNBASE (sym_etext sy - KERNBASE) (PTE_R OR PTE_X),
          kvmmap (sym_etext sy) (sym_etext sy) (PHYSTOP - sym_etext sy) (PTE_R OR PTE_W),
          kvmmap TRAMPOLINE (sym_trampoline sy) PGSIZE (PTE_R OR PTE_X)]
     (kret ())))"

definition kvminithart :: "unit kcode" where
  "kvminithart = kmod (\<lambda>s. s\<lparr>hw := (hw s)\<lparr>csr := (csr (hw s))(tp (hw s) :=
     (csr (hw s) (tp (hw s)))\<lparr>satp := MAKE_SATP (kernel_pagetable s)\<rparr>)\<rparr>\<rparr>)"

definition kvmpa :: "addr \<Rightarrow> addr kcode" where
  "kvmpa va =
     kbind (kget kernel_pagetable) (\<lambda>kpt.
     kbind (walk kpt va False) (\<lambda>pte.
     if pte = 0 then kpanic ''kvmpa'' else
     kbind (kload pte) (\<lambda>e.
     if e AND PTE_V = 0 then kpanic ''kvmpa''
     else kret (PTE2PA e + va mod PGSIZE))))"

text \<open>
  The loop of \<^verbatim>\<open>uvmunmap\<close>: \<^verbatim>\<open>va\<close> is aligned, so it runs once per page between \<^verbatim>\<open>va\<close> and the end.
\<close>

primrec uvmunmap_loop :: "nat \<Rightarrow> addr \<Rightarrow> addr \<Rightarrow> addr \<Rightarrow> bool \<Rightarrow> unit kcode" where
  "uvmunmap_loop 0 pagetable a stop do_free = (\<lambda>w s. Blocked s)"
| "uvmunmap_loop (Suc fuel) pagetable a stop do_free =
     (if \<not> a < stop then kret () else
      kbind (walk pagetable a False) (\<lambda>pte.
      if pte = 0 then kpanic ''uvmunmap: walk'' else
      kbind (kload pte) (\<lambda>e.
      if e AND PTE_V = 0 then kpanic ''uvmunmap: not mapped''
      else if PTE_FLAGS e = PTE_V then kpanic ''uvmunmap: not a leaf''
      else
      kdo [kwhen do_free (kfree (PTE2PA e)),
           kstore pte 0]
      (uvmunmap_loop fuel pagetable (a + PGSIZE) stop do_free))))"

definition uvmunmap :: "addr \<Rightarrow> addr \<Rightarrow> uint64 \<Rightarrow> bool \<Rightarrow> unit kcode" where
  "uvmunmap pagetable va npages do_free =
     (if va mod PGSIZE \<noteq> 0 then kpanic ''uvmunmap: not aligned''
      else let stop = va + npages * PGSIZE
           in uvmunmap_loop (unat stop div 4096 + 1) pagetable va stop do_free)"

definition uvmcreate :: "addr kcode" where
  "uvmcreate =
     kbind kalloc (\<lambda>pagetable.
     if pagetable = 0 then kret 0
     else kdo [kmemset pagetable 0 4096] (kret pagetable))"

definition uvminit :: "addr \<Rightarrow> byte list \<Rightarrow> uint \<Rightarrow> unit kcode" where
  "uvminit pagetable src sz =
     (if 4096 \<le> sz then kpanic ''inituvm: more than a page'' else
      kbind kalloc (\<lambda>mem.
      kdo [kmemset mem 0 4096,
           kbind (mappages pagetable 0 PGSIZE mem (PTE_W OR PTE_R OR PTE_X OR PTE_U)) (\<lambda>_. kret ()),
           kput mem (take (unat sz) src)]
      (kret ())))"

text \<open>\<^verbatim>\<open>int npages\<close> keeps 32 bits and is sign-extended again when \<^verbatim>\<open>uvmunmap\<close> takes it.\<close>

definition uvmdealloc :: "addr \<Rightarrow> uint64 \<Rightarrow> uint64 \<Rightarrow> uint64 kcode" where
  "uvmdealloc pagetable oldsz newsz =
     (if oldsz \<le> newsz then kret oldsz else
      kdo [kwhen (PGROUNDUP newsz < PGROUNDUP oldsz)
             (let npages = ucast ((PGROUNDUP oldsz - PGROUNDUP newsz) div PGSIZE) :: 32 word
              in uvmunmap pagetable (PGROUNDUP newsz) (scast npages) True)]
      (kret newsz))"

text \<open>The loop of \<^verbatim>\<open>uvmalloc\<close> runs until \<^verbatim>\<open>a\<close> reaches \<^verbatim>\<open>newsz\<close>, or until \<^verbatim>\<open>walk\<close> panics at \<^verbatim>\<open>MAXVA\<close>.\<close>

primrec uvmalloc_loop :: "nat \<Rightarrow> addr \<Rightarrow> addr \<Rightarrow> uint64 \<Rightarrow> uint64 \<Rightarrow> uint64 kcode" where
  "uvmalloc_loop 0 pagetable a oldsz newsz = (\<lambda>w s. Blocked s)"
| "uvmalloc_loop (Suc fuel) pagetable a oldsz newsz =
     (if \<not> a < newsz then kret newsz else
      kbind kalloc (\<lambda>mem.
      if mem = 0 then kbind (uvmdealloc pagetable a oldsz) (\<lambda>_. kret 0) else
      kdo [kmemset mem 0 4096] (
      kbind (mappages pagetable a PGSIZE mem (PTE_W OR PTE_X OR PTE_R OR PTE_U)) (\<lambda>r.
      if r \<noteq> 0 then kdo [kfree mem] (kbind (uvmdealloc pagetable a oldsz) (\<lambda>_. kret 0))
      else uvmalloc_loop fuel pagetable (a + PGSIZE) oldsz newsz))))"

definition uvmalloc :: "addr \<Rightarrow> uint64 \<Rightarrow> uint64 \<Rightarrow> uint64 kcode" where
  "uvmalloc pagetable oldsz newsz =
     (if newsz < oldsz then kret oldsz
      else uvmalloc_loop (2 ^ 26 + 2) pagetable (PGROUNDUP oldsz) (PGROUNDUP oldsz) newsz)"

text \<open>
  \<^verbatim>\<open>freewalk\<close> recurses into the pages of the lower level; a page table is three levels deep, and a
  deeper one (which only a cyclic page table has) exhausts the depth.
\<close>

primrec freewalk_depth :: "nat \<Rightarrow> addr \<Rightarrow> unit kcode" where
  "freewalk_depth 0 pagetable = (\<lambda>w s. Blocked s)"
| "freewalk_depth (Suc depth) pagetable =
     kdo [kfor [0..<512] (\<lambda>i.
            kbind (kload (pagetable + 8 * of_nat i)) (\<lambda>pte.
            if pte AND PTE_V \<noteq> 0 \<and> pte AND (PTE_R OR PTE_W OR PTE_X) = 0 then
              kdo [freewalk_depth depth (PTE2PA pte)] (kstore (pagetable + 8 * of_nat i) 0)
            else if pte AND PTE_V \<noteq> 0 then kpanic ''freewalk: leaf''
            else kret ()))]
     (kfree pagetable)"

definition freewalk :: "addr \<Rightarrow> unit kcode" where
  "freewalk pagetable = freewalk_depth 3 pagetable"

definition uvmfree :: "addr \<Rightarrow> uint64 \<Rightarrow> unit kcode" where
  "uvmfree pagetable sz =
     kdo [kwhen (0 < sz) (uvmunmap pagetable 0 (PGROUNDUP sz div PGSIZE) True)]
     (freewalk pagetable)"

primrec uvmcopy_loop :: "nat \<Rightarrow> addr \<Rightarrow> addr \<Rightarrow> uint64 \<Rightarrow> uint64 \<Rightarrow> int kcode" where
  "uvmcopy_loop 0 old new i sz = (\<lambda>w s. Blocked s)"
| "uvmcopy_loop (Suc fuel) old new i sz =
     (if \<not> i < sz then kret 0 else
      kbind (walk old i False) (\<lambda>pte.
      if pte = 0 then kpanic ''uvmcopy: pte should exist'' else
      kbind (kload pte) (\<lambda>e.
      if e AND PTE_V = 0 then kpanic ''uvmcopy: page not present'' else
      let pa = PTE2PA e; flags = PTE_FLAGS e in
      kbind kalloc (\<lambda>mem.
      if mem = 0 then kdo [uvmunmap new 0 (i div PGSIZE) True] (kret (-1)) else
      kdo [kmemmove mem pa 4096] (
      kbind (mappages new i PGSIZE mem flags) (\<lambda>r.
      if r \<noteq> 0 then kdo [kfree mem, uvmunmap new 0 (i div PGSIZE) True] (kret (-1))
      else uvmcopy_loop fuel old new (i + PGSIZE) sz))))))"

definition uvmcopy :: "addr \<Rightarrow> addr \<Rightarrow> uint64 \<Rightarrow> int kcode" where
  "uvmcopy old new sz = uvmcopy_loop (2 ^ 26 + 2) old new 0 sz"

definition uvmclear :: "addr \<Rightarrow> addr \<Rightarrow> unit kcode" where
  "uvmclear pagetable va =
     kbind (walk pagetable va False) (\<lambda>pte.
     if pte = 0 then kpanic ''uvmclear''
     else kbind (kload pte) (\<lambda>e. kstore pte (e AND NOT PTE_U)))"

text \<open>
  The copies. Each round ends at a page boundary or with the last byte, so a copy of \<open>n\<close> bytes
  takes at most \<open>n\<close> rounds and one test that ends it.
\<close>

primrec copyout_loop :: "nat \<Rightarrow> addr \<Rightarrow> addr \<Rightarrow> byte list \<Rightarrow> int kcode" where
  "copyout_loop 0 pagetable dstva src = (\<lambda>w s. Blocked s)"
| "copyout_loop (Suc fuel) pagetable dstva src =
     (if src = [] then kret 0 else
      let va0 = PGROUNDDOWN dstva in
      kbind (walkaddr pagetable va0) (\<lambda>pa0.
      if pa0 = 0 then kret (-1) else
      let n = min (unat (PGSIZE - (dstva - va0))) (length src) in
      kdo [kput (pa0 + (dstva - va0)) (take n src)]
      (copyout_loop fuel pagetable (va0 + PGSIZE) (drop n src))))"

definition copyout :: "addr \<Rightarrow> addr \<Rightarrow> byte list \<Rightarrow> int kcode" where
  "copyout pagetable dstva src = copyout_loop (length src + 1) pagetable dstva src"

primrec copyin_loop :: "nat \<Rightarrow> addr \<Rightarrow> addr \<Rightarrow> nat \<Rightarrow> byte list \<Rightarrow> (int \<times> byte list) kcode" where
  "copyin_loop 0 pagetable srcva len dst = (\<lambda>w s. Blocked s)"
| "copyin_loop (Suc fuel) pagetable srcva len dst =
     (if len = 0 then kret (0, dst) else
      let va0 = PGROUNDDOWN srcva in
      kbind (walkaddr pagetable va0) (\<lambda>pa0.
      if pa0 = 0 then kret (-1, dst) else
      let n = min (unat (PGSIZE - (srcva - va0))) len in
      kbind (kget (\<lambda>s. readbytes (pmem s) (pa0 + (srcva - va0)) n)) (\<lambda>bs.
      copyin_loop fuel pagetable (va0 + PGSIZE) (len - n) (dst @ bs))))"

definition copyin :: "addr \<Rightarrow> addr \<Rightarrow> uint64 \<Rightarrow> (int \<times> byte list) kcode" where
  "copyin pagetable srcva len = copyin_loop (unat len + 1) pagetable srcva (unat len) []"

text \<open>The inner loop: copy up to and including a zero byte; the flag says that there was one.\<close>

primrec until_null :: "byte list \<Rightarrow> byte list \<times> bool" where
  "until_null [] = ([], False)"
| "until_null (b # bs) =
     (if b = 0 then ([0], True) else let (cs, got) = until_null bs in (b # cs, got))"

primrec copyinstr_loop :: "nat \<Rightarrow> addr \<Rightarrow> addr \<Rightarrow> nat \<Rightarrow> byte list \<Rightarrow> (int \<times> byte list) kcode" where
  "copyinstr_loop 0 pagetable srcva maxlen dst = (\<lambda>w s. Blocked s)"
| "copyinstr_loop (Suc fuel) pagetable srcva maxlen dst =
     (if maxlen = 0 then kret (-1, dst) else
      let va0 = PGROUNDDOWN srcva in
      kbind (walkaddr pagetable va0) (\<lambda>pa0.
      if pa0 = 0 then kret (-1, dst) else
      let n = min (unat (PGSIZE - (srcva - va0))) maxlen in
      kbind (kget (\<lambda>s. readbytes (pmem s) (pa0 + (srcva - va0)) n)) (\<lambda>bs.
      let (cs, got_null) = until_null bs in
      if got_null then kret (0, dst @ cs)
      else copyinstr_loop fuel pagetable (va0 + PGSIZE) (maxlen - n) (dst @ cs))))"

definition copyinstr :: "addr \<Rightarrow> addr \<Rightarrow> uint64 \<Rightarrow> (int \<times> byte list) kcode" where
  "copyinstr pagetable srcva maxlen = copyinstr_loop (unat maxlen + 1) pagetable srcva (unat maxlen) []"

end
