(* ===== verification/Proc.thy ===== *)
theory Proc
  imports Vm
begin

unbundle bit_operations_syntax

text \<open>
  \<^verbatim>\<open>kernel/proc.c\<close> without the functions that need the file system (those are in \<open>Process\<close>): the
  process table, allocation of processes, the scheduler and \<^verbatim>\<open>sched\<close>, \<^verbatim>\<open>sleep\<close> and \<^verbatim>\<open>wakeup\<close>, \<^verbatim>\<open>kill\<close>
  and \<^verbatim>\<open>wait\<close>. A process is its index in \<^verbatim>\<open>proc[]\<close>. \<^verbatim>\<open>swtch()\<close> (assembly) gives the hart away: the
  environment acts, and the thread goes on in the state that it is resumed in. Dereferencing a
  null pointer is a fault in the kernel, which ends in the panic of \<^verbatim>\<open>kerneltrap()\<close>.
\<close>

section \<open>Access to the process table\<close>

definition kderef :: "'a option \<Rightarrow> 'a kcode" where
  "kderef p = (case p of None \<Rightarrow> kpanic ''kerneltrap'' | Some x \<Rightarrow> kret x)"

definition get_proc :: "nat \<Rightarrow> proc kcode" where
  "get_proc p = kget (\<lambda>s. procs s ! p)"

definition upd_proc :: "nat \<Rightarrow> (proc \<Rightarrow> proc) \<Rightarrow> unit kcode" where
  "upd_proc p f = kmod (\<lambda>s. s\<lparr>procs := (procs s)[p := f (procs s ! p)]\<rparr>)"

lemma kderef_Some [kapply]: "kderef (Some x) w s = Ret x s w"
  by (simp add: kderef_def kapply)

lemma kderef_None [kapply]: "kderef None w s = Panic ''kerneltrap''"
  by (simp add: kderef_def kapply)

lemma get_proc_apply [kapply]: "get_proc p w s = Ret (procs s ! p) s w"
  by (simp add: get_proc_def kapply)

lemma upd_proc_apply [kapply]:
  "upd_proc p f w s = Ret () (s\<lparr>procs := (procs s)[p := f (procs s ! p)]\<rparr>) w"
  by (simp add: upd_proc_def kapply)

definition myproc :: "nat option kcode" where
  "myproc =
     kdo [push_off] (
     kbind mycpu (\<lambda>c.
     kdo [pop_off]
     (kret (cpu_proc c))))"

text \<open>\<^verbatim>\<open>myproc()\<close> followed by a use of the pointer.\<close>

definition curproc :: "nat kcode" where
  "curproc = kbind myproc kderef"

section \<open>Allocation\<close>

definition procinit :: "unit kcode" where
  "procinit =
     kdo [initlock PidLock ''nextpid'',
          kfor [0..<NPROC] (\<lambda>p.
            kdo [initlock (ProcLock p) ''proc''] (
            kbind kalloc (\<lambda>pa.
            if pa = 0 then kpanic ''kalloc'' else
            kdo [kvmmap (KSTACK p) pa PGSIZE (PTE_R OR PTE_W),
                 upd_proc p (\<lambda>r. r\<lparr>p_kstack := KSTACK p\<rparr>)]
            (kret ()))))]
     kvminithart"

definition allocpid :: "int kcode" where
  "allocpid =
     kdo [acquire PidLock] (
     kbind (kget nextpid) (\<lambda>pid.
     kdo [kmod (\<lambda>s. s\<lparr>nextpid := nextpid s + 1\<rparr>),
          release PidLock]
     (kret pid)))"

definition proc_pagetable :: "nat \<Rightarrow> addr kcode" where
  "proc_pagetable p =
     kbind uvmcreate (\<lambda>pagetable.
     if pagetable = 0 then kret 0 else
     kbind (kget (\<lambda>s. sym_trampoline (syms s))) (\<lambda>trampoline.
     kbind (mappages pagetable TRAMPOLINE PGSIZE trampoline (PTE_R OR PTE_X)) (\<lambda>r.
     if r < 0 then kdo [uvmfree pagetable 0] (kret 0) else
     kbind (get_proc p) (\<lambda>pr.
     kbind (mappages pagetable TRAPFRAME PGSIZE (p_trapframe pr) (PTE_R OR PTE_W)) (\<lambda>r.
     if r < 0 then kdo [uvmunmap pagetable TRAMPOLINE 1 False, uvmfree pagetable 0] (kret 0)
     else kret pagetable)))))"

definition proc_freepagetable :: "addr \<Rightarrow> uint64 \<Rightarrow> unit kcode" where
  "proc_freepagetable pagetable sz =
     kdo [uvmunmap pagetable TRAMPOLINE 1 False,
          uvmunmap pagetable TRAPFRAME 1 False]
     (uvmfree pagetable sz)"

definition freeproc :: "nat \<Rightarrow> unit kcode" where
  "freeproc p =
     kbind (get_proc p) (\<lambda>pr.
     kdo [kwhen (p_trapframe pr \<noteq> 0) (kfree (p_trapframe pr)),
          upd_proc p (\<lambda>r. r\<lparr>p_trapframe := 0\<rparr>),
          kwhen (p_pagetable pr \<noteq> 0) (proc_freepagetable (p_pagetable pr) (p_sz pr)),
          upd_proc p (\<lambda>r. r\<lparr>p_pagetable := 0, p_sz := 0, p_pid := 0, p_parent := None,
            p_name := (p_name r)[0 := 0], p_chan := NoChan, p_killed := False, p_xstate := 0,
            p_state := UNUSED\<rparr>)]
     (kret ()))"

definition allocproc :: "nat option kcode" where
  "allocproc =
     kbind (kfind [0..<NPROC] (\<lambda>p.
       kdo [acquire (ProcLock p)] (
       kbind (get_proc p) (\<lambda>pr.
       if p_state pr = UNUSED then kret (Some p)
       else kdo [release (ProcLock p)] (kret None))))) (\<lambda>found.
     case found of None \<Rightarrow> kret None | Some p \<Rightarrow>
     kbind allocpid (\<lambda>pid.
     kdo [upd_proc p (\<lambda>r. r\<lparr>p_pid := pid\<rparr>)] (
     kbind kalloc (\<lambda>tf.
     kdo [upd_proc p (\<lambda>r. r\<lparr>p_trapframe := tf\<rparr>)] (
     if tf = 0 then kdo [release (ProcLock p)] (kret None) else
     kbind (proc_pagetable p) (\<lambda>pt.
     kdo [upd_proc p (\<lambda>r. r\<lparr>p_pagetable := pt\<rparr>)] (
     if pt = 0 then kdo [freeproc p, release (ProcLock p)] (kret None) else
     kbind (kget (\<lambda>s. sym_forkret (syms s))) (\<lambda>forkret.
     kdo [upd_proc p (\<lambda>r. r\<lparr>p_context := ctx0\<lparr>ctx_ra := forkret, ctx_sp := p_kstack r + PGSIZE\<rparr>\<rparr>)]
     (kret (Some p))))))))))"

text \<open>\<^verbatim>\<open>uint sz\<close>: the size is cut to 32 bits on the way.\<close>

definition growproc :: "int \<Rightarrow> int kcode" where
  "growproc n =
     kbind curproc (\<lambda>p.
     kbind (get_proc p) (\<lambda>pr.
     let sz = ucast (p_sz pr) :: uint in
     if 0 < n then
       kbind (uvmalloc (p_pagetable pr) (ucast sz) (ucast (sz + of_int n))) (\<lambda>r.
       let sz' = ucast r :: uint in
       if sz' = 0 then kret (-1)
       else kdo [upd_proc p (\<lambda>r. r\<lparr>p_sz := ucast sz'\<rparr>)] (kret 0))
     else if n < 0 then
       kbind (uvmdealloc (p_pagetable pr) (ucast sz) (ucast (sz + of_int n))) (\<lambda>r.
       let sz' = ucast r :: uint in
       kdo [upd_proc p (\<lambda>r. r\<lparr>p_sz := ucast sz'\<rparr>)] (kret 0))
     else kdo [upd_proc p (\<lambda>r. r\<lparr>p_sz := ucast sz\<rparr>)] (kret 0)))"

section \<open>Scheduling\<close>

definition swtch :: "unit kcode" where
  "swtch = kwait"

definition sched :: "unit kcode" where
  "sched =
     kbind curproc (\<lambda>p.
     kbind (holding (ProcLock p)) (\<lambda>h.
     if \<not> h then kpanic ''sched p->lock'' else
     kbind mycpu (\<lambda>c.
     if noff c \<noteq> 1 then kpanic ''sched locks'' else
     kbind (get_proc p) (\<lambda>pr.
     if p_state pr = RUNNING then kpanic ''sched running'' else
     kbind intr_get (\<lambda>on.
     if on then kpanic ''sched interruptible'' else
     kbind mycpu (\<lambda>c.
     kdo [swtch,
          upd_mycpu (\<lambda>c'. c'\<lparr>intena := intena c\<rparr>)]
     (kret ())))))))"

definition yield :: "unit kcode" where
  "yield =
     kbind curproc (\<lambda>p.
     kdo [acquire (ProcLock p),
          upd_proc p (\<lambda>r. r\<lparr>p_state := RUNNABLE\<rparr>),
          sched,
          release (ProcLock p)]
     (kret ()))"

text \<open>
  One round of the scheduler's endless loop, and \<open>n\<close> rounds. \<^verbatim>\<open>wfi\<close> waits for an interrupt.
\<close>

definition scheduler_pick :: "nat \<Rightarrow> bool kcode" where
  "scheduler_pick p =
     kdo [acquire (ProcLock p)] (
     kbind (get_proc p) (\<lambda>pr.
     kdo [kwhen (p_state pr = RUNNABLE)
            (kdo [upd_proc p (\<lambda>r. r\<lparr>p_state := RUNNING\<rparr>),
                  upd_mycpu (\<lambda>c. c\<lparr>cpu_proc := Some p\<rparr>),
                  swtch,
                  upd_mycpu (\<lambda>c. c\<lparr>cpu_proc := None\<rparr>)]
             (kret ())),
          release (ProcLock p)]
     (kret (p_state pr = RUNNABLE))))"

primrec scheduler_scan :: "nat list \<Rightarrow> bool \<Rightarrow> bool kcode" where
  "scheduler_scan [] found = kret found"
| "scheduler_scan (p # ps) found = kbind (scheduler_pick p) (\<lambda>b. scheduler_scan ps (found \<or> b))"

definition scheduler_round :: "unit kcode" where
  "scheduler_round =
     kdo [intr_on] (
     kbind (scheduler_scan [0..<NPROC] False) (\<lambda>found.
     kwhen (\<not> found) (kdo [intr_on] kwait)))"

primrec scheduler_rounds :: "nat \<Rightarrow> unit kcode" where
  "scheduler_rounds 0 = kret ()"
| "scheduler_rounds (Suc n) = kdo [scheduler_round] (scheduler_rounds n)"

definition scheduler :: "nat \<Rightarrow> unit kcode" where
  "scheduler n = kdo [upd_mycpu (\<lambda>c. c\<lparr>cpu_proc := None\<rparr>)] (scheduler_rounds n)"

text \<open>The statements of \<^verbatim>\<open>sleep()\<close> for the current process \<open>p\<close>, in their order.\<close>

definition sleep_body :: "chan \<Rightarrow> lockid \<Rightarrow> nat \<Rightarrow> unit kcode list" where
  "sleep_body ch lk p =
     (if lk \<noteq> ProcLock p then [acquire (ProcLock p), release lk] else []) @
     [upd_proc p (\<lambda>r. r\<lparr>p_chan := ch\<rparr>),
      upd_proc p (\<lambda>r. r\<lparr>p_state := SLEEPING\<rparr>),
      sched,
      upd_proc p (\<lambda>r. r\<lparr>p_chan := NoChan\<rparr>)] @
     (if lk \<noteq> ProcLock p then [release (ProcLock p), acquire lk] else [])"

definition sleep :: "chan \<Rightarrow> lockid \<Rightarrow> unit kcode" where
  "sleep ch lk = kbind curproc (\<lambda>p. kdo (sleep_body ch lk p) (kret ()))"

definition wake_test :: "chan \<Rightarrow> nat \<Rightarrow> unit kcode" where
  "wake_test ch p =
     kbind (get_proc p) (\<lambda>pr.
     kwhen (p_state pr = SLEEPING \<and> p_chan pr = ch)
       (upd_proc p (\<lambda>r. r\<lparr>p_state := RUNNABLE\<rparr>)))"

definition wakeup_body :: "chan \<Rightarrow> nat \<Rightarrow> unit kcode list" where
  "wakeup_body ch p = [acquire (ProcLock p), wake_test ch p, release (ProcLock p)]"

definition wakeup_one :: "chan \<Rightarrow> nat \<Rightarrow> unit kcode" where
  "wakeup_one ch p = kdo (wakeup_body ch p) (kret ())"

definition wakeup :: "chan \<Rightarrow> unit kcode" where
  "wakeup ch = kfor [0..<NPROC] (wakeup_one ch)"

definition wakeup1 :: "nat \<Rightarrow> unit kcode" where
  "wakeup1 p =
     kbind (holding (ProcLock p)) (\<lambda>h.
     if \<not> h then kpanic ''wakeup1'' else
     kbind (get_proc p) (\<lambda>pr.
     kwhen (p_chan pr = ChanProc p \<and> p_state pr = SLEEPING)
       (upd_proc p (\<lambda>r. r\<lparr>p_state := RUNNABLE\<rparr>))))"

definition kill :: "int \<Rightarrow> int kcode" where
  "kill pid =
     kbind (kfind [0..<NPROC] (\<lambda>p.
       kdo [acquire (ProcLock p)] (
       kbind (get_proc p) (\<lambda>pr.
       if p_pid pr = pid then
         kdo [upd_proc p (\<lambda>r. r\<lparr>p_killed := True\<rparr>),
              kwhen (p_state pr = SLEEPING) (upd_proc p (\<lambda>r. r\<lparr>p_state := RUNNABLE\<rparr>)),
              release (ProcLock p)]
         (kret (Some ()))
       else kdo [release (ProcLock p)] (kret None))))) (\<lambda>found.
     kret (if found = None then -1 else 0))"

section \<open>Children\<close>

definition reparent :: "nat \<Rightarrow> unit kcode" where
  "reparent p =
     kfor [0..<NPROC] (\<lambda>pp.
       kbind (get_proc pp) (\<lambda>pr.
       kwhen (p_parent pr = Some p)
         (kdo [acquire (ProcLock pp),
               kmod (\<lambda>s. s\<lparr>procs := (procs s)[pp := (procs s ! pp)\<lparr>p_parent := initproc s\<rparr>]\<rparr>),
               release (ProcLock pp)]
          (kret ()))))"

text \<open>
  The scan of \<^verbatim>\<open>wait\<close> over the process table: \<open>Inl r\<close> when the call returns \<open>r\<close>, \<open>Inr havekids\<close> at
  the end of the table.
\<close>

primrec wait_scan :: "nat \<Rightarrow> addr \<Rightarrow> nat list \<Rightarrow> bool \<Rightarrow> (int + bool) kcode" where
  "wait_scan p addr [] havekids = kret (Inr havekids)"
| "wait_scan p addr (np # nps) havekids =
     kbind (get_proc np) (\<lambda>pr.
     if p_parent pr = Some p then
       kdo [acquire (ProcLock np)] (
       kbind (get_proc np) (\<lambda>npr.
       if p_state npr = ZOMBIE then
         kbind (get_proc p) (\<lambda>me.
         kbind (if addr \<noteq> 0
                then copyout (p_pagetable me) addr (le_bytes 4 (unat (of_int (p_xstate npr) :: uint)))
                else kret 0) (\<lambda>r.
         if r < 0 then
           kdo [release (ProcLock np), release (ProcLock p)] (kret (Inl (-1)))
         else
           kdo [freeproc np, release (ProcLock np), release (ProcLock p)] (kret (Inl (p_pid npr)))))
       else kdo [release (ProcLock np)] (wait_scan p addr nps True)))
     else wait_scan p addr nps havekids)"

definition wait :: "addr \<Rightarrow> int kcode" where
  "wait addr =
     kbind curproc (\<lambda>p.
     kdo [acquire (ProcLock p)] (
     kwaitloop (
       kbind (wait_scan p addr [0..<NPROC] False) (\<lambda>r. case r of
         Inl pid \<Rightarrow> kret (Some pid)
       | Inr havekids \<Rightarrow>
           kbind (get_proc p) (\<lambda>pr.
           if \<not> havekids \<or> p_killed pr then kdo [release (ProcLock p)] (kret (Some (-1)))
           else kdo [sleep (ChanProc p) (ProcLock p)] (kret None))))))"

section \<open>Copies to and from user or kernel memory\<close>

text \<open>
  The pair of a flag and an address that says where to copy to or from: a user virtual address, or
  a kernel address. The kernel address of a local variable of the caller stands for the variable's
  contents: what is copied there is returned by the functions of \<open>Fs\<close>, what is copied from there is
  given.
\<close>

datatype kdst = UserDst addr | KernDst addr | LocalDst
datatype ksrc = UserSrc addr | KernSrc addr | LocalSrc "byte list"

primrec kdst_add :: "kdst \<Rightarrow> nat \<Rightarrow> kdst" where
  "kdst_add (UserDst a) n = UserDst (a + of_nat n)"
| "kdst_add (KernDst a) n = KernDst (a + of_nat n)"
| "kdst_add LocalDst n = LocalDst"

primrec ksrc_add :: "ksrc \<Rightarrow> nat \<Rightarrow> ksrc" where
  "ksrc_add (UserSrc a) n = UserSrc (a + of_nat n)"
| "ksrc_add (KernSrc a) n = KernSrc (a + of_nat n)"
| "ksrc_add (LocalSrc bs) n = LocalSrc (drop n bs)"

definition either_copyout :: "kdst \<Rightarrow> byte list \<Rightarrow> int kcode" where
  "either_copyout dst src =
     kbind myproc (\<lambda>p. case dst of
       UserDst a \<Rightarrow> kbind (kderef p) (\<lambda>p. kbind (get_proc p) (\<lambda>pr. copyout (p_pagetable pr) a src))
     | KernDst a \<Rightarrow> kdo [kput a src] (kret 0)
     | LocalDst \<Rightarrow> kret 0)"

definition either_copyin :: "ksrc \<Rightarrow> uint64 \<Rightarrow> (int \<times> byte list) kcode" where
  "either_copyin src len =
     kbind myproc (\<lambda>p. case src of
       UserSrc a \<Rightarrow> kbind (kderef p) (\<lambda>p. kbind (get_proc p) (\<lambda>pr. copyin (p_pagetable pr) a len))
     | KernSrc a \<Rightarrow> kbind (kget (\<lambda>s. readbytes (pmem s) a (unat len))) (\<lambda>bs. kret (0, bs))
     | LocalSrc bs \<Rightarrow> kret (0, take (unat len) bs))"

end
