(* ===== verification/Sleeplock.thy ===== *)
theory Sleeplock
  imports Proc
begin

text \<open>
  \<^verbatim>\<open>kernel/sleeplock.c\<close>: locks that a process sleeps for. Each has a spinlock of its own, under
  which the fields are read and written.
\<close>

section \<open>Code\<close>

definition get_sl :: "slockid \<Rightarrow> sleeplock kcode" where
  "get_sl lk = kget (\<lambda>s. sleeplocks s lk)"

definition upd_sl :: "slockid \<Rightarrow> (sleeplock \<Rightarrow> sleeplock) \<Rightarrow> unit kcode" where
  "upd_sl lk f = kmod (\<lambda>s. s\<lparr>sleeplocks := (sleeplocks s)(lk := f (sleeplocks s lk))\<rparr>)"

lemma get_sl_apply [kapply]: "get_sl lk w s = Ret (sleeplocks s lk) s w"
  by (simp add: get_sl_def kapply)

lemma upd_sl_apply [kapply]:
  "upd_sl lk f w s = Ret () (s\<lparr>sleeplocks := (sleeplocks s)(lk := f (sleeplocks s lk))\<rparr>) w"
  by (simp add: upd_sl_def kapply)

definition initsleeplock :: "slockid \<Rightarrow> string \<Rightarrow> unit kcode" where
  "initsleeplock lk name =
     kdo [initlock (SleepSpin lk) ''sleep lock'',
          upd_sl lk (\<lambda>l. l\<lparr>sl_name := name, sl_locked := 0, sl_pid := 0\<rparr>)]
     (kret ())"

definition acquiresleep :: "slockid \<Rightarrow> unit kcode" where
  "acquiresleep lk =
     kdo [acquire (SleepSpin lk),
          kwaitloop (
            kbind (get_sl lk) (\<lambda>l.
            if sl_locked l \<noteq> 0 then kdo [sleep (ChanSL lk) (SleepSpin lk)] (kret None)
            else kret (Some ()))),
          upd_sl lk (\<lambda>l. l\<lparr>sl_locked := 1\<rparr>)] (
     kbind curproc (\<lambda>p.
     kbind (get_proc p) (\<lambda>pr.
     kdo [upd_sl lk (\<lambda>l. l\<lparr>sl_pid := p_pid pr\<rparr>),
          release (SleepSpin lk)]
     (kret ()))))"

definition releasesleep :: "slockid \<Rightarrow> unit kcode" where
  "releasesleep lk =
     kdo [acquire (SleepSpin lk),
          upd_sl lk (\<lambda>l. l\<lparr>sl_locked := 0\<rparr>),
          upd_sl lk (\<lambda>l. l\<lparr>sl_pid := 0\<rparr>),
          wakeup (ChanSL lk),
          release (SleepSpin lk)]
     (kret ())"

definition holdingsleep :: "slockid \<Rightarrow> bool kcode" where
  "holdingsleep lk =
     kdo [acquire (SleepSpin lk)] (
     kbind (get_sl lk) (\<lambda>l.
     kbind (if sl_locked l \<noteq> 0
            then kbind curproc (\<lambda>p. kbind (get_proc p) (\<lambda>pr. kret (sl_pid l = p_pid pr)))
            else kret False) (\<lambda>r.
     kdo [release (SleepSpin lk)] (kret r))))"

end
