(* ===== verification/Layout.thy ===== *)
theory Layout
  imports Memory
begin

text \<open>
  Little-endian fields inside a block of bytes: how the C code reads and writes the integers of the
  structures of \<^verbatim>\<open>fs.h\<close> that it lays over the data of a buffer.
\<close>

definition get16 :: "byte list \<Rightarrow> nat \<Rightarrow> 16 word" where
  "get16 bs off = of_nat (of_le (take 2 (drop off bs)))"

definition get32 :: "byte list \<Rightarrow> nat \<Rightarrow> uint" where
  "get32 bs off = of_nat (of_le (take 4 (drop off bs)))"

definition get64 :: "byte list \<Rightarrow> nat \<Rightarrow> uint64" where
  "get64 bs off = of_nat (of_le (take 8 (drop off bs)))"

definition put_at :: "byte list \<Rightarrow> nat \<Rightarrow> byte list \<Rightarrow> byte list" where
  "put_at bs off cs = take off bs @ cs @ drop (off + length cs) bs"

definition put16 :: "byte list \<Rightarrow> nat \<Rightarrow> 16 word \<Rightarrow> byte list" where
  "put16 bs off v = put_at bs off (le_bytes 2 (unat v))"

definition put32 :: "byte list \<Rightarrow> nat \<Rightarrow> uint \<Rightarrow> byte list" where
  "put32 bs off v = put_at bs off (le_bytes 4 (unat v))"

lemma unat_16_bound: "unat (v :: 16 word) < 2 ^ 16"
  using unsigned_less [of v] by simp

lemma length_put_at [simp]: "off + length cs \<le> length bs \<Longrightarrow> length (put_at bs off cs) = length bs"
  by (simp add: put_at_def)

lemma length_put16 [simp]: "off + 2 \<le> length bs \<Longrightarrow> length (put16 bs off v) = length bs"
  by (simp add: put16_def)

lemma length_put32 [simp]: "off + 4 \<le> length bs \<Longrightarrow> length (put32 bs off v) = length bs"
  by (simp add: put32_def)

lemma nth_put_at:
  "off + length cs \<le> length bs \<Longrightarrow> i < length bs \<Longrightarrow>
   put_at bs off cs ! i = (if off \<le> i \<and> i < off + length cs then cs ! (i - off) else bs ! i)"
  by (auto simp: put_at_def nth_append min_def)

lemma slice_put_at [simp]:
  "off + length cs \<le> length bs \<Longrightarrow> take (length cs) (drop off (put_at bs off cs)) = cs"
  by (simp add: put_at_def)

lemma slice_put_at_other:
  assumes "off + length cs \<le> length bs" "off' + n \<le> off \<or> off + length cs \<le> off'"
  shows "take n (drop off' (put_at bs off cs)) = take n (drop off' bs)"
proof (rule nth_equalityI)
  show "length (take n (drop off' (put_at bs off cs))) = length (take n (drop off' bs))"
    using assms(1) by simp
  fix i assume i: "i < length (take n (drop off' (put_at bs off cs)))"
  then have "off' + i < length bs" "i < n" using assms(1) by auto
  then show "take n (drop off' (put_at bs off cs)) ! i = take n (drop off' bs) ! i"
    using assms nth_put_at [of off cs bs "off' + i"] i by auto
qed

lemma get16_put16 [simp]: "off + 2 \<le> length bs \<Longrightarrow> get16 (put16 bs off v) off = v"
  using slice_put_at [of off "le_bytes 2 (unat v)" bs] unat_16_bound [of v]
  by (simp add: get16_def put16_def)

lemma get32_put32 [simp]: "off + 4 \<le> length bs \<Longrightarrow> get32 (put32 bs off v) off = v"
  using slice_put_at [of off "le_bytes 4 (unat v)" bs] unat_32_bound [of v]
  by (simp add: get32_def put32_def)

lemma get_put_at_other:
  assumes "off + length cs \<le> length bs"
  shows "off' + 2 \<le> off \<or> off + length cs \<le> off' \<Longrightarrow> get16 (put_at bs off cs) off' = get16 bs off'"
    and "off' + 4 \<le> off \<or> off + length cs \<le> off' \<Longrightarrow> get32 (put_at bs off cs) off' = get32 bs off'"
  using slice_put_at_other [OF assms] by (simp_all add: get16_def get32_def)

lemma get16_put32_other:
  "off + 4 \<le> length bs \<Longrightarrow> off' + 2 \<le> off \<or> off + 4 \<le> off' \<Longrightarrow>
   get16 (put32 bs off v) off' = get16 bs off'"
  by (simp add: put32_def get_put_at_other)

lemma get32_put32_other:
  "off + 4 \<le> length bs \<Longrightarrow> off' + 4 \<le> off \<or> off + 4 \<le> off' \<Longrightarrow>
   get32 (put32 bs off v) off' = get32 bs off'"
  by (simp add: put32_def get_put_at_other)

lemma get16_put16_other:
  "off + 2 \<le> length bs \<Longrightarrow> off' + 2 \<le> off \<or> off + 2 \<le> off' \<Longrightarrow>
   get16 (put16 bs off v) off' = get16 bs off'"
  by (simp add: put16_def get_put_at_other)

lemma get32_put16_other:
  "off + 2 \<le> length bs \<Longrightarrow> off' + 4 \<le> off \<or> off + 2 \<le> off' \<Longrightarrow>
   get32 (put16 bs off v) off' = get32 bs off'"
  by (simp add: put16_def get_put_at_other)

end
