(* ===== verification/Bio.thy ===== *)
theory Bio
  imports Sleeplock Layout
begin

unbundle bit_operations_syntax

text \<open>
  \<^verbatim>\<open>kernel/bio.c\<close>: the buffer cache, a doubly linked list of buffers in order of use. A buffer is its
  index in \<^verbatim>\<open>bcache.buf[]\<close>; the list head \<^verbatim>\<open>bcache.head\<close> is the buffer of index \<open>NBUF\<close>. The pointers
  \<^verbatim>\<open>prev\<close> and \<^verbatim>\<open>next\<close> are kept as the code keeps them.

  \<open>disk_rw\<close> is the contract of the disk driver's \<^verbatim>\<open>virtio_disk_rw()\<close>: when it returns, the transfer
  between the buffer and its block has been done. The driver itself is the subject of \<open>Virtio\<close>.
\<close>

section \<open>Code\<close>

definition BHEAD :: nat where "BHEAD = NBUF"

definition get_buf :: "nat \<Rightarrow> buf kcode" where
  "get_buf b = kget (\<lambda>s. bcache s ! b)"

definition upd_buf :: "nat \<Rightarrow> (buf \<Rightarrow> buf) \<Rightarrow> unit kcode" where
  "upd_buf b f = kmod (\<lambda>s. s\<lparr>bcache := (bcache s)[b := f (bcache s ! b)]\<rparr>)"

lemma get_buf_apply [kapply]: "get_buf b w s = Ret (bcache s ! b) s w"
  by (simp add: get_buf_def kapply)

lemma upd_buf_apply [kapply]:
  "upd_buf b f w s = Ret () (s\<lparr>bcache := (bcache s)[b := f (bcache s ! b)]\<rparr>) w"
  by (simp add: upd_buf_def kapply)

definition disk_rw :: "nat \<Rightarrow> bool \<Rightarrow> unit kcode" where
  "disk_rw b write =
     kbind (get_buf b) (\<lambda>r.
     if write then kmod (\<lambda>s. s\<lparr>disk := (disk s)(b_blockno r := b_data r),
                             disk_writes := disk_writes s @ [(b_blockno r, b_data r)]\<rparr>)
     else kmod (\<lambda>s. s\<lparr>bcache := (bcache s)[b := r\<lparr>b_data := disk s (b_blockno r)\<rparr>]\<rparr>))"

text \<open>\<^verbatim>\<open>b\<close> is inserted right after the head.\<close>

definition binsert :: "nat \<Rightarrow> unit kcode" where
  "binsert b =
     kbind (get_buf BHEAD) (\<lambda>h.
     kdo [upd_buf b (\<lambda>r. r\<lparr>b_next := b_next h\<rparr>),
          upd_buf b (\<lambda>r. r\<lparr>b_prev := BHEAD\<rparr>),
          upd_buf (b_next h) (\<lambda>r. r\<lparr>b_prev := b\<rparr>),
          upd_buf BHEAD (\<lambda>r. r\<lparr>b_next := b\<rparr>)]
     (kret ()))"

definition binit :: "unit kcode" where
  "binit =
     kdo [initlock BcacheLock ''bcache'',
          upd_buf BHEAD (\<lambda>r. r\<lparr>b_prev := BHEAD\<rparr>),
          upd_buf BHEAD (\<lambda>r. r\<lparr>b_next := BHEAD\<rparr>),
          kfor [0..<NBUF] (\<lambda>b.
            kbind (get_buf BHEAD) (\<lambda>h.
            kdo [upd_buf b (\<lambda>r. r\<lparr>b_next := b_next h\<rparr>),
                 upd_buf b (\<lambda>r. r\<lparr>b_prev := BHEAD\<rparr>),
                 initsleeplock (BufSL b) ''buffer'',
                 upd_buf (b_next h) (\<lambda>r. r\<lparr>b_prev := b\<rparr>),
                 upd_buf BHEAD (\<lambda>r. r\<lparr>b_next := b\<rparr>)]
            (kret ())))]
     (kret ())"

text \<open>
  A walk along the list from \<open>b\<close>, in the direction \<open>dir\<close>, to the first buffer that satisfies \<open>P\<close>;
  \<^const>\<open>None\<close> at the head. The list has at most \<open>NBUF\<close> buffers.
\<close>

primrec bscan :: "nat \<Rightarrow> (buf \<Rightarrow> nat) \<Rightarrow> (buf \<Rightarrow> bool) \<Rightarrow> nat \<Rightarrow> nat option kcode" where
  "bscan 0 dir P b = (\<lambda>w s. Blocked s)"
| "bscan (Suc fuel) dir P b =
     (if b = BHEAD then kret None else
      kbind (get_buf b) (\<lambda>r. if P r then kret (Some b) else bscan fuel dir P (dir r)))"

definition bget :: "uint \<Rightarrow> uint \<Rightarrow> nat kcode" where
  "bget dev blockno =
     kdo [acquire BcacheLock] (
     kbind (get_buf BHEAD) (\<lambda>h.
     kbind (bscan (NBUF + 1) b_next (\<lambda>r. b_dev r = dev \<and> b_blockno r = blockno) (b_next h)) (\<lambda>hit.
     case hit of
       Some b \<Rightarrow>
         kdo [upd_buf b (\<lambda>r. r\<lparr>b_refcnt := b_refcnt r + 1\<rparr>),
              release BcacheLock,
              acquiresleep (BufSL b)]
         (kret b)
     | None \<Rightarrow>
         kbind (bscan (NBUF + 1) b_prev (\<lambda>r. b_refcnt r = 0) (b_prev h)) (\<lambda>victim.
         case victim of
           Some b \<Rightarrow>
             kdo [upd_buf b (\<lambda>r. r\<lparr>b_dev := dev, b_blockno := blockno, b_valid := False, b_refcnt := 1\<rparr>),
                  release BcacheLock,
                  acquiresleep (BufSL b)]
             (kret b)
         | None \<Rightarrow> kpanic ''bget: no buffers''))))"

definition bread :: "uint \<Rightarrow> uint \<Rightarrow> nat kcode" where
  "bread dev blockno =
     kbind (bget dev blockno) (\<lambda>b.
     kbind (get_buf b) (\<lambda>r.
     kdo [kwhen (\<not> b_valid r)
            (kdo [disk_rw b False, upd_buf b (\<lambda>r. r\<lparr>b_valid := True\<rparr>)] (kret ()))]
     (kret b)))"

definition bwrite :: "nat \<Rightarrow> unit kcode" where
  "bwrite b =
     kbind (holdingsleep (BufSL b)) (\<lambda>h.
     if \<not> h then kpanic ''bwrite'' else disk_rw b True)"

definition brelse :: "nat \<Rightarrow> unit kcode" where
  "brelse b =
     kbind (holdingsleep (BufSL b)) (\<lambda>h.
     if \<not> h then kpanic ''brelse'' else
     kdo [releasesleep (BufSL b),
          acquire BcacheLock,
          upd_buf b (\<lambda>r. r\<lparr>b_refcnt := b_refcnt r - 1\<rparr>)] (
     kbind (get_buf b) (\<lambda>r.
     kdo [kwhen (b_refcnt r = 0)
            (kdo [upd_buf (b_next r) (\<lambda>q. q\<lparr>b_prev := b_prev r\<rparr>),
                  upd_buf (b_prev r) (\<lambda>q. q\<lparr>b_next := b_next r\<rparr>),
                  binsert b]
             (kret ())),
          release BcacheLock]
     (kret ()))))"

definition bpin :: "nat \<Rightarrow> unit kcode" where
  "bpin b =
     kdo [acquire BcacheLock,
          upd_buf b (\<lambda>r. r\<lparr>b_refcnt := b_refcnt r + 1\<rparr>),
          release BcacheLock]
     (kret ())"

definition bunpin :: "nat \<Rightarrow> unit kcode" where
  "bunpin b =
     kdo [acquire BcacheLock,
          upd_buf b (\<lambda>r. r\<lparr>b_refcnt := b_refcnt r - 1\<rparr>),
          release BcacheLock]
     (kret ())"

end
