(* ===== verification/Log.thy ===== *)
theory Log
  imports Bio
begin

unbundle bit_operations_syntax

text \<open>
  \<^verbatim>\<open>kernel/log.c\<close>: the write-ahead log. The header block holds the count and the home block numbers
  of the blocks of the transaction, as little-endian integers.
\<close>

section \<open>Code\<close>

definition BSIZE :: nat where "BSIZE = 1024"

definition upd_log :: "(log \<Rightarrow> log) \<Rightarrow> unit kcode" where
  "upd_log f = kmod (\<lambda>s. s\<lparr>klog := f (klog s)\<rparr>)"

lemma upd_log_apply [kapply]: "upd_log f w s = Ret () (s\<lparr>klog := f (klog s)\<rparr>) w"
  by (simp add: upd_log_def kapply)

definition upd_lh :: "(logheader \<Rightarrow> logheader) \<Rightarrow> unit kcode" where
  "upd_lh f = upd_log (\<lambda>l. l\<lparr>log_lh := f (log_lh l)\<rparr>)"

lemma upd_lh_apply [kapply]:
  "upd_lh f w s = Ret () (s\<lparr>klog := (klog s)\<lparr>log_lh := f (log_lh (klog s))\<rparr>\<rparr>) w"
  by (simp add: upd_lh_def kapply)

text \<open>The block \<^verbatim>\<open>log.start + i\<close>.\<close>

definition log_block :: "log \<Rightarrow> nat \<Rightarrow> uint" where
  "log_block l i = of_int (log_start l + int i)"

definition install_one :: "nat \<Rightarrow> unit kcode" where
  "install_one tail =
     kbind (kget klog) (\<lambda>l.
     kbind (bread (log_dev l) (log_block l (tail + 1))) (\<lambda>lbuf.
     kbind (bread (log_dev l) (lh_block (log_lh l) ! tail)) (\<lambda>dbuf.
     kbind (get_buf lbuf) (\<lambda>lr.
     kdo [upd_buf dbuf (\<lambda>r. r\<lparr>b_data := b_data lr\<rparr>),
          bwrite dbuf,
          bunpin dbuf,
          brelse lbuf,
          brelse dbuf]
     (kret ())))))"

definition install_trans :: "unit kcode" where
  "install_trans = kbind (kget (\<lambda>s. lh_n (log_lh (klog s)))) (\<lambda>n. kfor [0..<nat n] install_one)"

text \<open>
  The header block of the log as bytes: \<^verbatim>\<open>int n\<close> and then \<^verbatim>\<open>int block[LOGSIZE]\<close>. A count above
  \<^verbatim>\<open>LOGSIZE\<close> on the disk makes the copy of \<^verbatim>\<open>read_head\<close> write past the end of \<^verbatim>\<open>log.lh.block\<close>, which
  is undefined.
\<close>

definition head_n :: "byte list \<Rightarrow> int" where
  "head_n bs = sint (get32 bs 0)"

definition head_block :: "byte list \<Rightarrow> nat \<Rightarrow> uint" where
  "head_block bs i = get32 bs (4 + 4 * i)"

definition read_head :: "unit kcode" where
  "read_head =
     kbind (kget klog) (\<lambda>l.
     kbind (bread (log_dev l) (log_block l 0)) (\<lambda>b.
     kbind (get_buf b) (\<lambda>r.
     let lh = b_data r in
     if int LOGSIZE < head_n lh then kpanic ''undefined: log.lh.block[i]'' else
     kdo [upd_lh (\<lambda>h. h\<lparr>lh_n := head_n lh\<rparr>),
          kfor [0..<nat (head_n lh)] (\<lambda>i.
            upd_lh (\<lambda>h. h\<lparr>lh_block := (lh_block h)[i := head_block lh i]\<rparr>)),
          brelse b]
     (kret ()))))"

primrec put_blocks :: "byte list \<Rightarrow> nat \<Rightarrow> uint list \<Rightarrow> byte list" where
  "put_blocks bs i [] = bs"
| "put_blocks bs i (x # xs) = put_blocks (put32 bs (4 + 4 * i) x) (Suc i) xs"

definition put_head :: "logheader \<Rightarrow> byte list \<Rightarrow> byte list" where
  "put_head h bs = put_blocks (put32 bs 0 (of_int (lh_n h))) 0 (take (nat (lh_n h)) (lh_block h))"

definition write_head :: "unit kcode" where
  "write_head =
     kbind (kget klog) (\<lambda>l.
     kbind (bread (log_dev l) (log_block l 0)) (\<lambda>b.
     kdo [upd_buf b (\<lambda>r. r\<lparr>b_data := put_head (log_lh l) (b_data r)\<rparr>),
          bwrite b,
          brelse b]
     (kret ())))"

definition recover_from_log :: "unit kcode" where
  "recover_from_log =
     kdo [read_head,
          install_trans,
          upd_lh (\<lambda>h. h\<lparr>lh_n := 0\<rparr>),
          write_head]
     (kret ())"

text \<open>\<^verbatim>\<open>sizeof(struct logheader)\<close> is \<open>4 + 4 * LOGSIZE\<close>.\<close>

definition initlog :: "uint \<Rightarrow> superblock \<Rightarrow> unit kcode" where
  "initlog dev sblk =
     (if BSIZE \<le> 4 + 4 * LOGSIZE then kpanic ''initlog: too big logheader'' else
      kdo [initlock LogLock ''log'',
           upd_log (\<lambda>l. l\<lparr>log_start := sint (sb_logstart sblk)\<rparr>),
           upd_log (\<lambda>l. l\<lparr>log_size := sint (sb_nlog sblk)\<rparr>),
           upd_log (\<lambda>l. l\<lparr>log_dev := dev\<rparr>),
           recover_from_log]
      (kret ()))"

definition begin_op :: "unit kcode" where
  "begin_op =
     kdo [acquire LogLock] (
     kwaitloop (
       kbind (kget klog) (\<lambda>l.
       if log_committing l then kdo [sleep ChanLog LogLock] (kret None)
       else if int LOGSIZE < lh_n (log_lh l) + (log_outstanding l + 1) * int MAXOPBLOCKS
       then kdo [sleep ChanLog LogLock] (kret None)
       else kdo [upd_log (\<lambda>l. l\<lparr>log_outstanding := log_outstanding l + 1\<rparr>),
                 release LogLock]
            (kret (Some ())))))"

definition write_log_one :: "nat \<Rightarrow> unit kcode" where
  "write_log_one tail =
     kbind (kget klog) (\<lambda>l.
     kbind (bread (log_dev l) (log_block l (tail + 1))) (\<lambda>to.
     kbind (bread (log_dev l) (lh_block (log_lh l) ! tail)) (\<lambda>from.
     kbind (get_buf from) (\<lambda>fr.
     kdo [upd_buf to (\<lambda>r. r\<lparr>b_data := b_data fr\<rparr>),
          bwrite to,
          brelse from,
          brelse to]
     (kret ())))))"

definition write_log :: "unit kcode" where
  "write_log = kbind (kget (\<lambda>s. lh_n (log_lh (klog s)))) (\<lambda>n. kfor [0..<nat n] write_log_one)"

definition commit :: "unit kcode" where
  "commit =
     kbind (kget (\<lambda>s. lh_n (log_lh (klog s)))) (\<lambda>n.
     kwhen (0 < n)
       (kdo [write_log,
             write_head,
             install_trans,
             upd_lh (\<lambda>h. h\<lparr>lh_n := 0\<rparr>),
             write_head]
        (kret ())))"

definition end_op :: "unit kcode" where
  "end_op =
     kdo [acquire LogLock,
          upd_log (\<lambda>l. l\<lparr>log_outstanding := log_outstanding l - 1\<rparr>)] (
     kbind (kget klog) (\<lambda>l.
     if log_committing l then kpanic ''log.committing'' else
     kdo [if log_outstanding l = 0 then upd_log (\<lambda>l. l\<lparr>log_committing := True\<rparr>)
          else wakeup ChanLog,
          release LogLock,
          kwhen (log_outstanding l = 0)
            (kdo [commit,
                  acquire LogLock,
                  upd_log (\<lambda>l. l\<lparr>log_committing := False\<rparr>),
                  wakeup ChanLog,
                  release LogLock]
             (kret ()))]
     (kret ())))"

text \<open>The position of the block in the header, or the count when it is not there.\<close>

definition log_slot :: "logheader \<Rightarrow> uint \<Rightarrow> nat" where
  "log_slot h bno =
     (case find_idx (\<lambda>x. x = bno) (take (nat (lh_n h)) (lh_block h)) of
        Some i \<Rightarrow> i | None \<Rightarrow> nat (lh_n h))"

definition log_write :: "nat \<Rightarrow> unit kcode" where
  "log_write b =
     kbind (kget klog) (\<lambda>l.
     if int LOGSIZE \<le> lh_n (log_lh l) \<or> log_size l - 1 \<le> lh_n (log_lh l)
     then kpanic ''too big a transaction''
     else if log_outstanding l < 1 then kpanic ''log_write outside of trans''
     else
     kdo [acquire LogLock] (
     kbind (get_buf b) (\<lambda>r.
     kbind (kget (\<lambda>s. log_lh (klog s))) (\<lambda>h.
     let i = log_slot h (b_blockno r) in
     kdo [upd_lh (\<lambda>h. h\<lparr>lh_block := (lh_block h)[i := b_blockno r]\<rparr>),
          kwhen (int i = lh_n h)
            (kdo [bpin b, upd_lh (\<lambda>h. h\<lparr>lh_n := lh_n h + 1\<rparr>)] (kret ())),
          release LogLock]
     (kret ())))))"

end
