(* ===== verification/Fs.thy ===== *)
theory Fs
  imports Log
begin

unbundle bit_operations_syntax

text \<open>
  \<^verbatim>\<open>kernel/fs.c\<close>: blocks, inodes, file contents, directories and path names, over the buffer cache
  and the log. An inode in memory is its index in \<^verbatim>\<open>icache.inode[]\<close>; on the disk it is a \<^verbatim>\<open>struct
  dinode\<close> of 64 bytes inside a block. A name is the array of bytes that the code passes; the string
  ends at the first zero byte or at the end of the array.
\<close>

section \<open>\<^verbatim>\<open>fs.h\<close>\<close>

definition ROOTINO :: uint where "ROOTINO = 1"
definition FSMAGIC :: uint where "FSMAGIC = 0x10203040"
definition NDIRECT :: nat where "NDIRECT = 12"
definition NINDIRECT :: nat where "NINDIRECT = 256"
definition MAXFILE :: nat where "MAXFILE = NDIRECT + NINDIRECT"
definition IPB :: uint where "IPB = 16"
definition BPB :: uint where "BPB = 8192"
definition DIRSIZ :: nat where "DIRSIZ = 14"
definition T_DIR :: "16 word" where "T_DIR = 1"
definition T_FILE :: "16 word" where "T_FILE = 2"
definition T_DEVICE :: "16 word" where "T_DEVICE = 3"

lemmas fs_defs = ROOTINO_def FSMAGIC_def NDIRECT_def NINDIRECT_def MAXFILE_def IPB_def BPB_def
  DIRSIZ_def T_DIR_def T_FILE_def T_DEVICE_def BSIZE_def

definition IBLOCK :: "uint \<Rightarrow> superblock \<Rightarrow> uint" where
  "IBLOCK i sblk = i div IPB + sb_inodestart sblk"

definition BBLOCK :: "uint \<Rightarrow> superblock \<Rightarrow> uint" where
  "BBLOCK b sblk = b div BPB + sb_bmapstart sblk"

definition superblock_of :: "byte list \<Rightarrow> superblock" where
  "superblock_of bs = \<lparr>sb_magic = get32 bs 0, sb_size = get32 bs 4, sb_nblocks = get32 bs 8,
     sb_ninodes = get32 bs 12, sb_nlog = get32 bs 16, sb_logstart = get32 bs 20,
     sb_inodestart = get32 bs 24, sb_bmapstart = get32 bs 28\<rparr>"

text \<open>The \<^verbatim>\<open>struct dinode\<close> at a byte offset: four shorts, the size, and thirteen block numbers.\<close>

definition dinode_of :: "byte list \<Rightarrow> nat \<Rightarrow> dinode" where
  "dinode_of bs off = \<lparr>d_type = get16 bs off, d_major = get16 bs (off + 2),
     d_minor = get16 bs (off + 4), d_nlink = get16 bs (off + 6), d_size = get32 bs (off + 8),
     d_addrs = map (\<lambda>i. get32 bs (off + 12 + 4 * i)) [0..<NDIRECT + 1]\<rparr>"

primrec put_addrs :: "byte list \<Rightarrow> nat \<Rightarrow> uint list \<Rightarrow> byte list" where
  "put_addrs bs off [] = bs"
| "put_addrs bs off (x # xs) = put_addrs (put32 bs off x) (off + 4) xs"

definition put_dinode :: "byte list \<Rightarrow> nat \<Rightarrow> dinode \<Rightarrow> byte list" where
  "put_dinode bs off d =
     put_addrs (put32 (put16 (put16 (put16 (put16 bs
       off (d_type d)) (off + 2) (d_major d)) (off + 4) (d_minor d)) (off + 6) (d_nlink d))
       (off + 8) (d_size d)) (off + 12) (d_addrs d)"

definition dinode_off :: "uint \<Rightarrow> nat" where
  "dinode_off inum = 64 * unat (inum mod IPB)"

section \<open>Super block and blocks\<close>

definition readsb :: "uint \<Rightarrow> unit kcode" where
  "readsb dev =
     kbind (bread dev 1) (\<lambda>bp.
     kbind (get_buf bp) (\<lambda>r.
     kdo [kmod (\<lambda>s. s\<lparr>sb := superblock_of (b_data r)\<rparr>),
          brelse bp]
     (kret ())))"

definition fsinit :: "uint \<Rightarrow> unit kcode" where
  "fsinit dev =
     kdo [readsb dev] (
     kbind (kget sb) (\<lambda>sblk.
     if sb_magic sblk \<noteq> FSMAGIC then kpanic ''invalid file system''
     else initlog dev sblk))"

definition bzero :: "uint \<Rightarrow> uint \<Rightarrow> unit kcode" where
  "bzero dev bno =
     kbind (bread dev bno) (\<lambda>bp.
     kdo [upd_buf bp (\<lambda>r. r\<lparr>b_data := replicate BSIZE 0\<rparr>),
          log_write bp,
          brelse bp]
     (kret ()))"

text \<open>The bit of block \<open>bi\<close> in a block of the free map.\<close>

definition bit_clear :: "byte list \<Rightarrow> nat \<Rightarrow> bool" where
  "bit_clear data bi \<longleftrightarrow> data ! (bi div 8) AND push_bit (bi mod 8) 1 = 0"

definition mark_used :: "byte list \<Rightarrow> nat \<Rightarrow> byte list" where
  "mark_used data bi = data[bi div 8 := data ! (bi div 8) OR push_bit (bi mod 8) 1]"

definition mark_free :: "byte list \<Rightarrow> nat \<Rightarrow> byte list" where
  "mark_free data bi = data[bi div 8 := data ! (bi div 8) AND NOT (push_bit (bi mod 8) 1)]"

text \<open>
  The outer loop of \<^verbatim>\<open>balloc\<close> over the blocks of the free map, with \<^verbatim>\<open>b\<close> the first block that each
  describes; the inner loop only reads, and is the search for the first clear bit.
\<close>

definition balloc_block :: "uint \<Rightarrow> nat \<Rightarrow> uint option kcode" where
  "balloc_block dev b =
     kbind (kget sb) (\<lambda>sblk.
     kbind (bread dev (BBLOCK (of_nat b) sblk)) (\<lambda>bp.
     kbind (get_buf bp) (\<lambda>r.
     case find (bit_clear (b_data r)) [0..<min (unat BPB) (unat (sb_size sblk) - b)] of
       Some bi \<Rightarrow>
         kdo [upd_buf bp (\<lambda>r. r\<lparr>b_data := mark_used (b_data r) bi\<rparr>),
              log_write bp,
              brelse bp,
              bzero dev (of_nat (b + bi))]
         (kret (Some (of_nat (b + bi))))
     | None \<Rightarrow> kdo [brelse bp] (kret None))))"

definition balloc :: "uint \<Rightarrow> uint kcode" where
  "balloc dev =
     kbind (kget sb) (\<lambda>sblk.
     kbind (kfind (map (\<lambda>k. k * unat BPB) [0..<(unat (sb_size sblk) + unat BPB - 1) div unat BPB])
             (balloc_block dev)) (\<lambda>r.
     case r of Some b \<Rightarrow> kret b | None \<Rightarrow> kpanic ''balloc: out of blocks''))"

definition bfree :: "uint \<Rightarrow> uint \<Rightarrow> unit kcode" where
  "bfree dev b =
     kbind (kget sb) (\<lambda>sblk.
     kbind (bread dev (BBLOCK b sblk)) (\<lambda>bp.
     kbind (get_buf bp) (\<lambda>r.
     let bi = unat (b mod BPB) in
     if bit_clear (b_data r) bi then kpanic ''freeing free block'' else
     kdo [upd_buf bp (\<lambda>r. r\<lparr>b_data := mark_free (b_data r) bi\<rparr>),
          log_write bp,
          brelse bp]
     (kret ()))))"

section \<open>Inodes\<close>

definition get_inode :: "nat \<Rightarrow> inode kcode" where
  "get_inode ip = kget (\<lambda>s. icache s ! ip)"

definition upd_inode :: "nat \<Rightarrow> (inode \<Rightarrow> inode) \<Rightarrow> unit kcode" where
  "upd_inode ip f = kmod (\<lambda>s. s\<lparr>icache := (icache s)[ip := f (icache s ! ip)]\<rparr>)"

lemma get_inode_apply [kapply]: "get_inode ip w s = Ret (icache s ! ip) s w"
  by (simp add: get_inode_def kapply)

lemma upd_inode_apply [kapply]:
  "upd_inode ip f w s = Ret () (s\<lparr>icache := (icache s)[ip := f (icache s ! ip)]\<rparr>) w"
  by (simp add: upd_inode_def kapply)

definition iinit :: "unit kcode" where
  "iinit =
     kdo [initlock IcacheLock ''icache'',
          kfor [0..<NINODE] (\<lambda>i. initsleeplock (InodeSL i) ''inode'')]
     (kret ())"

text \<open>
  \<^verbatim>\<open>iget\<close> scans the cache once: the entry of the inode, or else the first entry without references.
\<close>

definition iget :: "uint \<Rightarrow> uint \<Rightarrow> nat kcode" where
  "iget dev inum =
     kdo [acquire IcacheLock] (
     kbind (kget icache) (\<lambda>ics.
     case find_idx (\<lambda>ip. 0 < i_ref ip \<and> i_dev ip = dev \<and> i_inum ip = inum) ics of
       Some i \<Rightarrow>
         kdo [upd_inode i (\<lambda>ip. ip\<lparr>i_ref := i_ref ip + 1\<rparr>),
              release IcacheLock]
         (kret i)
     | None \<Rightarrow>
         (case find_idx (\<lambda>ip. i_ref ip = 0) ics of
            None \<Rightarrow> kpanic ''iget: no inodes''
          | Some i \<Rightarrow>
              kdo [upd_inode i (\<lambda>ip. ip\<lparr>i_dev := dev, i_inum := inum, i_ref := 1, i_valid := False\<rparr>),
                   release IcacheLock]
              (kret i))))"

definition ialloc_one :: "uint \<Rightarrow> 16 word \<Rightarrow> uint \<Rightarrow> nat option kcode" where
  "ialloc_one dev type inum =
     kbind (kget sb) (\<lambda>sblk.
     kbind (bread dev (IBLOCK inum sblk)) (\<lambda>bp.
     kbind (get_buf bp) (\<lambda>r.
     let off = dinode_off inum in
     if get16 (b_data r) off = 0 then
       kdo [upd_buf bp (\<lambda>r. r\<lparr>b_data := put16 (put_at (b_data r) off (replicate 64 0)) off type\<rparr>),
            log_write bp,
            brelse bp] (
       kbind (iget dev inum) (\<lambda>ip. kret (Some ip)))
     else kdo [brelse bp] (kret None))))"

definition ialloc :: "uint \<Rightarrow> 16 word \<Rightarrow> nat kcode" where
  "ialloc dev type =
     kbind (kget sb) (\<lambda>sblk.
     kbind (kfind (map of_nat [1..<unat (sb_ninodes sblk)]) (ialloc_one dev type)) (\<lambda>r.
     case r of Some ip \<Rightarrow> kret ip | None \<Rightarrow> kpanic ''ialloc: no inodes''))"

definition dinode_of_inode :: "inode \<Rightarrow> dinode" where
  "dinode_of_inode ip = \<lparr>d_type = i_type ip, d_major = i_major ip, d_minor = i_minor ip,
     d_nlink = i_nlink ip, d_size = i_size ip, d_addrs = i_addrs ip\<rparr>"

definition iupdate :: "nat \<Rightarrow> unit kcode" where
  "iupdate i =
     kbind (get_inode i) (\<lambda>ip.
     kbind (kget sb) (\<lambda>sblk.
     kbind (bread (i_dev ip) (IBLOCK (i_inum ip) sblk)) (\<lambda>bp.
     kdo [upd_buf bp (\<lambda>r. r\<lparr>b_data :=
            put_dinode (b_data r) (dinode_off (i_inum ip)) (dinode_of_inode ip)\<rparr>),
          log_write bp,
          brelse bp]
     (kret ()))))"

definition idup :: "nat \<Rightarrow> nat kcode" where
  "idup i =
     kdo [acquire IcacheLock,
          upd_inode i (\<lambda>ip. ip\<lparr>i_ref := i_ref ip + 1\<rparr>),
          release IcacheLock]
     (kret i)"

definition ilock :: "nat option \<Rightarrow> unit kcode" where
  "ilock ipp =
     (case ipp of None \<Rightarrow> kpanic ''ilock'' | Some i \<Rightarrow>
      kbind (get_inode i) (\<lambda>ip.
      if i_ref ip < 1 then kpanic ''ilock'' else
      kdo [acquiresleep (InodeSL i)] (
      kbind (get_inode i) (\<lambda>ip.
      if i_valid ip then kret () else
      kbind (kget sb) (\<lambda>sblk.
      kbind (bread (i_dev ip) (IBLOCK (i_inum ip) sblk)) (\<lambda>bp.
      kbind (get_buf bp) (\<lambda>r.
      let d = dinode_of (b_data r) (dinode_off (i_inum ip)) in
      kdo [upd_inode i (\<lambda>ip. ip\<lparr>i_type := d_type d, i_major := d_major d, i_minor := d_minor d,
             i_nlink := d_nlink d, i_size := d_size d, i_addrs := d_addrs d\<rparr>),
           brelse bp,
           upd_inode i (\<lambda>ip. ip\<lparr>i_valid := True\<rparr>)]
      (if d_type d = 0 then kpanic ''ilock: no type'' else kret ()))))))))"

definition iunlock :: "nat option \<Rightarrow> unit kcode" where
  "iunlock ipp =
     (case ipp of None \<Rightarrow> kpanic ''iunlock'' | Some i \<Rightarrow>
      kbind (holdingsleep (InodeSL i)) (\<lambda>h.
      if \<not> h then kpanic ''iunlock'' else
      kbind (get_inode i) (\<lambda>ip.
      if i_ref ip < 1 then kpanic ''iunlock'' else
      releasesleep (InodeSL i))))"

definition itrunc :: "nat \<Rightarrow> unit kcode" where
  "itrunc i =
     kdo [kfor [0..<NDIRECT] (\<lambda>k.
            kbind (get_inode i) (\<lambda>ip.
            kwhen (i_addrs ip ! k \<noteq> 0)
              (kdo [bfree (i_dev ip) (i_addrs ip ! k),
                    upd_inode i (\<lambda>ip. ip\<lparr>i_addrs := (i_addrs ip)[k := 0]\<rparr>)]
               (kret ())))),
          kbind (get_inode i) (\<lambda>ip.
          kwhen (i_addrs ip ! NDIRECT \<noteq> 0)
            (kbind (bread (i_dev ip) (i_addrs ip ! NDIRECT)) (\<lambda>bp.
             kdo [kfor [0..<NINDIRECT] (\<lambda>j.
                    kbind (get_buf bp) (\<lambda>r.
                    kwhen (get32 (b_data r) (4 * j) \<noteq> 0) (bfree (i_dev ip) (get32 (b_data r) (4 * j))))),
                  brelse bp,
                  bfree (i_dev ip) (i_addrs ip ! NDIRECT),
                  upd_inode i (\<lambda>ip. ip\<lparr>i_addrs := (i_addrs ip)[NDIRECT := 0]\<rparr>)]
             (kret ())))),
          upd_inode i (\<lambda>ip. ip\<lparr>i_size := 0\<rparr>)]
     (iupdate i)"

definition iput :: "nat \<Rightarrow> unit kcode" where
  "iput i =
     kdo [acquire IcacheLock] (
     kbind (get_inode i) (\<lambda>ip.
     kdo [kwhen (i_ref ip = 1 \<and> i_valid ip \<and> i_nlink ip = 0)
            (kdo [acquiresleep (InodeSL i),
                  release IcacheLock,
                  itrunc i,
                  upd_inode i (\<lambda>ip. ip\<lparr>i_type := 0\<rparr>),
                  iupdate i,
                  upd_inode i (\<lambda>ip. ip\<lparr>i_valid := False\<rparr>),
                  releasesleep (InodeSL i),
                  acquire IcacheLock]
             (kret ())),
          upd_inode i (\<lambda>ip. ip\<lparr>i_ref := i_ref ip - 1\<rparr>),
          release IcacheLock]
     (kret ())))"

definition iunlockput :: "nat \<Rightarrow> unit kcode" where
  "iunlockput i = kdo [iunlock (Some i), iput i] (kret ())"

section \<open>Contents\<close>

definition bmap :: "nat \<Rightarrow> uint \<Rightarrow> uint kcode" where
  "bmap i bn =
     kbind (get_inode i) (\<lambda>ip.
     if unat bn < NDIRECT then
       (let addr = i_addrs ip ! unat bn in
        if addr = 0 then
          kbind (balloc (i_dev ip)) (\<lambda>addr.
          kdo [upd_inode i (\<lambda>ip. ip\<lparr>i_addrs := (i_addrs ip)[unat bn := addr]\<rparr>)] (kret addr))
        else kret addr)
     else let bn = unat bn - NDIRECT in
     if bn < NINDIRECT then
       kbind (if i_addrs ip ! NDIRECT = 0
              then kbind (balloc (i_dev ip)) (\<lambda>addr.
                   kdo [upd_inode i (\<lambda>ip. ip\<lparr>i_addrs := (i_addrs ip)[NDIRECT := addr]\<rparr>)] (kret addr))
              else kret (i_addrs ip ! NDIRECT)) (\<lambda>addr.
       kbind (bread (i_dev ip) addr) (\<lambda>bp.
       kbind (get_buf bp) (\<lambda>r.
       kbind (if get32 (b_data r) (4 * bn) = 0
              then kbind (balloc (i_dev ip)) (\<lambda>addr.
                   kdo [upd_buf bp (\<lambda>r. r\<lparr>b_data := put32 (b_data r) (4 * bn) addr\<rparr>),
                        log_write bp] (kret addr))
              else kret (get32 (b_data r) (4 * bn))) (\<lambda>addr.
       kdo [brelse bp] (kret addr)))))
     else kpanic ''bmap: out of range'')"

record stat =
  st_dev :: uint
  st_ino :: uint
  st_type :: "16 word"
  st_nlink :: "16 word"
  st_size :: uint64

definition stati :: "nat \<Rightarrow> stat kcode" where
  "stati i = kbind (get_inode i) (\<lambda>ip.
     kret \<lparr>st_dev = i_dev ip, st_ino = i_inum ip, st_type = i_type ip, st_nlink = i_nlink ip,
           st_size = ucast (i_size ip)\<rparr>)"

text \<open>
  The loops of \<^verbatim>\<open>readi\<close> and \<^verbatim>\<open>writei\<close>. Each round moves at least one byte. \<^verbatim>\<open>readi\<close> returns the
  count and the bytes that it has copied.
\<close>

definition chunk :: "uint \<Rightarrow> uint \<Rightarrow> uint \<Rightarrow> uint" where
  "chunk n tot off = min (n - tot) (of_nat BSIZE - off mod of_nat BSIZE)"

primrec readi_loop :: "nat \<Rightarrow> nat \<Rightarrow> kdst \<Rightarrow> uint \<Rightarrow> uint \<Rightarrow> uint \<Rightarrow> byte list \<Rightarrow> (uint \<times> byte list) kcode"
  where
  "readi_loop 0 i dst off n tot acc = (\<lambda>w s. Blocked s)"
| "readi_loop (Suc fuel) i dst off n tot acc =
     (if \<not> tot < n then kret (tot, acc) else
      kbind (bmap i (off div of_nat BSIZE)) (\<lambda>bno.
      kbind (get_inode i) (\<lambda>ip.
      kbind (bread (i_dev ip) bno) (\<lambda>bp.
      kbind (get_buf bp) (\<lambda>r.
      let m = chunk n tot off;
          bs = take (unat m) (drop (unat (off mod of_nat BSIZE)) (b_data r)) in
      kbind (either_copyout dst bs) (\<lambda>e.
      if e = -1 then kdo [brelse bp] (kret (tot, acc))
      else kdo [brelse bp]
        (readi_loop fuel i (kdst_add dst (unat m)) (off + m) n (tot + m) (acc @ bs))))))))"

definition readi :: "nat \<Rightarrow> kdst \<Rightarrow> uint \<Rightarrow> uint \<Rightarrow> (int \<times> byte list) kcode" where
  "readi i dst off n =
     kbind (get_inode i) (\<lambda>ip.
     if i_size ip < off \<or> off + n < off then kret (0, []) else
     let n = (if i_size ip < off + n then i_size ip - off else n) in
     kbind (readi_loop (unat n + 1) i dst off n 0 []) (\<lambda>(tot, acc).
     kret (sint tot, acc)))"

text \<open>The loop of \<^verbatim>\<open>writei\<close> returns the offset that it has reached.\<close>

primrec writei_loop :: "nat \<Rightarrow> nat \<Rightarrow> ksrc \<Rightarrow> uint \<Rightarrow> uint \<Rightarrow> uint \<Rightarrow> uint kcode" where
  "writei_loop 0 i src off n tot = (\<lambda>w s. Blocked s)"
| "writei_loop (Suc fuel) i src off n tot =
     (if \<not> tot < n then kret off else
      kbind (bmap i (off div of_nat BSIZE)) (\<lambda>bno.
      kbind (get_inode i) (\<lambda>ip.
      kbind (bread (i_dev ip) bno) (\<lambda>bp.
      let m = chunk n tot off in
      kbind (either_copyin src (ucast m)) (\<lambda>(e, bs).
      kdo [upd_buf bp (\<lambda>r. r\<lparr>b_data := put_at (b_data r) (unat (off mod of_nat BSIZE)) bs\<rparr>)] (
      if e = -1 then kdo [brelse bp] (kret off)
      else kdo [log_write bp, brelse bp]
        (writei_loop fuel i (ksrc_add src (unat m)) (off + m) n (tot + m))))))))"

definition writei :: "nat \<Rightarrow> ksrc \<Rightarrow> uint \<Rightarrow> uint \<Rightarrow> int kcode" where
  "writei i src off n =
     kbind (get_inode i) (\<lambda>ip.
     if i_size ip < off \<or> off + n < off then kret (-1)
     else if of_nat (MAXFILE * BSIZE) < off + n then kret (-1) else
     kbind (writei_loop (unat n + 1) i src off n 0) (\<lambda>off.
     kdo [kwhen (0 < n)
            (kdo [upd_inode i (\<lambda>ip. if i_size ip < off then ip\<lparr>i_size := off\<rparr> else ip)] (iupdate i))]
     (kret (sint n))))"

section \<open>Directories\<close>

definition namecmp :: "byte list \<Rightarrow> byte list \<Rightarrow> int" where
  "namecmp s t = strncmp_buf DIRSIZ s t"

definition de_inum :: "byte list \<Rightarrow> 16 word" where
  "de_inum de = get16 de 0"

definition de_name :: "byte list \<Rightarrow> byte list" where
  "de_name de = take DIRSIZ (drop 2 de)"

text \<open>
  The scans over the entries of a directory, 16 bytes each. Their bound is the number of entries
  that a file of 32-bit size can have.
\<close>

primrec dirlookup_loop :: "nat \<Rightarrow> nat \<Rightarrow> byte list \<Rightarrow> uint \<Rightarrow> (nat \<times> uint) option kcode" where
  "dirlookup_loop 0 dp name off = (\<lambda>w s. Blocked s)"
| "dirlookup_loop (Suc fuel) dp name off =
     kbind (get_inode dp) (\<lambda>ip.
     if \<not> off < i_size ip then kret None else
     kbind (readi dp LocalDst off 16) (\<lambda>(r, de).
     if r \<noteq> 16 then kpanic ''dirlookup read''
     else if de_inum de = 0 then dirlookup_loop fuel dp name (off + 16)
     else if namecmp name (de_name de) = 0 then
       kbind (iget (i_dev ip) (ucast (de_inum de))) (\<lambda>i. kret (Some (i, off)))
     else dirlookup_loop fuel dp name (off + 16)))"

definition dirlookup :: "nat \<Rightarrow> byte list \<Rightarrow> (nat \<times> uint) option kcode" where
  "dirlookup dp name =
     kbind (get_inode dp) (\<lambda>ip.
     if i_type ip \<noteq> T_DIR then kpanic ''dirlookup not DIR''
     else dirlookup_loop (2 ^ 28 + 1) dp name 0)"

primrec dirlink_loop :: "nat \<Rightarrow> nat \<Rightarrow> uint \<Rightarrow> uint kcode" where
  "dirlink_loop 0 dp off = (\<lambda>w s. Blocked s)"
| "dirlink_loop (Suc fuel) dp off =
     kbind (get_inode dp) (\<lambda>ip.
     if \<not> off < i_size ip then kret off else
     kbind (readi dp LocalDst off 16) (\<lambda>(r, de).
     if r \<noteq> 16 then kpanic ''dirlink read''
     else if de_inum de = 0 then kret off
     else dirlink_loop fuel dp (off + 16)))"

definition mk_dirent :: "byte list \<Rightarrow> uint \<Rightarrow> byte list" where
  "mk_dirent name inum =
     le_bytes 2 (unat (ucast inum :: 16 word)) @ strncpy_buf (replicate DIRSIZ 0) name DIRSIZ"

definition dirlink :: "nat \<Rightarrow> byte list \<Rightarrow> uint \<Rightarrow> int kcode" where
  "dirlink dp name inum =
     kbind (dirlookup dp name) (\<lambda>r. case r of
       Some (ip, _) \<Rightarrow> kdo [iput ip] (kret (-1))
     | None \<Rightarrow>
         kbind (dirlink_loop (2 ^ 28 + 1) dp 0) (\<lambda>off.
         kbind (writei dp (LocalSrc (mk_dirent name inum)) off 16) (\<lambda>r.
         if r \<noteq> 16 then kpanic ''dirlink'' else kret 0)))"

section \<open>Path names\<close>

definition slash :: byte where "slash = 0x2f"

definition skip_slashes :: "byte list \<Rightarrow> byte list" where
  "skip_slashes path = dropWhile (\<lambda>c. c = slash) path"

definition path_end :: "byte list \<Rightarrow> bool" where
  "path_end path \<longleftrightarrow> (case path of [] \<Rightarrow> True | c # _ \<Rightarrow> c = 0)"

definition skipelem :: "byte list \<Rightarrow> byte list \<Rightarrow> (byte list \<times> byte list) option" where
  "skipelem path name =
     (let path = skip_slashes path in
      if path_end path then None else
      let s = takeWhile (\<lambda>c. c \<noteq> slash \<and> c \<noteq> 0) path;
          path = dropWhile (\<lambda>c. c \<noteq> slash \<and> c \<noteq> 0) path;
          name = (if DIRSIZ \<le> length s then overwrite name (take DIRSIZ s)
                  else overwrite name (s @ [0]))
      in Some (skip_slashes path, name))"

primrec namex_loop :: "nat \<Rightarrow> nat \<Rightarrow> byte list \<Rightarrow> bool \<Rightarrow> byte list \<Rightarrow> (nat \<times> byte list) option kcode" where
  "namex_loop 0 ip path parent name = (\<lambda>w s. Blocked s)"
| "namex_loop (Suc fuel) ip path parent name =
     (case skipelem path name of
        None \<Rightarrow> if parent then kdo [iput ip] (kret None) else kret (Some (ip, name))
      | Some (path, name) \<Rightarrow>
          kdo [ilock (Some ip)] (
          kbind (get_inode ip) (\<lambda>r.
          if i_type r \<noteq> T_DIR then kdo [iunlockput ip] (kret None)
          else if parent \<and> path_end path then kdo [iunlock (Some ip)] (kret (Some (ip, name)))
          else kbind (dirlookup ip name) (\<lambda>next. case next of
            None \<Rightarrow> kdo [iunlockput ip] (kret None)
          | Some (next, _) \<Rightarrow> kdo [iunlockput ip] (namex_loop fuel next path parent name)))))"

definition namex :: "byte list \<Rightarrow> bool \<Rightarrow> byte list \<Rightarrow> (nat \<times> byte list) option kcode" where
  "namex path parent name =
     kbind (if path \<noteq> [] \<and> hd path = slash then iget (of_nat ROOTDEV) ROOTINO
            else kbind curproc (\<lambda>p. kbind (get_proc p) (\<lambda>pr. kbind (kderef (p_cwd pr)) idup))) (\<lambda>ip.
     namex_loop (length path + 1) ip path parent name)"

definition namei :: "byte list \<Rightarrow> nat option kcode" where
  "namei path = kbind (namex path False (replicate DIRSIZ 0)) (\<lambda>r. kret (map_option fst r))"

definition nameiparent :: "byte list \<Rightarrow> byte list \<Rightarrow> (nat \<times> byte list) option kcode" where
  "nameiparent path name = namex path True name"

end
