(* ===== verification/Uart.thy ===== *)
theory Uart
  imports Proc
begin

unbundle bit_operations_syntax

text \<open>
  \<^verbatim>\<open>kernel/uart.c\<close> without \<^verbatim>\<open>uartintr()\<close> (which calls the console, see \<open>Console\<close>). The device is outside:
  what its status and receive registers will return is part of the state, and a read beyond what
  is given leaves the code waiting.
\<close>

section \<open>Registers\<close>

definition RHR :: nat where "RHR = 0"
definition THR :: nat where "THR = 0"
definition IER :: nat where "IER = 1"
definition IER_TX_ENABLE :: byte where "IER_TX_ENABLE = push_bit 0 1"
definition IER_RX_ENABLE :: byte where "IER_RX_ENABLE = push_bit 1 1"
definition FCR :: nat where "FCR = 2"
definition FCR_FIFO_ENABLE :: byte where "FCR_FIFO_ENABLE = push_bit 0 1"
definition FCR_FIFO_CLEAR :: byte where "FCR_FIFO_CLEAR = push_bit 1 3"
definition LCR :: nat where "LCR = 3"
definition LCR_EIGHT_BITS :: byte where "LCR_EIGHT_BITS = push_bit 0 3"
definition LCR_BAUD_LATCH :: byte where "LCR_BAUD_LATCH = push_bit 7 1"
definition LSR_RX_READY :: byte where "LSR_RX_READY = push_bit 0 1"
definition LSR_TX_IDLE :: byte where "LSR_TX_IDLE = push_bit 5 1"
definition UART_TX_BUF_SIZE :: int where "UART_TX_BUF_SIZE = 32"

definition ReadLSR :: "byte kcode" where
  "ReadLSR = (\<lambda>w s. case uart_lsr (kuart s) of
       [] \<Rightarrow> Blocked s
     | x # xs \<Rightarrow> Ret x (s\<lparr>kuart := (kuart s)\<lparr>uart_lsr := xs\<rparr>\<rparr>) w)"

definition ReadRHR :: "byte kcode" where
  "ReadRHR = (\<lambda>w s. case uart_rhr (kuart s) of
       [] \<Rightarrow> Blocked s
     | x # xs \<Rightarrow> Ret x (s\<lparr>kuart := (kuart s)\<lparr>uart_rhr := xs\<rparr>\<rparr>) w)"

definition WriteReg :: "nat \<Rightarrow> byte \<Rightarrow> unit kcode" where
  "WriteReg reg v = kmod (\<lambda>s. s\<lparr>kuart := (kuart s)\<lparr>uart_out := uart_out (kuart s) @ [(reg, v)]\<rparr>\<rparr>)"

definition upd_uart :: "(uart \<Rightarrow> uart) \<Rightarrow> unit kcode" where
  "upd_uart f = kmod (\<lambda>s. s\<lparr>kuart := f (kuart s)\<rparr>)"

lemma ReadLSR_apply [kapply]:
  "ReadLSR w s = (case uart_lsr (kuart s) of
       [] \<Rightarrow> Blocked s
     | x # xs \<Rightarrow> Ret x (s\<lparr>kuart := (kuart s)\<lparr>uart_lsr := xs\<rparr>\<rparr>) w)"
  by (simp add: ReadLSR_def)

lemma WriteReg_apply [kapply]:
  "WriteReg reg v w s =
     Ret () (s\<lparr>kuart := (kuart s)\<lparr>uart_out := uart_out (kuart s) @ [(reg, v)]\<rparr>\<rparr>) w"
  by (simp add: WriteReg_def kapply)

lemma upd_uart_apply [kapply]: "upd_uart f w s = Ret () (s\<lparr>kuart := f (kuart s)\<rparr>) w"
  by (simp add: upd_uart_def kapply)

section \<open>Code\<close>

definition uartinit :: "unit kcode" where
  "uartinit =
     kdo [WriteReg IER 0,
          WriteReg LCR LCR_BAUD_LATCH,
          WriteReg 0 3,
          WriteReg 1 0,
          WriteReg LCR LCR_EIGHT_BITS,
          WriteReg FCR (FCR_FIFO_ENABLE OR FCR_FIFO_CLEAR),
          WriteReg IER (IER_TX_ENABLE OR IER_RX_ENABLE),
          initlock UartTxLock ''uart'']
     (kret ())"

text \<open>
  The loop of \<^verbatim>\<open>uartstart\<close>: every round that goes on takes a character out of the ring, which has
  \<^verbatim>\<open>UART_TX_BUF_SIZE\<close> places.
\<close>

primrec uartstart_loop :: "nat \<Rightarrow> unit kcode" where
  "uartstart_loop 0 = (\<lambda>w s. Blocked s)"
| "uartstart_loop (Suc fuel) =
     kbind (kget kuart) (\<lambda>u.
     if uart_tx_w u = uart_tx_r u then kret () else
     kbind ReadLSR (\<lambda>lsr.
     if lsr AND LSR_TX_IDLE = 0 then kret () else
     let c = uart_tx_buf u ! nat (uart_tx_r u) in
     kdo [upd_uart (\<lambda>u. u\<lparr>uart_tx_r := (uart_tx_r u + 1) mod UART_TX_BUF_SIZE\<rparr>),
          wakeup ChanUartTx,
          WriteReg THR c]
     (uartstart_loop fuel)))"

definition uartstart :: "unit kcode" where
  "uartstart = uartstart_loop (nat UART_TX_BUF_SIZE)"

definition uartputc :: "byte \<Rightarrow> unit kcode" where
  "uartputc c =
     kdo [acquire UartTxLock] (
     kbind (kget panicked) (\<lambda>pan.
     if pan then (\<lambda>w s. Blocked s) else
     kwaitloop (
       kbind (kget kuart) (\<lambda>u.
       if (uart_tx_w u + 1) mod UART_TX_BUF_SIZE = uart_tx_r u
       then kdo [sleep ChanUartTx UartTxLock] (kret None)
       else
       kdo [upd_uart (\<lambda>u. u\<lparr>uart_tx_buf := (uart_tx_buf u)[nat (uart_tx_w u) := c]\<rparr>),
            upd_uart (\<lambda>u. u\<lparr>uart_tx_w := (uart_tx_w u + 1) mod UART_TX_BUF_SIZE\<rparr>),
            uartstart,
            release UartTxLock]
       (kret (Some ()))))))"

text \<open>The busy wait of \<^verbatim>\<open>uartputc_sync\<close> reads the status register until the device is idle.\<close>

fun wait_tx_idle :: "byte list \<Rightarrow> byte list option" where
  "wait_tx_idle [] = None"
| "wait_tx_idle (x # xs) = (if x AND LSR_TX_IDLE = 0 then wait_tx_idle xs else Some xs)"

definition uartputc_sync :: "byte \<Rightarrow> unit kcode" where
  "uartputc_sync c =
     kdo [push_off] (
     kbind (kget panicked) (\<lambda>pan.
     if pan then (\<lambda>w s. Blocked s) else
     kbind (kget kuart) (\<lambda>u. case wait_tx_idle (uart_lsr u) of
       None \<Rightarrow> (\<lambda>w s. Blocked (s\<lparr>kuart := u\<lparr>uart_lsr := []\<rparr>\<rparr>))
     | Some lsr \<Rightarrow>
         kdo [upd_uart (\<lambda>u. u\<lparr>uart_lsr := lsr\<rparr>),
              WriteReg THR c,
              pop_off]
         (kret ()))))"

definition uartgetc :: "int kcode" where
  "uartgetc =
     kbind ReadLSR (\<lambda>lsr.
     if lsr AND 1 \<noteq> 0 then kbind ReadRHR (\<lambda>c. kret (uint c)) else kret (-1))"

end
