(* ===== verification/Printf.thy ===== *)
theory Printf
  imports Uart
begin

unbundle bit_operations_syntax

text \<open>
  \<^verbatim>\<open>kernel/printf.c\<close> and \<^verbatim>\<open>consputc()\<close> of \<^verbatim>\<open>kernel/console.c\<close>. The arguments after the format are a list
  of values with their C types.
\<close>

section \<open>Code\<close>

definition BACKSPACE :: int where "BACKSPACE = 0x100"

definition chr :: "char \<Rightarrow> byte" where
  "chr c = of_char c"

definition bytes_of :: "string \<Rightarrow> byte list" where
  "bytes_of s = map chr s"

definition consputc :: "int \<Rightarrow> unit kcode" where
  "consputc c =
     (if c = BACKSPACE
      then kdo [uartputc_sync 8, uartputc_sync (chr CHR '' ''), uartputc_sync 8] (kret ())
      else uartputc_sync (of_int c))"

definition putb :: "byte \<Rightarrow> unit kcode" where
  "putb b = consputc (uint b)"

definition digits :: "byte list" where
  "digits = bytes_of ''0123456789abcdef''"

text \<open>
  The digits in the order in which the loop of \<^verbatim>\<open>printint\<close> stores them, lowest first. A 32-bit number
  has at most 32 of them in any base.
\<close>

primrec digit_loop :: "nat \<Rightarrow> nat \<Rightarrow> nat \<Rightarrow> byte list" where
  "digit_loop 0 base x = []"
| "digit_loop (Suc fuel) base x =
     digits ! (x mod base) # (if x div base \<noteq> 0 then digit_loop fuel base (x div base) else [])"

text \<open>
  The negation of the least \<^verbatim>\<open>int\<close> is undefined, and so is a store past the 16 bytes of \<^verbatim>\<open>buf\<close>.
\<close>

definition printint_buf :: "int \<Rightarrow> nat \<Rightarrow> bool \<Rightarrow> byte list option" where
  "printint_buf xx base sign =
     (let neg = (sign \<and> xx < 0);
          x = (if neg then of_int (- xx) else of_int xx) :: uint;
          buf = digit_loop 32 base (unat x) @ (if neg then [chr CHR ''-''] else [])
      in if neg \<and> 2 ^ 31 \<le> - xx then None
         else if 16 < length buf then None
         else Some buf)"

definition printint :: "int \<Rightarrow> nat \<Rightarrow> bool \<Rightarrow> unit kcode" where
  "printint xx base sign =
     (case printint_buf xx base sign of
        None \<Rightarrow> kpanic ''undefined: printint''
      | Some buf \<Rightarrow> kfor (rev buf) putb)"

definition printptr :: "uint64 \<Rightarrow> unit kcode" where
  "printptr x =
     kdo [putb (chr CHR ''0''), putb (chr CHR ''x''),
          kfor [0..<16] (\<lambda>i. putb (digits ! unat (drop_bit 60 (push_bit (4 * i) x))))]
     (kret ())"

datatype vararg = VInt int | VPtr uint64 | VStr "byte list option"

text \<open>
  The loop over the format. Fetching an argument of another type than the one passed is undefined.
\<close>

fun printf_loop :: "byte list \<Rightarrow> vararg list \<Rightarrow> unit kcode" where
  "printf_loop [] ap = kret ()"
| "printf_loop [c] ap =
     (if c = 0 then kret () else if c \<noteq> chr CHR ''%'' then putb c else kret ())"
| "printf_loop (c # d # fmt) ap =
     (if c = 0 then kret ()
      else if c \<noteq> chr CHR ''%'' then kdo [putb c] (printf_loop (d # fmt) ap)
      else if d = 0 then kret ()
      else if d = chr CHR ''d'' then
        (case ap of VInt x # ap' \<Rightarrow> kdo [printint x 10 True] (printf_loop fmt ap')
         | _ \<Rightarrow> kpanic ''undefined: va_arg'')
      else if d = chr CHR ''x'' then
        (case ap of VInt x # ap' \<Rightarrow> kdo [printint x 16 True] (printf_loop fmt ap')
         | _ \<Rightarrow> kpanic ''undefined: va_arg'')
      else if d = chr CHR ''p'' then
        (case ap of VPtr x # ap' \<Rightarrow> kdo [printptr x] (printf_loop fmt ap')
         | _ \<Rightarrow> kpanic ''undefined: va_arg'')
      else if d = chr CHR ''s'' then
        (case ap of
           VStr x # ap' \<Rightarrow>
             kdo [kfor (cstring (case x of None \<Rightarrow> bytes_of ''(null)'' | Some s \<Rightarrow> s)) putb]
             (printf_loop fmt ap')
         | _ \<Rightarrow> kpanic ''undefined: va_arg'')
      else if d = chr CHR ''%'' then kdo [putb (chr CHR ''%'')] (printf_loop fmt ap)
      else kdo [putb (chr CHR ''%''), putb d] (printf_loop fmt ap))"

definition printf :: "string \<Rightarrow> vararg list \<Rightarrow> unit kcode" where
  "printf fmt ap =
     kbind (kget pr_locking) (\<lambda>locking.
     kdo [kwhen locking (acquire PrLock),
          printf_loop (bytes_of fmt) ap,
          kwhen locking (release PrLock)]
     (kret ()))"

text \<open>What \<^verbatim>\<open>panic()\<close> does before it stops for good.\<close>

definition panic_print :: "string \<Rightarrow> unit kcode" where
  "panic_print msg =
     kdo [kmod (\<lambda>s. s\<lparr>pr_locking := False\<rparr>),
          printf ''panic: '' [],
          printf msg [],
          printf [CHR 0x0A] [],
          kmod (\<lambda>s. s\<lparr>panicked := True\<rparr>)]
     (\<lambda>w s. Blocked s)"

definition printfinit :: "unit kcode" where
  "printfinit = kdo [initlock PrLock ''pr'', kmod (\<lambda>s. s\<lparr>pr_locking := True\<rparr>)] (kret ())"

end
