(* ===== verification/Console.thy ===== *)
theory Console
  imports Printf
begin

text \<open>
  \<^verbatim>\<open>kernel/console.c\<close>, with \<^verbatim>\<open>procdump()\<close> of \<^verbatim>\<open>kernel/proc.c\<close> and \<^verbatim>\<open>uartintr()\<close> of \<^verbatim>\<open>kernel/uart.c\<close>: the
  input line editor and the ring between the interrupt handler and \<^verbatim>\<open>consoleread()\<close>.
\<close>

section \<open>Code\<close>

definition INPUT_BUF :: uint where "INPUT_BUF = 128"
definition CONSOLE :: nat where "CONSOLE = 1"

definition ctrl :: "char \<Rightarrow> int" where
  "ctrl x = of_char x - of_char CHR ''@''"

definition newline :: int where "newline = 10"

definition upd_cons :: "(cons \<Rightarrow> cons) \<Rightarrow> unit kcode" where
  "upd_cons f = kmod (\<lambda>s. s\<lparr>kcons := f (kcons s)\<rparr>)"

lemma upd_cons_apply [kapply]: "upd_cons f w s = Ret () (s\<lparr>kcons := f (kcons s)\<rparr>) w"
  by (simp add: upd_cons_def kapply)

primrec consolewrite_loop :: "nat \<Rightarrow> ksrc \<Rightarrow> int \<Rightarrow> int kcode" where
  "consolewrite_loop 0 src i = kret i"
| "consolewrite_loop (Suc n) src i =
     kbind (either_copyin src 1) (\<lambda>(e, bs).
     if e = -1 then kret i
     else kdo [uartputc (hd bs)] (consolewrite_loop n (ksrc_add src 1) (i + 1)))"

definition consolewrite :: "ksrc \<Rightarrow> int \<Rightarrow> int kcode" where
  "consolewrite src n =
     kdo [acquire ConsLock] (
     kbind (consolewrite_loop (nat n) src 0) (\<lambda>i.
     kdo [release ConsLock] (kret i)))"

definition cons_at :: "cons \<Rightarrow> uint \<Rightarrow> byte" where
  "cons_at c i = cons_buf c ! unat (i mod INPUT_BUF)"

text \<open>
  The loop of \<^verbatim>\<open>consoleread\<close>: \<open>Inl r\<close> when the call has already released the lock and returns \<open>r\<close>,
  \<open>Inr n\<close> when it leaves the loop with \<open>n\<close> bytes still wanted.
\<close>

primrec consoleread_loop :: "nat \<Rightarrow> nat \<Rightarrow> kdst \<Rightarrow> (int + nat) kcode" where
  "consoleread_loop target 0 dst = kret (Inr 0)"
| "consoleread_loop target (Suc n) dst =
     kbind (kwaitloop (
       kbind (kget kcons) (\<lambda>c.
       if cons_r c = cons_w c then
         kbind curproc (\<lambda>p. kbind (get_proc p) (\<lambda>pr.
         if p_killed pr then kdo [release ConsLock] (kret (Some False))
         else kdo [sleep ChanConsR ConsLock] (kret None)))
       else kret (Some True)))) (\<lambda>ready.
     if \<not> ready then kret (Inl (-1)) else
     kbind (kget kcons) (\<lambda>cs.
     let c = cons_at cs (cons_r cs) in
     kdo [upd_cons (\<lambda>cs. cs\<lparr>cons_r := cons_r cs + 1\<rparr>)] (
     if uint c = ctrl CHR ''D'' then
       kdo [kwhen (Suc n < target) (upd_cons (\<lambda>cs. cs\<lparr>cons_r := cons_r cs - 1\<rparr>))] (kret (Inr (Suc n)))
     else
     kbind (either_copyout dst [c]) (\<lambda>e.
     if e = -1 then kret (Inr (Suc n))
     else if uint c = newline then kret (Inr n)
     else consoleread_loop target n (kdst_add dst 1)))))"

definition consoleread :: "kdst \<Rightarrow> int \<Rightarrow> int kcode" where
  "consoleread dst n =
     kdo [acquire ConsLock] (
     kbind (consoleread_loop (nat n) (nat n) dst) (\<lambda>r. case r of
       Inl e \<Rightarrow> kret e
     | Inr left \<Rightarrow> kdo [release ConsLock] (kret (if 0 < n then n - int left else 0))))"

definition state_name :: "procstate \<Rightarrow> string" where
  "state_name st = (case st of UNUSED \<Rightarrow> ''unused'' | SLEEPING \<Rightarrow> ''sleep '' | RUNNABLE \<Rightarrow> ''runble''
     | RUNNING \<Rightarrow> ''run   '' | ZOMBIE \<Rightarrow> ''zombie'')"

definition procdump :: "unit kcode" where
  "procdump =
     kdo [printf [CHR 0x0A] [],
          kfor [0..<NPROC] (\<lambda>p.
            kbind (get_proc p) (\<lambda>pr.
            kwhen (p_state pr \<noteq> UNUSED)
              (kdo [printf ''%d %s %s'' [VInt (p_pid pr), VStr (Some (bytes_of (state_name (p_state pr)))),
                                         VStr (Some (p_name pr))],
                    printf [CHR 0x0A] []]
               (kret ()))))]
     (kret ())"

text \<open>The loop of \<^verbatim>\<open>^U\<close>: it stops at \<^verbatim>\<open>cons.w\<close> or at a newline; each round lowers \<^verbatim>\<open>cons.e\<close>.\<close>

primrec kill_line :: "nat \<Rightarrow> unit kcode" where
  "kill_line 0 = (\<lambda>w s. Blocked s)"
| "kill_line (Suc fuel) =
     kbind (kget kcons) (\<lambda>c.
     if cons_e c \<noteq> cons_w c \<and> uint (cons_at c (cons_e c - 1)) \<noteq> newline
     then kdo [upd_cons (\<lambda>c. c\<lparr>cons_e := cons_e c - 1\<rparr>), consputc BACKSPACE] (kill_line fuel)
     else kret ())"

definition consoleintr_default :: "int \<Rightarrow> unit kcode" where
  "consoleintr_default c =
     kbind (kget kcons) (\<lambda>cs.
     kwhen (c \<noteq> 0 \<and> cons_e cs - cons_r cs < INPUT_BUF)
       (let c = (if c = 13 then newline else c) in
        kdo [consputc c,
             upd_cons (\<lambda>cs. cs\<lparr>cons_buf := (cons_buf cs)[unat (cons_e cs mod INPUT_BUF) := of_int c],
                               cons_e := cons_e cs + 1\<rparr>)] (
        kbind (kget kcons) (\<lambda>cs.
        kwhen (c = newline \<or> c = ctrl CHR ''D'' \<or> cons_e cs = cons_r cs + INPUT_BUF)
          (kdo [upd_cons (\<lambda>cs. cs\<lparr>cons_w := cons_e cs\<rparr>),
                wakeup ChanConsR]
           (kret ()))))))"

definition consoleintr :: "int \<Rightarrow> unit kcode" where
  "consoleintr c =
     kdo [acquire ConsLock,
          if c = ctrl CHR ''P'' then procdump
          else if c = ctrl CHR ''U'' then
            kbind (kget kcons) (\<lambda>cs. kill_line (unat (cons_e cs - cons_w cs) + 1))
          else if c = ctrl CHR ''H'' \<or> c = 0x7f then
            kbind (kget kcons) (\<lambda>cs.
            kwhen (cons_e cs \<noteq> cons_w cs)
              (kdo [upd_cons (\<lambda>cs. cs\<lparr>cons_e := cons_e cs - 1\<rparr>), consputc BACKSPACE] (kret ())))
          else consoleintr_default c,
          release ConsLock]
     (kret ())"

definition consoleinit :: "unit kcode" where
  "consoleinit =
     kdo [initlock ConsLock ''cons'',
          uartinit,
          kmod (\<lambda>s. s\<lparr>kdevsw := (kdevsw s)[CONSOLE := \<lparr>dv_read = Some Fn_consoleread,
                                                     dv_write = Some Fn_consolewrite\<rparr>]\<rparr>)]
     (kret ())"

text \<open>
  The input loop of \<^verbatim>\<open>uartintr\<close> reads the status register once per round, so the values that it will
  return bound the number of rounds.
\<close>

primrec uartintr_loop :: "nat \<Rightarrow> unit kcode" where
  "uartintr_loop 0 = (\<lambda>w s. Blocked s)"
| "uartintr_loop (Suc fuel) =
     kbind uartgetc (\<lambda>c. if c = -1 then kret () else kdo [consoleintr c] (uartintr_loop fuel))"

definition uartintr :: "unit kcode" where
  "uartintr =
     kbind (kget (\<lambda>s. length (uart_lsr (kuart s)))) (\<lambda>n.
     kdo [uartintr_loop (n + 1),
          acquire UartTxLock,
          uartstart,
          release UartTxLock]
     (kret ()))"

end
