(* ===== verification/File.thy ===== *)
theory File
  imports Fs Console
begin

unbundle bit_operations_syntax

text \<open>
  \<^verbatim>\<open>kernel/pipe.c\<close> and \<^verbatim>\<open>kernel/file.c\<close>, which call each other. A \<^verbatim>\<open>struct file *\<close> is an index in
  \<^verbatim>\<open>ftable.file[]\<close>; a pipe is the address of its page, and its fields are in the map \<open>pipes\<close>.
\<close>

section \<open>Pipes: waiting, reading and writing\<close>

definition PIPESIZE :: uint where "PIPESIZE = 512"

definition get_pipe :: "addr \<Rightarrow> pipe kcode" where
  "get_pipe pi = kget (\<lambda>s. pipes s pi)"

definition upd_pipe :: "addr \<Rightarrow> (pipe \<Rightarrow> pipe) \<Rightarrow> unit kcode" where
  "upd_pipe pi f = kmod (\<lambda>s. s\<lparr>pipes := (pipes s)(pi := f (pipes s pi))\<rparr>)"

lemma get_pipe_apply [kapply]: "get_pipe pi w s = Ret (pipes s pi) s w"
  by (simp add: get_pipe_def kapply)

lemma upd_pipe_apply [kapply]:
  "upd_pipe pi f w s = Ret () (s\<lparr>pipes := (pipes s)(pi := f (pipes s pi))\<rparr>) w"
  by (simp add: upd_pipe_def kapply)

text \<open>The two statements that move a byte in and out of the ring.\<close>

definition pipe_put :: "byte \<Rightarrow> pipe \<Rightarrow> pipe" where
  "pipe_put ch r = r\<lparr>pi_data := (pi_data r)[unat (pi_nwrite r mod PIPESIZE) := ch],
                     pi_nwrite := pi_nwrite r + 1\<rparr>"

definition pipe_peek :: "pipe \<Rightarrow> byte" where
  "pipe_peek r = pi_data r ! unat (pi_nread r mod PIPESIZE)"

definition pipe_take :: "pipe \<Rightarrow> pipe" where
  "pipe_take r = r\<lparr>pi_nread := pi_nread r + 1\<rparr>"

definition pipeclose :: "addr \<Rightarrow> bool \<Rightarrow> unit kcode" where
  "pipeclose pi writable =
     kdo [acquire (PipeLock pi),
          if writable
          then kdo [upd_pipe pi (\<lambda>r. r\<lparr>pi_writeopen := False\<rparr>), wakeup (ChanPipeRead pi)] (kret ())
          else kdo [upd_pipe pi (\<lambda>r. r\<lparr>pi_readopen := False\<rparr>), wakeup (ChanPipeWrite pi)] (kret ())] (
     kbind (get_pipe pi) (\<lambda>r.
     if \<not> pi_readopen r \<and> \<not> pi_writeopen r
     then kdo [release (PipeLock pi), kfree pi] (kret ())
     else release (PipeLock pi)))"

text \<open>
  The wait for room before each byte: it yields \<open>False\<close> when the call has released the lock and
  returns -1.
\<close>

definition pipewrite_wait :: "addr \<Rightarrow> nat \<Rightarrow> bool kcode" where
  "pipewrite_wait pi pr =
     kwaitloop (
       kbind (get_pipe pi) (\<lambda>r.
       if pi_nwrite r = pi_nread r + PIPESIZE then
         kbind (get_proc pr) (\<lambda>p.
         if \<not> pi_readopen r \<or> p_killed p then kdo [release (PipeLock pi)] (kret (Some False))
         else kdo [wakeup (ChanPipeRead pi), sleep (ChanPipeWrite pi) (PipeLock pi)] (kret None))
       else kret (Some True)))"

text \<open>\<open>None\<close>: the call returns -1 and the lock is no longer held.\<close>

primrec pipewrite_loop :: "nat \<Rightarrow> addr \<Rightarrow> nat \<Rightarrow> addr \<Rightarrow> int \<Rightarrow> int option kcode" where
  "pipewrite_loop 0 pi pr addr i = kret (Some i)"
| "pipewrite_loop (Suc n) pi pr addr i =
     kbind (pipewrite_wait pi pr) (\<lambda>ok.
     if \<not> ok then kret None else
     kbind (get_proc pr) (\<lambda>p.
     kbind (copyin (p_pagetable p) (addr + of_int i) 1) (\<lambda>(e, bs).
     if e = -1 then kret (Some i) else
     kdo [upd_pipe pi (pipe_put (hd bs))]
     (pipewrite_loop n pi pr addr (i + 1)))))"

definition pipewrite :: "addr \<Rightarrow> addr \<Rightarrow> int \<Rightarrow> int kcode" where
  "pipewrite pi addr n =
     kbind curproc (\<lambda>pr.
     kdo [acquire (PipeLock pi)] (
     kbind (pipewrite_loop (nat n) pi pr addr 0) (\<lambda>r. case r of
       None \<Rightarrow> kret (-1)
     | Some i \<Rightarrow> kdo [wakeup (ChanPipeRead pi), release (PipeLock pi)] (kret i))))"

definition piperead_wait :: "addr \<Rightarrow> nat \<Rightarrow> bool kcode" where
  "piperead_wait pi pr =
     kwaitloop (
       kbind (get_pipe pi) (\<lambda>r.
       if pi_nread r = pi_nwrite r \<and> pi_writeopen r then
         kbind (get_proc pr) (\<lambda>p.
         if p_killed p then kdo [release (PipeLock pi)] (kret (Some False))
         else kdo [sleep (ChanPipeRead pi) (PipeLock pi)] (kret None))
       else kret (Some True)))"

primrec piperead_loop :: "nat \<Rightarrow> addr \<Rightarrow> nat \<Rightarrow> addr \<Rightarrow> int \<Rightarrow> int kcode" where
  "piperead_loop 0 pi pr addr i = kret i"
| "piperead_loop (Suc n) pi pr addr i =
     kbind (get_pipe pi) (\<lambda>r.
     if pi_nread r = pi_nwrite r then kret i else
     kdo [upd_pipe pi pipe_take] (
     kbind (get_proc pr) (\<lambda>p.
     kbind (copyout (p_pagetable p) (addr + of_int i) [pipe_peek r]) (\<lambda>e.
     if e = -1 then kret i
     else piperead_loop n pi pr addr (i + 1)))))"

definition piperead :: "addr \<Rightarrow> addr \<Rightarrow> int \<Rightarrow> int kcode" where
  "piperead pi addr n =
     kbind curproc (\<lambda>pr.
     kdo [acquire (PipeLock pi)] (
     kbind (piperead_wait pi pr) (\<lambda>ok.
     if \<not> ok then kret (-1) else
     kbind (piperead_loop (nat n) pi pr addr 0) (\<lambda>i.
     kdo [wakeup (ChanPipeWrite pi), release (PipeLock pi)] (kret i)))))"

section \<open>The file table\<close>

definition get_file :: "nat \<Rightarrow> kfile kcode" where
  "get_file f = kget (\<lambda>s. ftable s ! f)"

definition upd_file :: "nat \<Rightarrow> (kfile \<Rightarrow> kfile) \<Rightarrow> unit kcode" where
  "upd_file f g = kmod (\<lambda>s. s\<lparr>ftable := (ftable s)[f := g (ftable s ! f)]\<rparr>)"

lemma get_file_apply [kapply]: "get_file f w s = Ret (ftable s ! f) s w"
  by (simp add: get_file_def kapply)

lemma upd_file_apply [kapply]:
  "upd_file f g w s = Ret () (s\<lparr>ftable := (ftable s)[f := g (ftable s ! f)]\<rparr>) w"
  by (simp add: upd_file_def kapply)

definition fileinit :: "unit kcode" where
  "fileinit = initlock FtableLock ''ftable''"

definition filealloc :: "nat option kcode" where
  "filealloc =
     kdo [acquire FtableLock] (
     kbind (kget ftable) (\<lambda>fs. case find_idx (\<lambda>f. f_ref f = 0) fs of
       Some f \<Rightarrow>
         kdo [upd_file f (\<lambda>r. r\<lparr>f_ref := 1\<rparr>),
              release FtableLock]
         (kret (Some f))
     | None \<Rightarrow> kdo [release FtableLock] (kret None)))"

definition filedup :: "nat \<Rightarrow> nat kcode" where
  "filedup f =
     kdo [acquire FtableLock] (
     kbind (get_file f) (\<lambda>r.
     if f_ref r < 1 then kpanic ''filedup'' else
     kdo [upd_file f (\<lambda>r. r\<lparr>f_ref := f_ref r + 1\<rparr>),
          release FtableLock]
     (kret f)))"

definition fileclose :: "nat \<Rightarrow> unit kcode" where
  "fileclose f =
     kdo [acquire FtableLock] (
     kbind (get_file f) (\<lambda>r.
     if f_ref r < 1 then kpanic ''fileclose'' else
     kdo [upd_file f (\<lambda>r. r\<lparr>f_ref := f_ref r - 1\<rparr>)] (
     kbind (get_file f) (\<lambda>ff.
     if 0 < f_ref ff then release FtableLock else
     kdo [upd_file f (\<lambda>r. r\<lparr>f_ref := 0, f_type := FD_NONE\<rparr>),
          release FtableLock] (
     if f_type ff = FD_PIPE then pipeclose (f_pipe ff) (f_writable ff)
     else if f_type ff = FD_INODE \<or> f_type ff = FD_DEVICE then
       kdo [begin_op] (
       kbind (kderef (f_ip ff)) (\<lambda>ip.
       kdo [iput ip, end_op] (kret ())))
     else kret ())))))"

text \<open>
  \<^verbatim>\<open>struct stat\<close> as the bytes that are copied to the user: four bytes of padding before the size are
  whatever the stack held.
\<close>

definition stat_bytes :: "(nat \<Rightarrow> byte) \<Rightarrow> stat \<Rightarrow> byte list" where
  "stat_bytes pad st =
     le_bytes 4 (unat (st_dev st)) @ le_bytes 4 (unat (st_ino st)) @ le_bytes 2 (unat (st_type st)) @
     le_bytes 2 (unat (st_nlink st)) @ map pad [0..<4] @ le_bytes 8 (unat (st_size st))"

definition filestat :: "nat \<Rightarrow> addr \<Rightarrow> int kcode" where
  "filestat f addr =
     kbind curproc (\<lambda>p.
     kbind (get_file f) (\<lambda>r.
     if f_type r = FD_INODE \<or> f_type r = FD_DEVICE then
       kdo [ilock (f_ip r)] (
       kbind (kderef (f_ip r)) (\<lambda>ip.
       kbind (stati ip) (\<lambda>st.
       kdo [iunlock (f_ip r)] (
       kbind (get_proc p) (\<lambda>pr.
       kbind (kget junk) (\<lambda>pad.
       kbind (copyout (p_pagetable pr) addr (stat_bytes pad st)) (\<lambda>e.
       if e < 0 then kret (-1) else kret 0)))))))
     else kret (-1)))"

definition devread :: "16 word \<Rightarrow> addr \<Rightarrow> int \<Rightarrow> int kcode" where
  "devread major addr n =
     (if sint major < 0 \<or> int NDEV \<le> sint major then kret (-1) else
      kbind (kget (\<lambda>s. dv_read (kdevsw s ! unat major))) (\<lambda>fn. case fn of
        None \<Rightarrow> kret (-1)
      | Some Fn_consoleread \<Rightarrow> consoleread (UserDst addr) n
      | Some Fn_consolewrite \<Rightarrow> consolewrite (UserSrc addr) n))"

definition devwrite :: "16 word \<Rightarrow> addr \<Rightarrow> int \<Rightarrow> int kcode" where
  "devwrite major addr n =
     (if sint major < 0 \<or> int NDEV \<le> sint major then kret (-1) else
      kbind (kget (\<lambda>s. dv_write (kdevsw s ! unat major))) (\<lambda>fn. case fn of
        None \<Rightarrow> kret (-1)
      | Some Fn_consoleread \<Rightarrow> consoleread (UserDst addr) n
      | Some Fn_consolewrite \<Rightarrow> consolewrite (UserSrc addr) n))"

definition fileread :: "nat \<Rightarrow> addr \<Rightarrow> int \<Rightarrow> int kcode" where
  "fileread f addr n =
     kbind (get_file f) (\<lambda>r.
     if \<not> f_readable r then kret (-1)
     else if f_type r = FD_PIPE then piperead (f_pipe r) addr n
     else if f_type r = FD_DEVICE then devread (f_major r) addr n
     else if f_type r = FD_INODE then
       kdo [ilock (f_ip r)] (
       kbind (kderef (f_ip r)) (\<lambda>ip.
       kbind (readi ip (UserDst addr) (f_off r) (of_int n)) (\<lambda>(got, _).
       kdo [kwhen (0 < got) (upd_file f (\<lambda>r. r\<lparr>f_off := f_off r + of_int got\<rparr>)),
            iunlock (f_ip r)]
       (kret got))))
     else kpanic ''fileread'')"

text \<open>
  The loop of \<^verbatim>\<open>filewrite\<close>: each round that goes on writes at least one byte. It yields the count
  written when it ends.
\<close>

definition WMAX :: int where
  "WMAX = (int MAXOPBLOCKS - 1 - 1 - 2) div 2 * int BSIZE"

primrec filewrite_loop :: "nat \<Rightarrow> nat \<Rightarrow> nat \<Rightarrow> addr \<Rightarrow> int \<Rightarrow> int \<Rightarrow> int kcode" where
  "filewrite_loop 0 f ip addr n i = (\<lambda>w s. Blocked s)"
| "filewrite_loop (Suc fuel) f ip addr n i =
     (if \<not> i < n then kret i else
      let n1 = min (n - i) WMAX in
      kdo [begin_op, ilock (Some ip)] (
      kbind (get_file f) (\<lambda>fr.
      kbind (writei ip (UserSrc (addr + of_int i)) (f_off fr) (of_int n1)) (\<lambda>r.
      kdo [kwhen (0 < r) (upd_file f (\<lambda>fr. fr\<lparr>f_off := f_off fr + of_int r\<rparr>)),
           iunlock (Some ip),
           end_op] (
      if r < 0 then kret i
      else if r \<noteq> n1 then kpanic ''short filewrite''
      else filewrite_loop fuel f ip addr n (i + r))))))"

definition filewrite :: "nat \<Rightarrow> addr \<Rightarrow> int \<Rightarrow> int kcode" where
  "filewrite f addr n =
     kbind (get_file f) (\<lambda>r.
     if \<not> f_writable r then kret (-1)
     else if f_type r = FD_PIPE then pipewrite (f_pipe r) addr n
     else if f_type r = FD_DEVICE then devwrite (f_major r) addr n
     else if f_type r = FD_INODE then
       kbind (kderef (f_ip r)) (\<lambda>ip.
       kbind (filewrite_loop (nat n + 1) f ip addr n 0) (\<lambda>i.
       kret (if i = n then n else -1)))
     else kpanic ''filewrite'')"

section \<open>Making a pipe\<close>

definition pipealloc_bad :: "addr \<Rightarrow> nat option \<Rightarrow> nat option \<Rightarrow> (nat \<times> nat) option kcode" where
  "pipealloc_bad pi f0 f1 =
     kdo [kwhen (pi \<noteq> 0) (kfree pi),
          case f0 of None \<Rightarrow> kret () | Some f \<Rightarrow> fileclose f,
          case f1 of None \<Rightarrow> kret () | Some f \<Rightarrow> fileclose f]
     (kret None)"

definition pipealloc :: "(nat \<times> nat) option kcode" where
  "pipealloc =
     kbind filealloc (\<lambda>f0. case f0 of
       None \<Rightarrow> pipealloc_bad 0 None None
     | Some r \<Rightarrow>
         kbind filealloc (\<lambda>f1. case f1 of
           None \<Rightarrow> pipealloc_bad 0 f0 None
         | Some v \<Rightarrow>
             kbind kalloc (\<lambda>pi.
             if pi = 0 then pipealloc_bad 0 f0 f1 else
             kdo [upd_pipe pi (\<lambda>p. p\<lparr>pi_readopen := True\<rparr>),
                  upd_pipe pi (\<lambda>p. p\<lparr>pi_writeopen := True\<rparr>),
                  upd_pipe pi (\<lambda>p. p\<lparr>pi_nwrite := 0\<rparr>),
                  upd_pipe pi (\<lambda>p. p\<lparr>pi_nread := 0\<rparr>),
                  initlock (PipeLock pi) ''pipe'',
                  upd_file r (\<lambda>f. f\<lparr>f_type := FD_PIPE, f_readable := True, f_writable := False, f_pipe := pi\<rparr>),
                  upd_file v (\<lambda>f. f\<lparr>f_type := FD_PIPE, f_readable := False, f_writable := True, f_pipe := pi\<rparr>)]
             (kret (Some (r, v))))))"

end
