(* ===== verification/Process.thy ===== *)
theory Process
  imports File
begin

unbundle bit_operations_syntax

text \<open>
  The functions of \<^verbatim>\<open>kernel/proc.c\<close> that need the file system: \<^verbatim>\<open>userinit\<close>, \<^verbatim>\<open>fork\<close> and \<^verbatim>\<open>exit\<close>; and
  \<^verbatim>\<open>kernel/exec.c\<close>.
\<close>

section \<open>Code of \<^verbatim>\<open>proc.c\<close>\<close>

definition initcode :: "byte list" where
  "initcode = [
     0x17, 0x05, 0x00, 0x00, 0x13, 0x05, 0x45, 0x02,
     0x97, 0x05, 0x00, 0x00, 0x93, 0x85, 0x35, 0x02,
     0x93, 0x08, 0x70, 0x00, 0x73, 0x00, 0x00, 0x00,
     0x93, 0x08, 0x20, 0x00, 0x73, 0x00, 0x00, 0x00,
     0xef, 0xf0, 0x9f, 0xff, 0x2f, 0x69, 0x6e, 0x69,
     0x74, 0x00, 0x00, 0x24, 0x00, 0x00, 0x00, 0x00,
     0x00, 0x00, 0x00, 0x00]"

definition userinit :: "unit kcode" where
  "userinit =
     kbind allocproc (\<lambda>pp.
     kdo [kmod (\<lambda>s. s\<lparr>initproc := pp\<rparr>)] (
     kbind (kderef pp) (\<lambda>p.
     kbind (get_proc p) (\<lambda>pr.
     kdo [uvminit (p_pagetable pr) initcode (of_nat (length initcode)),
          upd_proc p (\<lambda>r. r\<lparr>p_sz := PGSIZE\<rparr>),
          kstore (p_trapframe pr + TF_epc) 0,
          kstore (p_trapframe pr + TF_sp) PGSIZE,
          upd_proc p (\<lambda>r. r\<lparr>p_name := safestrcpy_buf (p_name r) (bytes_of ''initcode'') 16\<rparr>)] (
     kbind (namei [slash]) (\<lambda>ip.
     kdo [upd_proc p (\<lambda>r. r\<lparr>p_cwd := ip\<rparr>),
          upd_proc p (\<lambda>r. r\<lparr>p_state := RUNNABLE\<rparr>),
          release (ProcLock p)]
     (kret ())))))))"

definition fork :: "int kcode" where
  "fork =
     kbind curproc (\<lambda>p.
     kbind allocproc (\<lambda>npp. case npp of
       None \<Rightarrow> kret (-1)
     | Some np \<Rightarrow>
         kbind (get_proc p) (\<lambda>pr.
         kbind (get_proc np) (\<lambda>npr.
         kbind (uvmcopy (p_pagetable pr) (p_pagetable npr) (p_sz pr)) (\<lambda>r.
         if r < 0 then kdo [freeproc np, release (ProcLock np)] (kret (-1)) else
         kdo [upd_proc np (\<lambda>q. q\<lparr>p_sz := p_sz pr\<rparr>),
              upd_proc np (\<lambda>q. q\<lparr>p_parent := Some p\<rparr>),
              kmod (\<lambda>s. s\<lparr>pmem := writebytes (pmem s) (p_trapframe npr)
                                    (readbytes (pmem s) (p_trapframe pr) TF_size)\<rparr>),
              kstore (p_trapframe npr + TF_a0) 0,
              kfor [0..<NOFILE] (\<lambda>i.
                kbind (get_proc p) (\<lambda>pr. case p_ofile pr ! i of
                  None \<Rightarrow> kret ()
                | Some f \<Rightarrow> kbind (filedup f) (\<lambda>f'.
                    upd_proc np (\<lambda>q. q\<lparr>p_ofile := (p_ofile q)[i := Some f']\<rparr>)))),
              kbind (kderef (p_cwd pr)) (\<lambda>cwd.
                kbind (idup cwd) (\<lambda>ip. upd_proc np (\<lambda>q. q\<lparr>p_cwd := Some ip\<rparr>))),
              upd_proc np (\<lambda>q. q\<lparr>p_name := safestrcpy_buf (p_name q) (p_name pr) 16\<rparr>)] (
         kbind (get_proc np) (\<lambda>npr.
         kdo [upd_proc np (\<lambda>q. q\<lparr>p_state := RUNNABLE\<rparr>),
              release (ProcLock np)]
         (kret (p_pid npr)))))))))"

definition exit :: "int \<Rightarrow> unit kcode" where
  "exit status =
     kbind curproc (\<lambda>p.
     kbind (kget initproc) (\<lambda>init.
     if init = Some p then kpanic ''init exiting'' else
     kdo [kfor [0..<NOFILE] (\<lambda>fd.
            kbind (get_proc p) (\<lambda>pr. case p_ofile pr ! fd of
              None \<Rightarrow> kret ()
            | Some f \<Rightarrow>
                kdo [fileclose f,
                     upd_proc p (\<lambda>r. r\<lparr>p_ofile := (p_ofile r)[fd := None]\<rparr>)]
                (kret ()))),
          begin_op,
          kbind (get_proc p) (\<lambda>pr. kbind (kderef (p_cwd pr)) iput),
          end_op,
          upd_proc p (\<lambda>r. r\<lparr>p_cwd := None\<rparr>)] (
     kbind (kderef init) (\<lambda>ini.
     kdo [acquire (ProcLock ini),
          wakeup1 ini,
          release (ProcLock ini),
          acquire (ProcLock p)] (
     kbind (get_proc p) (\<lambda>pr.
     kdo [release (ProcLock p)] (
     kbind (kderef (p_parent pr)) (\<lambda>original_parent.
     kdo [acquire (ProcLock original_parent),
          acquire (ProcLock p),
          reparent p,
          wakeup1 original_parent,
          upd_proc p (\<lambda>r. r\<lparr>p_xstate := status\<rparr>),
          upd_proc p (\<lambda>r. r\<lparr>p_state := ZOMBIE\<rparr>),
          release (ProcLock original_parent),
          sched]
     (kpanic ''zombie exit'')))))))))"

section \<open>Code of \<^verbatim>\<open>exec.c\<close>\<close>

definition ELF_MAGIC :: uint where "ELF_MAGIC = 0x464C457F"
definition ELF_PROG_LOAD :: uint where "ELF_PROG_LOAD = 1"

text \<open>\<^verbatim>\<open>struct elfhdr\<close> is 64 bytes and \<^verbatim>\<open>struct proghdr\<close> 56.\<close>

record elfhdr =
  elf_magic :: uint
  elf_entry :: uint64
  elf_phoff :: uint64
  elf_phnum :: "16 word"

record proghdr =
  ph_type :: uint
  ph_off :: uint64
  ph_vaddr :: uint64
  ph_filesz :: uint64
  ph_memsz :: uint64

definition elfhdr_of :: "byte list \<Rightarrow> elfhdr" where
  "elfhdr_of bs = \<lparr>elf_magic = get32 bs 0, elf_entry = get64 bs 24, elf_phoff = get64 bs 32,
     elf_phnum = get16 bs 56\<rparr>"

definition proghdr_of :: "byte list \<Rightarrow> proghdr" where
  "proghdr_of bs = \<lparr>ph_type = get32 bs 0, ph_off = get64 bs 8, ph_vaddr = get64 bs 16,
     ph_filesz = get64 bs 32, ph_memsz = get64 bs 40\<rparr>"

text \<open>The loop of \<^verbatim>\<open>loadseg\<close>, one round per page of the segment.\<close>

primrec loadseg_loop :: "nat \<Rightarrow> addr \<Rightarrow> addr \<Rightarrow> nat \<Rightarrow> uint \<Rightarrow> uint \<Rightarrow> uint \<Rightarrow> int kcode" where
  "loadseg_loop 0 pagetable va ip offset sz i = (\<lambda>w s. Blocked s)"
| "loadseg_loop (Suc fuel) pagetable va ip offset sz i =
     (if \<not> i < sz then kret 0 else
      kbind (walkaddr pagetable (va + ucast i)) (\<lambda>pa.
      if pa = 0 then kpanic ''loadseg: address should exist'' else
      let n = (if sz - i < 4096 then sz - i else 4096) in
      kbind (readi ip (KernDst pa) (offset + i) n) (\<lambda>(r, _).
      if r \<noteq> sint n then kret (-1)
      else loadseg_loop fuel pagetable va ip offset sz (i + 4096))))"

definition loadseg :: "addr \<Rightarrow> addr \<Rightarrow> nat \<Rightarrow> uint \<Rightarrow> uint \<Rightarrow> int kcode" where
  "loadseg pagetable va ip offset sz =
     (if va mod PGSIZE \<noteq> 0 then kpanic ''loadseg: va must be page aligned''
      else loadseg_loop (2 ^ 20 + 1) pagetable va ip offset sz 0)"

text \<open>
  The loop over the program headers: the size that it has reached and whether it came to its end
  (a \<^verbatim>\<open>goto bad\<close> leaves it early).
\<close>

primrec exec_load :: "nat \<Rightarrow> addr \<Rightarrow> nat \<Rightarrow> uint \<Rightarrow> uint64 \<Rightarrow> (uint64 \<times> bool) kcode" where
  "exec_load 0 pagetable ip off sz = kret (sz, True)"
| "exec_load (Suc k) pagetable ip off sz =
     kbind (readi ip LocalDst off 56) (\<lambda>(r, bs).
     if r \<noteq> 56 then kret (sz, False) else
     let ph = proghdr_of bs in
     if ph_type ph \<noteq> ELF_PROG_LOAD then exec_load k pagetable ip (off + 56) sz
     else if ph_memsz ph < ph_filesz ph then kret (sz, False)
     else if ph_vaddr ph + ph_memsz ph < ph_vaddr ph then kret (sz, False)
     else
     kbind (uvmalloc pagetable sz (ph_vaddr ph + ph_memsz ph)) (\<lambda>sz1.
     if sz1 = 0 then kret (sz, False)
     else if ph_vaddr ph mod PGSIZE \<noteq> 0 then kret (sz1, False)
     else
     kbind (loadseg pagetable (ph_vaddr ph) ip (ucast (ph_off ph)) (ucast (ph_filesz ph))) (\<lambda>r.
     if r < 0 then kret (sz1, False)
     else exec_load k pagetable ip (off + 56) sz1)))"

text \<open>
  The loop that pushes the argument strings: the stack pointer and the addresses so far, or
  \<^const>\<open>None\<close> when it goes to \<^verbatim>\<open>bad\<close>. The strings are given by their contents.
\<close>

primrec push_args :: "byte list list \<Rightarrow> addr \<Rightarrow> addr \<Rightarrow> addr \<Rightarrow> uint64 list \<Rightarrow> (addr \<times> uint64 list) option kcode"
  where
  "push_args [] pagetable stackbase sp ustack = kret (Some (sp, ustack))"
| "push_args (a # as) pagetable stackbase sp ustack =
     (if MAXARG \<le> length ustack then kret None else
      let sp = sp - of_nat (length a + 1);
          sp = sp - sp mod 16 in
      if sp < stackbase then kret None else
      kbind (copyout pagetable sp (a @ [0])) (\<lambda>r.
      if r < 0 then kret None
      else push_args as pagetable stackbase sp (ustack @ [sp])))"

definition exec_bad :: "addr \<Rightarrow> uint64 \<Rightarrow> nat option \<Rightarrow> int kcode" where
  "exec_bad pagetable sz ip =
     kdo [kwhen (pagetable \<noteq> 0) (proc_freepagetable pagetable sz),
          case ip of None \<Rightarrow> kret () | Some i \<Rightarrow> kdo [iunlockput i, end_op] (kret ())]
     (kret (-1))"

definition path_last :: "byte list \<Rightarrow> byte list" where
  "path_last path = rev (takeWhile (\<lambda>c. c \<noteq> slash) (rev (cstring path)))"

text \<open>The part of \<^verbatim>\<open>exec\<close> after the program has been loaded.\<close>

definition exec_commit :: "byte list \<Rightarrow> byte list list \<Rightarrow> elfhdr \<Rightarrow> addr \<Rightarrow> uint64 \<Rightarrow> int kcode" where
  "exec_commit path argv elf pagetable sz =
     kbind curproc (\<lambda>p.
     kbind (get_proc p) (\<lambda>pr.
     let oldsz = p_sz pr; sz = PGROUNDUP sz in
     kbind (uvmalloc pagetable sz (sz + 2 * PGSIZE)) (\<lambda>sz1.
     if sz1 = 0 then exec_bad pagetable sz None else
     kdo [uvmclear pagetable (sz1 - 2 * PGSIZE)] (
     let stackbase = sz1 - PGSIZE in
     kbind (push_args argv pagetable stackbase sz1 []) (\<lambda>pushed. case pushed of
       None \<Rightarrow> exec_bad pagetable sz1 None
     | Some (sp, ustack) \<Rightarrow>
         let argc = length ustack;
             sp = sp - of_nat ((argc + 1) * 8);
             sp = sp - sp mod 16 in
         if sp < stackbase then exec_bad pagetable sz1 None else
         kbind (copyout pagetable sp (concat (map (\<lambda>x. le_bytes 8 (unat x)) (ustack @ [0])))) (\<lambda>r.
         if r < 0 then exec_bad pagetable sz1 None else
         kdo [kstore (p_trapframe pr + TF_a1) sp,
              upd_proc p (\<lambda>q. q\<lparr>p_name := safestrcpy_buf (p_name q) (path_last path) 16\<rparr>),
              upd_proc p (\<lambda>q. q\<lparr>p_pagetable := pagetable\<rparr>),
              upd_proc p (\<lambda>q. q\<lparr>p_sz := sz1\<rparr>),
              kstore (p_trapframe pr + TF_epc) (elf_entry elf),
              kstore (p_trapframe pr + TF_sp) sp,
              proc_freepagetable (p_pagetable pr) oldsz]
         (kret (int argc))))))))"

definition exec :: "byte list \<Rightarrow> byte list list \<Rightarrow> int kcode" where
  "exec path argv =
     kbind curproc (\<lambda>p.
     kdo [begin_op] (
     kbind (namei path) (\<lambda>ipp. case ipp of
       None \<Rightarrow> kdo [end_op] (kret (-1))
     | Some ip \<Rightarrow>
         kdo [ilock ipp] (
         kbind (readi ip LocalDst 0 64) (\<lambda>(r, bs).
         if r \<noteq> 64 then exec_bad 0 0 ipp else
         let elf = elfhdr_of bs in
         if elf_magic elf \<noteq> ELF_MAGIC then exec_bad 0 0 ipp else
         kbind (proc_pagetable p) (\<lambda>pagetable.
         if pagetable = 0 then exec_bad 0 0 ipp else
         kbind (exec_load (unat (elf_phnum elf)) pagetable ip (ucast (elf_phoff elf)) 0) (\<lambda>(sz, ok).
         if \<not> ok then exec_bad pagetable sz ipp else
         kdo [iunlockput ip, end_op]
         (exec_commit path argv elf pagetable sz))))))))"

end
