(* ===== verification/Syscall.thy ===== *)
theory Syscall
  imports Process
begin

unbundle bit_operations_syntax

text \<open>
  \<^verbatim>\<open>kernel/syscall.c\<close>, \<^verbatim>\<open>kernel/sysproc.c\<close> and \<^verbatim>\<open>kernel/sysfile.c\<close>: fetching the arguments from the trap
  frame and from user memory, the system calls, and the dispatch on the number in \<^verbatim>\<open>a7\<close>. A system
  call returns the 64-bit value that goes to \<^verbatim>\<open>a0\<close>; an \<^verbatim>\<open>int\<close> result is sign-extended.
\<close>

section \<open>Arguments\<close>

definition fetchaddr :: "addr \<Rightarrow> (int \<times> uint64) kcode" where
  "fetchaddr addr =
     kbind curproc (\<lambda>p.
     kbind (get_proc p) (\<lambda>pr.
     if p_sz pr \<le> addr \<or> p_sz pr < addr + 8 then kret (-1, 0) else
     kbind (copyin (p_pagetable pr) addr 8) (\<lambda>(e, bs).
     if e \<noteq> 0 then kret (-1, 0) else kret (0, get64 bs 0))))"

text \<open>The length of the string and the string, without its terminator.\<close>

definition fetchstr :: "addr \<Rightarrow> nat \<Rightarrow> (int \<times> byte list) kcode" where
  "fetchstr addr n =
     kbind curproc (\<lambda>p.
     kbind (get_proc p) (\<lambda>pr.
     kbind (copyinstr (p_pagetable pr) addr (of_nat n)) (\<lambda>(e, bs).
     if e < 0 then kret (e, bs) else kret (int (length (cstring bs)), cstring bs))))"

definition argraw :: "nat \<Rightarrow> uint64 kcode" where
  "argraw n =
     kbind curproc (\<lambda>p.
     kbind (get_proc p) (\<lambda>pr.
     if n < 6 then kload (p_trapframe pr + TF_a0 + 8 * of_nat n) else kpanic ''argraw''))"

definition argint :: "nat \<Rightarrow> int kcode" where
  "argint n = kbind (argraw n) (\<lambda>v. kret (sint (ucast v :: uint)))"

definition argaddr :: "nat \<Rightarrow> uint64 kcode" where
  "argaddr n = argraw n"

definition argstr :: "nat \<Rightarrow> nat \<Rightarrow> (int \<times> byte list) kcode" where
  "argstr n k = kbind (argaddr n) (\<lambda>a. fetchstr a k)"

section \<open>\<^verbatim>\<open>sysproc.c\<close>\<close>

definition sys_exit :: "uint64 kcode" where
  "sys_exit = kbind (argint 0) (\<lambda>n. kdo [exit n] (kret 0))"

definition sys_getpid :: "uint64 kcode" where
  "sys_getpid = kbind curproc (\<lambda>p. kbind (get_proc p) (\<lambda>pr. kret (of_int (p_pid pr))))"

definition sys_fork :: "uint64 kcode" where
  "sys_fork = kbind fork (\<lambda>r. kret (of_int r))"

definition sys_wait :: "uint64 kcode" where
  "sys_wait = kbind (argaddr 0) (\<lambda>p. kbind (wait p) (\<lambda>r. kret (of_int r)))"

text \<open>\<^verbatim>\<open>int addr\<close>: the old size is cut to 32 bits and sign-extended.\<close>

definition sys_sbrk :: "uint64 kcode" where
  "sys_sbrk =
     kbind (argint 0) (\<lambda>n.
     kbind curproc (\<lambda>p.
     kbind (get_proc p) (\<lambda>pr.
     let addr = ucast (p_sz pr) :: 32 word in
     kbind (growproc n) (\<lambda>r.
     if r < 0 then kret (-1) else kret (scast addr)))))"

definition sys_sleep :: "uint64 kcode" where
  "sys_sleep =
     kbind (argint 0) (\<lambda>n.
     kdo [acquire TicksLock] (
     kbind (kget ticks) (\<lambda>ticks0.
     kbind (kwaitloop (
       kbind (kget ticks) (\<lambda>t.
       if t - ticks0 < of_int n then
         kbind curproc (\<lambda>p. kbind (get_proc p) (\<lambda>pr.
         if p_killed pr then kdo [release TicksLock] (kret (Some True))
         else kdo [sleep ChanTicks TicksLock] (kret None)))
       else kret (Some False)))) (\<lambda>killed.
     if killed then kret (-1) else kdo [release TicksLock] (kret 0)))))"

definition sys_kill :: "uint64 kcode" where
  "sys_kill = kbind (argint 0) (\<lambda>pid. kbind (kill pid) (\<lambda>r. kret (of_int r)))"

definition sys_uptime :: "uint64 kcode" where
  "sys_uptime =
     kdo [acquire TicksLock] (
     kbind (kget ticks) (\<lambda>xticks.
     kdo [release TicksLock] (kret (ucast xticks))))"

section \<open>\<^verbatim>\<open>sysfile.c\<close>: descriptors\<close>

definition argfd :: "nat \<Rightarrow> (nat \<times> nat) option kcode" where
  "argfd n =
     kbind (argint n) (\<lambda>fd.
     if fd < 0 \<or> int NOFILE \<le> fd then kret None else
     kbind curproc (\<lambda>p.
     kbind (get_proc p) (\<lambda>pr. case p_ofile pr ! nat fd of
       None \<Rightarrow> kret None
     | Some f \<Rightarrow> kret (Some (nat fd, f)))))"

definition set_ofile :: "nat \<Rightarrow> nat \<Rightarrow> nat option \<Rightarrow> unit kcode" where
  "set_ofile p fd f = upd_proc p (\<lambda>r. r\<lparr>p_ofile := (p_ofile r)[fd := f]\<rparr>)"

definition fdalloc :: "nat \<Rightarrow> nat option kcode" where
  "fdalloc f =
     kbind curproc (\<lambda>p.
     kbind (get_proc p) (\<lambda>pr. case find_idx (\<lambda>x. x = None) (p_ofile pr) of
       Some fd \<Rightarrow> kdo [set_ofile p fd (Some f)] (kret (Some fd))
     | None \<Rightarrow> kret None))"

definition sys_dup :: "uint64 kcode" where
  "sys_dup =
     kbind (argfd 0) (\<lambda>r. case r of
       None \<Rightarrow> kret (-1)
     | Some (_, f) \<Rightarrow>
         kbind (fdalloc f) (\<lambda>fd. case fd of
           None \<Rightarrow> kret (-1)
         | Some fd \<Rightarrow> kbind (filedup f) (\<lambda>_. kret (of_nat fd))))"

definition sys_read :: "uint64 kcode" where
  "sys_read =
     kbind (argfd 0) (\<lambda>r. case r of
       None \<Rightarrow> kret (-1)
     | Some (_, f) \<Rightarrow>
         kbind (argint 2) (\<lambda>n.
         kbind (argaddr 1) (\<lambda>p.
         kbind (fileread f p n) (\<lambda>r. kret (of_int r)))))"

definition sys_write :: "uint64 kcode" where
  "sys_write =
     kbind (argfd 0) (\<lambda>r. case r of
       None \<Rightarrow> kret (-1)
     | Some (_, f) \<Rightarrow>
         kbind (argint 2) (\<lambda>n.
         kbind (argaddr 1) (\<lambda>p.
         kbind (filewrite f p n) (\<lambda>r. kret (of_int r)))))"

definition sys_close :: "uint64 kcode" where
  "sys_close =
     kbind (argfd 0) (\<lambda>r. case r of
       None \<Rightarrow> kret (-1)
     | Some (fd, f) \<Rightarrow>
         kbind curproc (\<lambda>p.
         kdo [set_ofile p fd None, fileclose f] (kret 0)))"

definition sys_fstat :: "uint64 kcode" where
  "sys_fstat =
     kbind (argfd 0) (\<lambda>r. case r of
       None \<Rightarrow> kret (-1)
     | Some (_, f) \<Rightarrow>
         kbind (argaddr 1) (\<lambda>st.
         kbind (filestat f st) (\<lambda>r. kret (of_int r))))"

section \<open>\<^verbatim>\<open>sysfile.c\<close>: names\<close>

definition upd_nlink :: "nat \<Rightarrow> (16 word \<Rightarrow> 16 word) \<Rightarrow> unit kcode" where
  "upd_nlink ip f = upd_inode ip (\<lambda>r. r\<lparr>i_nlink := f (i_nlink r)\<rparr>)"

text \<open>The code at the label \<^verbatim>\<open>bad\<close> of \<^verbatim>\<open>sys_link\<close>.\<close>

definition link_bad :: "nat \<Rightarrow> uint64 kcode" where
  "link_bad ip =
     kdo [ilock (Some ip),
          upd_nlink ip (\<lambda>n. n - 1),
          iupdate ip,
          iunlockput ip,
          end_op]
     (kret (-1))"

definition sys_link :: "uint64 kcode" where
  "sys_link =
     kbind (argstr 0 MAXPATH) (\<lambda>(e, old).
     if e < 0 then kret (-1) else
     kbind (argstr 1 MAXPATH) (\<lambda>(e, new).
     if e < 0 then kret (-1) else
     kdo [begin_op] (
     kbind (namei old) (\<lambda>ipp. case ipp of
       None \<Rightarrow> kdo [end_op] (kret (-1))
     | Some ip \<Rightarrow>
         kdo [ilock ipp] (
         kbind (get_inode ip) (\<lambda>r.
         if i_type r = T_DIR then kdo [iunlockput ip, end_op] (kret (-1)) else
         kdo [upd_nlink ip (\<lambda>n. n + 1),
              iupdate ip,
              iunlock ipp] (
         kbind (nameiparent new (replicate DIRSIZ 0)) (\<lambda>d. case d of
           None \<Rightarrow> link_bad ip
         | Some (dp, name) \<Rightarrow>
             kdo [ilock (Some dp)] (
             kbind (get_inode dp) (\<lambda>dr.
             kbind (get_inode ip) (\<lambda>r.
             kbind (if i_dev dr \<noteq> i_dev r then kret (-1) else dirlink dp name (i_inum r)) (\<lambda>l.
             if l < 0 then kdo [iunlockput dp] (link_bad ip)
             else kdo [iunlockput dp, iput ip, end_op] (kret 0)))))))))))))"

primrec isdirempty_loop :: "nat \<Rightarrow> nat \<Rightarrow> uint \<Rightarrow> bool kcode" where
  "isdirempty_loop 0 dp off = (\<lambda>w s. Blocked s)"
| "isdirempty_loop (Suc fuel) dp off =
     kbind (get_inode dp) (\<lambda>ip.
     if \<not> off < i_size ip then kret True else
     kbind (readi dp LocalDst off 16) (\<lambda>(r, de).
     if r \<noteq> 16 then kpanic ''isdirempty: readi''
     else if de_inum de \<noteq> 0 then kret False
     else isdirempty_loop fuel dp (off + 16)))"

definition isdirempty :: "nat \<Rightarrow> bool kcode" where
  "isdirempty dp = isdirempty_loop (2 ^ 28 + 1) dp 32"

definition unlink_bad :: "nat \<Rightarrow> uint64 kcode" where
  "unlink_bad dp = kdo [iunlockput dp, end_op] (kret (-1))"

definition sys_unlink :: "uint64 kcode" where
  "sys_unlink =
     kbind (argstr 0 MAXPATH) (\<lambda>(e, path).
     if e < 0 then kret (-1) else
     kdo [begin_op] (
     kbind (nameiparent path (replicate DIRSIZ 0)) (\<lambda>d. case d of
       None \<Rightarrow> kdo [end_op] (kret (-1))
     | Some (dp, name) \<Rightarrow>
         kdo [ilock (Some dp)] (
         if namecmp name (bytes_of ''.'') = 0 \<or> namecmp name (bytes_of ''..'') = 0 then unlink_bad dp else
         kbind (dirlookup dp name) (\<lambda>l. case l of
           None \<Rightarrow> unlink_bad dp
         | Some (ip, off) \<Rightarrow>
             kdo [ilock (Some ip)] (
             kbind (get_inode ip) (\<lambda>r.
             if sint (i_nlink r) < 1 then kpanic ''unlink: nlink < 1'' else
             kbind (if i_type r = T_DIR then isdirempty ip else kret True) (\<lambda>empty.
             if \<not> empty then kdo [iunlockput ip] (unlink_bad dp) else
             kbind (writei dp (LocalSrc (replicate 16 0)) off 16) (\<lambda>n.
             if n \<noteq> 16 then kpanic ''unlink: writei'' else
             kdo [kwhen (i_type r = T_DIR) (kdo [upd_nlink dp (\<lambda>n. n - 1)] (iupdate dp)),
                  iunlockput dp,
                  upd_nlink ip (\<lambda>n. n - 1),
                  iupdate ip,
                  iunlockput ip,
                  end_op]
             (kret 0))))))))))"

definition create :: "byte list \<Rightarrow> 16 word \<Rightarrow> 16 word \<Rightarrow> 16 word \<Rightarrow> nat option kcode" where
  "create path type major minor =
     kbind (nameiparent path (replicate DIRSIZ 0)) (\<lambda>d. case d of
       None \<Rightarrow> kret None
     | Some (dp, name) \<Rightarrow>
         kdo [ilock (Some dp)] (
         kbind (dirlookup dp name) (\<lambda>l. case l of
           Some (ip, _) \<Rightarrow>
             kdo [iunlockput dp, ilock (Some ip)] (
             kbind (get_inode ip) (\<lambda>r.
             if type = T_FILE \<and> (i_type r = T_FILE \<or> i_type r = T_DEVICE) then kret (Some ip)
             else kdo [iunlockput ip] (kret None)))
         | None \<Rightarrow>
             kbind (get_inode dp) (\<lambda>dr.
             kbind (ialloc (i_dev dr) type) (\<lambda>ip.
             kdo [ilock (Some ip),
                  upd_inode ip (\<lambda>r. r\<lparr>i_major := major, i_minor := minor, i_nlink := 1\<rparr>),
                  iupdate ip,
                  kwhen (type = T_DIR)
                    (kdo [upd_nlink dp (\<lambda>n. n + 1), iupdate dp] (
                     kbind (get_inode ip) (\<lambda>r.
                     kbind (dirlink ip (bytes_of ''.'') (i_inum r)) (\<lambda>a.
                     if a < 0 then kpanic ''create dots'' else
                     kbind (get_inode dp) (\<lambda>dr.
                     kbind (dirlink ip (bytes_of ''..'') (i_inum dr)) (\<lambda>b.
                     if b < 0 then kpanic ''create dots'' else kret ()))))))] (
             kbind (get_inode ip) (\<lambda>r.
             kbind (dirlink dp name (i_inum r)) (\<lambda>a.
             if a < 0 then kpanic ''create: dirlink'' else
             kdo [iunlockput dp] (kret (Some ip))))))))))"

definition O_RDONLY :: uint where "O_RDONLY = 0"
definition O_WRONLY :: uint where "O_WRONLY = 1"
definition O_RDWR :: uint where "O_RDWR = 2"
definition O_CREATE :: uint where "O_CREATE = 0x200"
definition O_TRUNC :: uint where "O_TRUNC = 0x400"

text \<open>The inode that \<^verbatim>\<open>sys_open\<close> works on, locked; \<^const>\<open>None\<close> when the call has failed and ended its
  transaction.\<close>

definition open_inode :: "byte list \<Rightarrow> uint \<Rightarrow> nat option kcode" where
  "open_inode path omode =
     (if omode AND O_CREATE \<noteq> 0 then
        kbind (create path T_FILE 0 0) (\<lambda>ip. case ip of
          None \<Rightarrow> kdo [end_op] (kret None)
        | Some i \<Rightarrow> kret (Some i))
      else
        kbind (namei path) (\<lambda>ip. case ip of
          None \<Rightarrow> kdo [end_op] (kret None)
        | Some i \<Rightarrow>
            kdo [ilock ip] (
            kbind (get_inode i) (\<lambda>r.
            if i_type r = T_DIR \<and> omode \<noteq> O_RDONLY then kdo [iunlockput i, end_op] (kret None)
            else kret (Some i)))))"

definition sys_open :: "uint64 kcode" where
  "sys_open =
     kbind (argstr 0 MAXPATH) (\<lambda>(e, path).
     if e < 0 then kret (-1) else
     kbind (argint 1) (\<lambda>omode_int.
     let omode = of_int omode_int :: uint in
     kdo [begin_op] (
     kbind (open_inode path omode) (\<lambda>ipp. case ipp of
       None \<Rightarrow> kret (-1)
     | Some ip \<Rightarrow>
         kbind (get_inode ip) (\<lambda>r.
         if i_type r = T_DEVICE \<and> (sint (i_major r) < 0 \<or> int NDEV \<le> sint (i_major r))
         then kdo [iunlockput ip, end_op] (kret (-1)) else
         kbind filealloc (\<lambda>ff. case ff of
           None \<Rightarrow> kdo [iunlockput ip, end_op] (kret (-1))
         | Some f \<Rightarrow>
             kbind (fdalloc f) (\<lambda>fdd. case fdd of
               None \<Rightarrow> kdo [fileclose f, iunlockput ip, end_op] (kret (-1))
             | Some fd \<Rightarrow>
                 kdo [if i_type r = T_DEVICE
                      then upd_file f (\<lambda>q. q\<lparr>f_type := FD_DEVICE, f_major := i_major r\<rparr>)
                      else upd_file f (\<lambda>q. q\<lparr>f_type := FD_INODE, f_off := 0\<rparr>),
                      upd_file f (\<lambda>q. q\<lparr>f_ip := Some ip\<rparr>),
                      upd_file f (\<lambda>q. q\<lparr>f_readable := (omode AND O_WRONLY = 0)\<rparr>),
                      upd_file f (\<lambda>q. q\<lparr>f_writable := (omode AND O_WRONLY \<noteq> 0 \<or> omode AND O_RDWR \<noteq> 0)\<rparr>),
                      kwhen (omode AND O_TRUNC \<noteq> 0 \<and> i_type r = T_FILE) (itrunc ip),
                      iunlock (Some ip),
                      end_op]
                 (kret (of_nat fd)))))))))"

definition sys_mkdir :: "uint64 kcode" where
  "sys_mkdir =
     kdo [begin_op] (
     kbind (argstr 0 MAXPATH) (\<lambda>(e, path).
     kbind (if e < 0 then kret None else create path T_DIR 0 0) (\<lambda>ip. case ip of
       None \<Rightarrow> kdo [end_op] (kret (-1))
     | Some i \<Rightarrow> kdo [iunlockput i, end_op] (kret 0))))"

definition sys_mknod :: "uint64 kcode" where
  "sys_mknod =
     kdo [begin_op] (
     kbind (argstr 0 MAXPATH) (\<lambda>(e, path).
     kbind (if e < 0 then kret None else
            kbind (argint 1) (\<lambda>major.
            kbind (argint 2) (\<lambda>minor.
            create path T_DEVICE (of_int major) (of_int minor)))) (\<lambda>ip. case ip of
       None \<Rightarrow> kdo [end_op] (kret (-1))
     | Some i \<Rightarrow> kdo [iunlockput i, end_op] (kret 0))))"

definition sys_chdir :: "uint64 kcode" where
  "sys_chdir =
     kbind curproc (\<lambda>p.
     kdo [begin_op] (
     kbind (argstr 0 MAXPATH) (\<lambda>(e, path).
     kbind (if e < 0 then kret None else namei path) (\<lambda>ipp. case ipp of
       None \<Rightarrow> kdo [end_op] (kret (-1))
     | Some ip \<Rightarrow>
         kdo [ilock ipp] (
         kbind (get_inode ip) (\<lambda>r.
         if i_type r \<noteq> T_DIR then kdo [iunlockput ip, end_op] (kret (-1)) else
         kdo [iunlock ipp,
              kbind (get_proc p) (\<lambda>pr. kbind (kderef (p_cwd pr)) iput),
              end_op,
              upd_proc p (\<lambda>q. q\<lparr>p_cwd := ipp\<rparr>)]
         (kret 0)))))))"

text \<open>
  The loop of \<^verbatim>\<open>sys_exec\<close> over the user's argument array: the pages and the strings read so far, and
  whether the array came to its null pointer.
\<close>

primrec fetch_args :: "nat \<Rightarrow> addr \<Rightarrow> nat \<Rightarrow> (addr \<times> byte list) list \<Rightarrow> ((addr \<times> byte list) list \<times> bool) kcode"
  where
  "fetch_args 0 uargv i acc = kret (acc, False)"
| "fetch_args (Suc k) uargv i acc =
     kbind (fetchaddr (uargv + 8 * of_nat i)) (\<lambda>(e, uarg).
     if e < 0 then kret (acc, False)
     else if uarg = 0 then kret (acc, True)
     else
     kbind kalloc (\<lambda>pg.
     if pg = 0 then kret (acc, False) else
     kbind (fetchstr uarg 4096) (\<lambda>(n, str).
     kdo [kput pg (if n < 0 then str else str @ [0])] (
     if n < 0 then kret (acc @ [(pg, str)], False)
     else fetch_args k uargv (Suc i) (acc @ [(pg, str)])))))"

definition sys_exec :: "uint64 kcode" where
  "sys_exec =
     kbind (argstr 0 MAXPATH) (\<lambda>(e, path).
     if e < 0 then kret (-1) else
     kbind (argaddr 1) (\<lambda>uargv.
     kbind (fetch_args MAXARG uargv 0 []) (\<lambda>(argv, ok).
     kbind (if ok then exec path (map snd argv) else kret (-1)) (\<lambda>ret.
     kdo [kfor (map fst argv) kfree] (kret (of_int ret))))))"

definition sys_pipe :: "uint64 kcode" where
  "sys_pipe =
     kbind curproc (\<lambda>p.
     kbind (argaddr 0) (\<lambda>fdarray.
     kbind pipealloc (\<lambda>r. case r of
       None \<Rightarrow> kret (-1)
     | Some (rfile, wfile) \<Rightarrow>
         kbind (fdalloc rfile) (\<lambda>fd0. case fd0 of
           None \<Rightarrow> kdo [fileclose rfile, fileclose wfile] (kret (-1))
         | Some fd0 \<Rightarrow>
             kbind (fdalloc wfile) (\<lambda>fd1. case fd1 of
               None \<Rightarrow> kdo [set_ofile p fd0 None, fileclose rfile, fileclose wfile] (kret (-1))
             | Some fd1 \<Rightarrow>
                 kbind (get_proc p) (\<lambda>pr.
                 kbind (copyout (p_pagetable pr) fdarray (le_bytes 4 fd0)) (\<lambda>e0.
                 kbind (if e0 < 0 then kret e0
                        else copyout (p_pagetable pr) (fdarray + 4) (le_bytes 4 fd1)) (\<lambda>e1.
                 if e1 < 0
                 then kdo [set_ofile p fd0 None, set_ofile p fd1 None, fileclose rfile, fileclose wfile] (kret (-1))
                 else kret 0))))))))"

section \<open>Dispatch\<close>

definition syscalls :: "nat \<Rightarrow> uint64 kcode option" where
  "syscalls n =
     (if n = 0 then None
      else if n \<le> 21 then Some ([sys_fork, sys_exit, sys_wait, sys_pipe, sys_read, sys_kill, sys_exec,
        sys_fstat, sys_chdir, sys_dup, sys_getpid, sys_sbrk, sys_sleep, sys_uptime, sys_open,
        sys_write, sys_mknod, sys_unlink, sys_link, sys_mkdir, sys_close] ! (n - 1))
      else None)"

definition syscall :: "unit kcode" where
  "syscall =
     kbind curproc (\<lambda>p.
     kbind (get_proc p) (\<lambda>pr.
     kbind (kload (p_trapframe pr + TF_a7)) (\<lambda>a7.
     let num = sint (ucast a7 :: uint) in
     case (if 0 < num \<and> num < 22 then syscalls (nat num) else None) of
       Some sys \<Rightarrow>
         kbind sys (\<lambda>r.
         kbind (get_proc p) (\<lambda>pr. kstore (p_trapframe pr + TF_a0) r))
     | None \<Rightarrow>
         kdo [printf (''%d %s: unknown sys call %d'' @ [CHR 0x0A]) [VInt (p_pid pr), VStr (Some (p_name pr)), VInt num],
              kstore (p_trapframe pr + TF_a0) (-1)]
         (kret ()))))"

end
