(* ===== verification/Virtio.thy ===== *)
theory Virtio
  imports Log
begin

unbundle bit_operations_syntax

text \<open>
  \<^verbatim>\<open>kernel/virtio_disk.c\<close>: the driver of the virtio disk. The descriptor table, the rings and the
  driver's own bookkeeping are the record \<open>vdisk\<close>; an address in a descriptor is a value of
  \<open>daddr\<close>. The device is outside: its registers are read from the state, and while the driver sleeps
  the environment acts.
\<close>

section \<open>Code\<close>

definition VNUM :: nat where "VNUM = 8"
definition VRING_DESC_F_NEXT :: "16 word" where "VRING_DESC_F_NEXT = 1"
definition VRING_DESC_F_WRITE :: "16 word" where "VRING_DESC_F_WRITE = 2"
definition VIRTIO_BLK_T_IN :: uint where "VIRTIO_BLK_T_IN = 0"
definition VIRTIO_BLK_T_OUT :: uint where "VIRTIO_BLK_T_OUT = 1"

definition upd_vd :: "(vdisk \<Rightarrow> vdisk) \<Rightarrow> unit kcode" where
  "upd_vd f = kmod (\<lambda>s. s\<lparr>kvdisk := f (kvdisk s)\<rparr>)"

lemma upd_vd_apply [kapply]: "upd_vd f w s = Ret () (s\<lparr>kvdisk := f (kvdisk s)\<rparr>) w"
  by (simp add: upd_vd_def kapply)

definition vreg :: "nat \<Rightarrow> uint kcode" where
  "vreg r = kget (\<lambda>s. vk_regs (kvdisk s) r)"

definition vreg_write :: "nat \<Rightarrow> uint \<Rightarrow> unit kcode" where
  "vreg_write r v = upd_vd (\<lambda>d. d\<lparr>vk_writes := vk_writes d @ [(r, v)]\<rparr>)"

definition upd_desc :: "nat \<Rightarrow> (vring_desc \<Rightarrow> vring_desc) \<Rightarrow> unit kcode" where
  "upd_desc i f = upd_vd (\<lambda>d. d\<lparr>vk_desc := (vk_desc d)[i := f (vk_desc d ! i)]\<rparr>)"

definition virtio_features :: "uint \<Rightarrow> uint" where
  "virtio_features f =
     f AND NOT (push_bit 5 1) AND NOT (push_bit 7 1) AND NOT (push_bit 11 1) AND NOT (push_bit 12 1)
       AND NOT (push_bit 27 1) AND NOT (push_bit 29 1) AND NOT (push_bit 28 1)"

definition virtio_disk_init :: "addr \<Rightarrow> unit kcode" where
  "virtio_disk_init pages =
     kdo [initlock DiskLock ''virtio_disk''] (
     kbind (vreg 0x000) (\<lambda>magic. kbind (vreg 0x004) (\<lambda>version.
     kbind (vreg 0x008) (\<lambda>device. kbind (vreg 0x00c) (\<lambda>vendor.
     if magic \<noteq> 0x74726976 \<or> version \<noteq> 1 \<or> device \<noteq> 2 \<or> vendor \<noteq> 0x554d4551
     then kpanic ''could not find virtio disk'' else
     kdo [vreg_write 0x070 1,
          vreg_write 0x070 (1 OR 2)] (
     kbind (vreg 0x010) (\<lambda>features.
     kdo [vreg_write 0x020 (virtio_features features),
          vreg_write 0x070 (1 OR 2 OR 8),
          vreg_write 0x070 (1 OR 2 OR 8 OR 4),
          vreg_write 0x028 4096,
          vreg_write 0x030 0] (
     kbind (vreg 0x034) (\<lambda>qmax.
     if qmax = 0 then kpanic ''virtio disk has no queue 0''
     else if qmax < of_nat VNUM then kpanic ''virtio disk max queue too short''
     else
     kdo [vreg_write 0x038 (of_nat VNUM),
          upd_vd (\<lambda>d. d\<lparr>vk_desc := replicate VNUM \<lparr>vd_addr = DNull, vd_len = 0, vd_flags = 0, vd_next = 0\<rparr>,
                        vk_avail_idx := 0, vk_avail := replicate VNUM 0, vk_used_id := 0,
                        vk_used := replicate VNUM 0\<rparr>),
          vreg_write 0x040 (ucast (drop_bit PGSHIFT pages)),
          upd_vd (\<lambda>d. d\<lparr>vk_free := replicate VNUM True\<rparr>)]
     (kret ()))))))))))"

definition alloc_desc :: "nat option kcode" where
  "alloc_desc =
     kbind (kget (\<lambda>s. vk_free (kvdisk s))) (\<lambda>fr. case find_idx (\<lambda>b. b) fr of
       Some i \<Rightarrow> kdo [upd_vd (\<lambda>d. d\<lparr>vk_free := (vk_free d)[i := False]\<rparr>)] (kret (Some i))
     | None \<Rightarrow> kret None)"

definition free_desc :: "nat \<Rightarrow> unit kcode" where
  "free_desc i =
     (if VNUM \<le> i then kpanic ''virtio_disk_intr 1'' else
      kbind (kget (\<lambda>s. vk_free (kvdisk s) ! i)) (\<lambda>fr.
      if fr then kpanic ''virtio_disk_intr 2'' else
      kdo [upd_desc i (\<lambda>x. x\<lparr>vd_addr := DNull\<rparr>),
           upd_vd (\<lambda>d. d\<lparr>vk_free := (vk_free d)[i := True]\<rparr>),
           wakeup ChanDiskFree]
      (kret ())))"

text \<open>
  The chain ends at a descriptor without \<^verbatim>\<open>VRING_DESC_F_NEXT\<close>; a chain that comes back to a descriptor
  panics there, so it has at most \<open>VNUM\<close> descriptors.
\<close>

primrec free_chain_loop :: "nat \<Rightarrow> nat \<Rightarrow> unit kcode" where
  "free_chain_loop 0 i = (\<lambda>w s. Blocked s)"
| "free_chain_loop (Suc fuel) i =
     kdo [free_desc i] (
     kbind (kget (\<lambda>s. vk_desc (kvdisk s) ! i)) (\<lambda>x.
     if vd_flags x AND VRING_DESC_F_NEXT \<noteq> 0 then free_chain_loop fuel (unat (vd_next x))
     else kret ()))"

definition free_chain :: "nat \<Rightarrow> unit kcode" where
  "free_chain i = free_chain_loop (VNUM + 1) i"

definition alloc3_desc :: "nat list option kcode" where
  "alloc3_desc =
     kbind alloc_desc (\<lambda>i0. case i0 of None \<Rightarrow> kret None | Some i0 \<Rightarrow>
     kbind alloc_desc (\<lambda>i1. case i1 of None \<Rightarrow> kdo [free_desc i0] (kret None) | Some i1 \<Rightarrow>
     kbind alloc_desc (\<lambda>i2. case i2 of None \<Rightarrow> kdo [free_desc i0, free_desc i1] (kret None)
       | Some i2 \<Rightarrow> kret (Some [i0, i1, i2]))))"

text \<open>The three descriptors of a request, and the entry in the available ring.\<close>

definition format_request :: "nat \<Rightarrow> bool \<Rightarrow> uint64 \<Rightarrow> nat \<Rightarrow> nat \<Rightarrow> nat \<Rightarrow> unit kcode" where
  "format_request b write sector i0 i1 i2 =
     kdo [upd_desc i0 (\<lambda>x. x\<lparr>vd_addr := DHeader (if write then VIRTIO_BLK_T_OUT else VIRTIO_BLK_T_IN) sector,
            vd_len := 16, vd_flags := VRING_DESC_F_NEXT, vd_next := of_nat i1\<rparr>),
          upd_desc i1 (\<lambda>x. x\<lparr>vd_addr := DBufData b, vd_len := of_nat BSIZE,
            vd_flags := (if write then 0 else VRING_DESC_F_WRITE) OR VRING_DESC_F_NEXT, vd_next := of_nat i2\<rparr>),
          upd_vd (\<lambda>d. d\<lparr>vk_info_status := (vk_info_status d)[i0 := 0]\<rparr>),
          upd_desc i2 (\<lambda>x. x\<lparr>vd_addr := DStatus i0, vd_len := 1, vd_flags := VRING_DESC_F_WRITE, vd_next := 0\<rparr>),
          upd_buf b (\<lambda>r. r\<lparr>b_disk := True\<rparr>),
          upd_vd (\<lambda>d. d\<lparr>vk_info_b := (vk_info_b d)[i0 := Some b]\<rparr>),
          upd_vd (\<lambda>d. d\<lparr>vk_avail := (vk_avail d)[unat (vk_avail_idx d mod of_nat VNUM) := of_nat i0]\<rparr>),
          upd_vd (\<lambda>d. d\<lparr>vk_avail_idx := vk_avail_idx d + 1\<rparr>),
          vreg_write 0x050 0]
     (kret ())"

text \<open>\<open>hdr\<close> is the address of the local variable \<^verbatim>\<open>buf0\<close> on the kernel stack.\<close>

definition virtio_disk_rw :: "addr \<Rightarrow> nat \<Rightarrow> bool \<Rightarrow> unit kcode" where
  "virtio_disk_rw hdr b write =
     kbind (get_buf b) (\<lambda>r.
     let sector = ucast (b_blockno r * of_nat (BSIZE div 512)) :: uint64 in
     kdo [acquire DiskLock] (
     kbind (kwaitloop (
       kbind alloc3_desc (\<lambda>idx. case idx of
         Some idx \<Rightarrow> kret (Some idx)
       | None \<Rightarrow> kdo [sleep ChanDiskFree DiskLock] (kret None)))) (\<lambda>idx.
     kbind (kvmpa hdr) (\<lambda>_.
     kdo [format_request b write sector (idx ! 0) (idx ! 1) (idx ! 2),
          kwaitloop (
            kbind (get_buf b) (\<lambda>r.
            if b_disk r then kdo [sleep (ChanBuf b) DiskLock] (kret None)
            else kret (Some ()))),
          upd_vd (\<lambda>d. d\<lparr>vk_info_b := (vk_info_b d)[idx ! 0 := None]\<rparr>),
          free_chain (idx ! 0),
          release DiskLock]
     (kret ())))))"

text \<open>
  The loop of the interrupt handler goes once around the used ring at most. A null pointer in
  \<^verbatim>\<open>disk.info[id].b\<close> is a fault.
\<close>

primrec intr_loop :: "nat \<Rightarrow> unit kcode" where
  "intr_loop 0 = (\<lambda>w s. Blocked s)"
| "intr_loop (Suc fuel) =
     kbind (kget kvdisk) (\<lambda>d.
     if vk_used_idx d mod of_nat VNUM = vk_used_id d mod of_nat VNUM then kret () else
     let id = unat (vk_used d ! unat (vk_used_idx d)) in
     if vk_info_status d ! id \<noteq> 0 then kpanic ''virtio_disk_intr status'' else
     kbind (kderef (vk_info_b d ! id)) (\<lambda>b.
     kdo [upd_buf b (\<lambda>r. r\<lparr>b_disk := False\<rparr>),
          wakeup (ChanBuf b),
          upd_vd (\<lambda>d. d\<lparr>vk_used_idx := (vk_used_idx d + 1) mod of_nat VNUM\<rparr>)]
     (intr_loop fuel)))"

definition virtio_disk_intr :: "unit kcode" where
  "virtio_disk_intr =
     kdo [acquire DiskLock,
          intr_loop VNUM] (
     kbind (vreg 0x060) (\<lambda>st.
     kdo [vreg_write 0x064 (st AND 3),
          release DiskLock]
     (kret ())))"

end
