(* ===== verification/Trap.thy ===== *)
theory Trap
  imports Syscall Virtio
begin

unbundle bit_operations_syntax

text \<open>
  \<^verbatim>\<open>kernel/trap.c\<close>, \<^verbatim>\<open>kernel/plic.c\<close>, \<^verbatim>\<open>forkret()\<close> of \<^verbatim>\<open>kernel/proc.c\<close> and \<^verbatim>\<open>main()\<close> of \<^verbatim>\<open>kernel/main.c\<close>. The
  control registers are those of the running hart. The last statement of \<^verbatim>\<open>usertrapret()\<close>, the jump
  to the trampoline, is its return value: the \<^verbatim>\<open>satp\<close> that the trampoline loads.
\<close>

section \<open>Control registers\<close>

definition r_csr :: "(csrs \<Rightarrow> uint64) \<Rightarrow> uint64 kcode" where
  "r_csr f = kget (\<lambda>s. f (csr (hw s) (tp (hw s))))"

definition w_csr :: "(csrs \<Rightarrow> csrs) \<Rightarrow> unit kcode" where
  "w_csr f = kmod (\<lambda>s. s\<lparr>hw := (hw s)\<lparr>csr := (csr (hw s))(tp (hw s) := f (csr (hw s) (tp (hw s))))\<rparr>\<rparr>)"

lemma r_csr_apply [kapply]: "r_csr f w s = Ret (f (csr (hw s) (tp (hw s)))) s w"
  by (simp add: r_csr_def kapply)

lemma w_csr_apply [kapply]:
  "w_csr f w s =
     Ret () (s\<lparr>hw := (hw s)\<lparr>csr := (csr (hw s))(tp (hw s) := f (csr (hw s) (tp (hw s))))\<rparr>\<rparr>) w"
  by (simp add: w_csr_def kapply)

section \<open>\<^verbatim>\<open>plic.c\<close>\<close>

definition plic_claim :: "int kcode" where
  "plic_claim = (\<lambda>w s. case plic_claims s of
       [] \<Rightarrow> Ret 0 s w
     | irq # rest \<Rightarrow> Ret irq (s\<lparr>plic_claims := rest\<rparr>) w)"

definition plic_complete :: "int \<Rightarrow> unit kcode" where
  "plic_complete irq = kmod (\<lambda>s. s\<lparr>plic_done := plic_done s @ [irq]\<rparr>)"

section \<open>\<^verbatim>\<open>trap.c\<close>\<close>

definition trapinit :: "unit kcode" where
  "trapinit = initlock TicksLock ''time''"

definition trapinithart :: "unit kcode" where
  "trapinithart = kbind (kget (\<lambda>s. sym_kernelvec (syms s))) (\<lambda>v. w_csr (\<lambda>c. c\<lparr>stvec := v\<rparr>))"

definition clockintr :: "unit kcode" where
  "clockintr =
     kdo [acquire TicksLock,
          kmod (\<lambda>s. s\<lparr>ticks := ticks s + 1\<rparr>),
          wakeup ChanTicks,
          release TicksLock]
     (kret ())"

definition devintr :: "int kcode" where
  "devintr =
     kbind (r_csr scause) (\<lambda>cause.
     if cause AND 0x8000000000000000 \<noteq> 0 \<and> cause AND 0xff = 9 then
       kbind plic_claim (\<lambda>irq.
       kdo [if irq = int UART0_IRQ then uartintr
            else if irq = int VIRTIO0_IRQ then virtio_disk_intr
            else kwhen (irq \<noteq> 0) (printf (''unexpected interrupt irq=%d'' @ [CHR 0x0A]) [VInt irq]),
            kwhen (irq \<noteq> 0) (plic_complete irq)]
       (kret 1))
     else if cause = 0x8000000000000001 then
       kbind cpuid (\<lambda>id.
       kdo [kwhen (id = 0) clockintr,
            w_csr (\<lambda>c. c\<lparr>sip := sip c AND NOT 2\<rparr>)]
       (kret 2))
     else kret 0)"

definition usertrapret :: "uint64 kcode" where
  "usertrapret =
     kbind curproc (\<lambda>p.
     kdo [intr_off] (
     kbind (kget syms) (\<lambda>sy.
     kbind (get_proc p) (\<lambda>pr.
     let tf = p_trapframe pr in
     kdo [w_csr (\<lambda>c. c\<lparr>stvec := TRAMPOLINE + (sym_uservec sy - sym_trampoline sy)\<rparr>),
          kbind (r_csr satp) (\<lambda>v. kstore (tf + TF_kernel_satp) v),
          kstore (tf + TF_kernel_sp) (p_kstack pr + PGSIZE),
          kstore (tf + TF_kernel_trap) (sym_usertrap sy),
          kbind cpuid (\<lambda>id. kstore (tf + TF_kernel_hartid) (of_nat id)),
          kbind r_sstatus (\<lambda>x. w_sstatus ((x AND NOT SSTATUS_SPP) OR SSTATUS_SPIE)),
          kbind (kload (tf + TF_epc)) (\<lambda>v. w_csr (\<lambda>c. c\<lparr>sepc := v\<rparr>))]
     (kret (MAKE_SATP (p_pagetable pr)))))))"

definition usertrap :: "uint64 kcode" where
  "usertrap =
     kbind r_sstatus (\<lambda>st.
     if st AND SSTATUS_SPP \<noteq> 0 then kpanic ''usertrap: not from user mode'' else
     kbind (kget (\<lambda>s. sym_kernelvec (syms s))) (\<lambda>kvec.
     kdo [w_csr (\<lambda>c. c\<lparr>stvec := kvec\<rparr>)] (
     kbind curproc (\<lambda>p.
     kbind (get_proc p) (\<lambda>pr.
     kdo [kbind (r_csr sepc) (\<lambda>v. kstore (p_trapframe pr + TF_epc) v)] (
     kbind (r_csr scause) (\<lambda>cause.
     kbind (if cause = 8 then
              kdo [kwhen (p_killed pr) (exit (-1)),
                   kbind (kload (p_trapframe pr + TF_epc)) (\<lambda>v. kstore (p_trapframe pr + TF_epc) (v + 4)),
                   intr_on,
                   syscall]
              (kret 0)
            else
              kbind devintr (\<lambda>dev.
              kdo [kwhen (dev = 0)
                     (kbind (r_csr sepc) (\<lambda>pc. kbind (r_csr stval) (\<lambda>val.
                      kdo [printf (''usertrap(): unexpected scause %p pid=%d'' @ [CHR 0x0A])
                             [VPtr cause, VInt (p_pid pr)],
                           printf (''            sepc=%p stval=%p'' @ [CHR 0x0A]) [VPtr pc, VPtr val],
                           upd_proc p (\<lambda>r. r\<lparr>p_killed := True\<rparr>)]
                      (kret ()))))]
              (kret dev))) (\<lambda>which_dev.
     kbind (get_proc p) (\<lambda>pr.
     kdo [kwhen (p_killed pr) (exit (-1)),
          kwhen (which_dev = 2) yield]
     usertrapret)))))))))"

definition kerneltrap :: "unit kcode" where
  "kerneltrap =
     kbind (r_csr sepc) (\<lambda>pc.
     kbind r_sstatus (\<lambda>st.
     kbind (r_csr scause) (\<lambda>cause.
     if st AND SSTATUS_SPP = 0 then kpanic ''kerneltrap: not from supervisor mode'' else
     kbind intr_get (\<lambda>on.
     if on then kpanic ''kerneltrap: interrupts enabled'' else
     kbind devintr (\<lambda>which_dev.
     if which_dev = 0 then
       kbind (r_csr sepc) (\<lambda>pc'. kbind (r_csr stval) (\<lambda>val.
       kdo [printf (''scause %p'' @ [CHR 0x0A]) [VPtr cause],
            printf (''sepc=%p stval=%p'' @ [CHR 0x0A]) [VPtr pc', VPtr val]]
       (kpanic ''kerneltrap'')))
     else
     kbind myproc (\<lambda>pp.
     kbind (case pp of None \<Rightarrow> kret False
            | Some p \<Rightarrow> kbind (get_proc p) (\<lambda>pr. kret (p_state pr = RUNNING))) (\<lambda>running.
     kdo [kwhen (which_dev = 2 \<and> running) yield,
          w_csr (\<lambda>c. c\<lparr>sepc := pc\<rparr>),
          w_sstatus st]
     (kret ()))))))))"

section \<open>The first return to user space\<close>

definition forkret :: "uint64 kcode" where
  "forkret =
     kbind curproc (\<lambda>p.
     kdo [release (ProcLock p)] (
     kbind (kget forkret_first) (\<lambda>first.
     kdo [kwhen first
            (kdo [kmod (\<lambda>s. s\<lparr>forkret_first := False\<rparr>), fsinit (of_nat ROOTDEV)] (kret ()))]
     usertrapret)))"

section \<open>\<^verbatim>\<open>main.c\<close>\<close>

text \<open>
  The boot of hart 0 up to the scheduler. The writes of \<^verbatim>\<open>plicinit()\<close> and \<^verbatim>\<open>plicinithart()\<close> to the
  interrupt controller have no effect on the modelled state.
\<close>

definition main_boot :: "addr \<Rightarrow> unit kcode" where
  "main_boot disk_pages =
     kdo [consoleinit,
          printfinit,
          printf [CHR 0x0A] [],
          printf (''xv6 kernel is booting'' @ [CHR 0x0A]) [],
          printf [CHR 0x0A] [],
          kinit,
          kvminit,
          kvminithart,
          procinit,
          trapinit,
          trapinithart,
          binit,
          iinit,
          fileinit,
          virtio_disk_init disk_pages,
          userinit,
          kmod (\<lambda>s. s\<lparr>started := True\<rparr>)]
     (kret ())"

text \<open>The other harts wait until hart 0 has booted.\<close>

definition main_other :: "unit kcode" where
  "main_other =
     kdo [kwaitloop (
            kbind (kget started) (\<lambda>st. if st then kret (Some ()) else kdo [kwait] (kret None)))] (
     kbind cpuid (\<lambda>id.
     kdo [printf (''hart %d starting'' @ [CHR 0x0A]) [VInt (int id)],
          kvminithart,
          trapinithart]
     (kret ())))"

definition main :: "addr \<Rightarrow> nat \<Rightarrow> unit kcode" where
  "main disk_pages rounds =
     kbind cpuid (\<lambda>id.
     kdo [if id = 0 then main_boot disk_pages else main_other]
     (scheduler rounds))"

end
