(* ===== verification/Paging.thy ===== *)
theory Paging
  imports Vm
begin

unbundle bit_operations_syntax

text \<open>
  Page tables as maps. A page table in memory is a tree of pages; \<open>node\<close> follows a path of indices
  from the root, \<open>pte_of\<close> is the entry that a virtual address has in the end (0 where the tree has no
  page for it). \<open>pt_ok\<close> says that different paths lead to different pages. The lemmas show what the
  functions of \<open>Vm\<close> do to the map \<open>pte_of\<close>: \<^verbatim>\<open>walk\<close> does not change it, even when it adds pages to
  the tree, and a store to the address it returns changes it in one place.
\<close>

section \<open>Entries of a page\<close>

definition ent :: "addr \<Rightarrow> nat \<Rightarrow> addr" where
  "ent a i = a + of_nat (8 * i)"

lemma ent_PX: "a + 8 * PX l va = ent a (unat (PX l va))"
  by (simp add: ent_def)

lemma unat_ent: "page_aligned a \<Longrightarrow> i < 512 \<Longrightarrow> unat (ent a i) = unat a + 8 * i"
  using page_end [of a] unat_of_nat64 [of "8 * i"] unat_add_lt64 [of a "of_nat (8 * i)"]
  by (simp add: ent_def)

lemma ent_nonzero: "page_aligned a \<Longrightarrow> a \<noteq> 0 \<Longrightarrow> i < 512 \<Longrightarrow> ent a i \<noteq> 0"
  using unat_ent [of a i] by (auto simp: word_unat_eq_iff)

lemma load64_ent_same [simp]: "load64 (store64 m (ent a i) v) (ent a i) = v"
  by simp

lemma load64_ent_other:
  assumes "page_aligned a" "page_aligned b" "i < 512" "j < 512" "a \<noteq> b \<or> i \<noteq> j"
  shows "load64 (store64 m (ent b j) v) (ent a i) = load64 m (ent a i)"
proof (cases "a = b")
  case False
  then show ?thesis
    using load64_store64_other_page [of a b "8 * i" "8 * j" m v] assms by (simp add: ent_def)
next
  case True
  have "apart (ent a i) 8 (ent b j) 8"
    using assms True page_end [of a] by (intro apart_ranges) (auto simp: unat_ent)
  then show ?thesis by (rule load64_store64_apart)
qed

lemma load64_fill_ent_other:
  assumes "page_aligned a" "page_aligned b" "i < 512" "a \<noteq> b"
  shows "load64 (fill_page m b c) (ent a i) = load64 m (ent a i)"
  using load64_fill_other_page [of a b "8 * i" m c] assms by (simp add: ent_def)

lemma load64_fill_ent_zero:
  assumes "page_aligned a" "i < 512"
  shows "load64 (fill_page m a 0) (ent a i) = 0"
proof -
  have "fill_page m a 0 (ent a i + of_nat j) = 0" if "j < 8" for j
  proof -
    have e: "unat (ent a i + of_nat j) = unat a + 8 * i + j"
      using assms page_end [of a] that by (subst unat_add_lt64) (simp_all add: unat_ent unat_of_nat64)
    have "PGROUNDDOWN (ent a i + of_nat j) = a"
      using assms(2) that e assms(1)
      by (auto simp: word_unat_eq_iff unat_PGROUNDDOWN page_aligned_dvd elim!: dvdE)
    then show ?thesis using assms(1) by (simp add: fill_page_inside)
  qed
  then have "readbytes (fill_page m a 0) (ent a i) 8 = readbytes (\<lambda>_. 0) (ent a i) 8"
    by (intro nth_equalityI) auto
  then show ?thesis using load64_cong load64_zero_memory by metis
qed

section \<open>Nodes\<close>

text \<open>A path lists the indices from the last to the first.\<close>

primrec node :: "memory \<Rightarrow> addr \<Rightarrow> nat list \<Rightarrow> addr option" where
  "node m pt [] = Some pt"
| "node m pt (i # p) = (case node m pt p of
       None \<Rightarrow> None
     | Some a \<Rightarrow> let e = load64 m (ent a i) in if e AND PTE_V \<noteq> 0 then Some (PTE2PA e) else None)"

definition vpath :: "nat list \<Rightarrow> bool" where
  "vpath p \<longleftrightarrow> length p \<le> 2 \<and> (\<forall>i \<in> set p. i < 512)"

definition pt_pages :: "memory \<Rightarrow> addr \<Rightarrow> addr set" where
  "pt_pages m pt = {a. \<exists>p. vpath p \<and> node m pt p = Some a}"

text \<open>A valid entry above the last level has no permission bits: it points to a page of the tree.\<close>

definition dir_ok :: "uint64 \<Rightarrow> bool" where
  "dir_ok e \<longleftrightarrow> (e AND PTE_V \<noteq> 0 \<longrightarrow> e AND (PTE_R OR PTE_W OR PTE_X) = 0)"

definition pt_ok :: "memory \<Rightarrow> addr \<Rightarrow> bool" where
  "pt_ok m pt \<longleftrightarrow>
     (\<forall>a \<in> pt_pages m pt. page_aligned a \<and> a \<noteq> 0) \<and>
     (\<forall>p q a. vpath p \<longrightarrow> vpath q \<longrightarrow> node m pt p = Some a \<longrightarrow> node m pt q = Some a \<longrightarrow> p = q) \<and>
     (\<forall>i p a. vpath (i # p) \<longrightarrow> node m pt p = Some a \<longrightarrow> dir_ok (load64 m (ent a i)))"

definition path_of :: "nat \<Rightarrow> addr \<Rightarrow> nat list" where
  "path_of l va = map (\<lambda>k. unat (PX k va)) [Suc l..<3]"

definition pte_of :: "memory \<Rightarrow> addr \<Rightarrow> addr \<Rightarrow> uint64" where
  "pte_of m pt va = (case node m pt (path_of 0 va) of
       None \<Rightarrow> 0
     | Some a \<Rightarrow> load64 m (ent a (unat (PX 0 va))))"

lemma path_of_simps:
  "path_of 2 va = []" "path_of (Suc 0) va = [unat (PX 2 va)]"
  "path_of 0 va = [unat (PX 1 va), unat (PX 2 va)]"
  by (simp_all add: path_of_def upt_rec numeral_2_eq_2)

lemma length_path_of [simp]: "length (path_of l va) = 2 - l"
  by (simp add: path_of_def)

lemma unat_eqD: "unat a = unat b \<Longrightarrow> a = b" for a b :: "64 word"
  by (simp add: word_unat_eq_iff)

lemma same_page_path:
  "va < SV39 \<Longrightarrow> va' < SV39 \<Longrightarrow>
   PGROUNDDOWN va = PGROUNDDOWN va' \<longleftrightarrow> path_of 0 va = path_of 0 va' \<and> PX 0 va = PX 0 va'"
  by (auto simp: same_page_PX path_of_simps dest: unat_eqD)

lemma vpath_Nil [simp]: "vpath []"
  by (simp add: vpath_def)

lemma vpath_Cons: "vpath (i # p) \<longleftrightarrow> i < 512 \<and> length p < 2 \<and> vpath p"
  by (auto simp: vpath_def)

lemma vpath_path_of [simp]: "vpath (path_of l va)"
  using PX_less by (auto simp: vpath_def path_of_def)

lemma node_in_pages: "vpath p \<Longrightarrow> node m pt p = Some a \<Longrightarrow> a \<in> pt_pages m pt"
  by (auto simp: pt_pages_def)

lemma root_in_pages [simp]: "pt \<in> pt_pages m pt"
  by (rule node_in_pages [of "[]"]) simp_all

lemma pt_ok_page: "pt_ok m pt \<Longrightarrow> a \<in> pt_pages m pt \<Longrightarrow> page_aligned a \<and> a \<noteq> 0"
  by (simp add: pt_ok_def)

lemma pt_ok_inj:
  "pt_ok m pt \<Longrightarrow> vpath p \<Longrightarrow> vpath q \<Longrightarrow> node m pt p = Some a \<Longrightarrow> node m pt q = Some a \<Longrightarrow> p = q"
  by (simp add: pt_ok_def)

lemma pt_ok_dir: "pt_ok m pt \<Longrightarrow> vpath (i # p) \<Longrightarrow> node m pt p = Some a \<Longrightarrow> dir_ok (load64 m (ent a i))"
  unfolding pt_ok_def by blast

lemma pt_okI:
  assumes "\<And>a. a \<in> pt_pages m pt \<Longrightarrow> page_aligned a \<and> a \<noteq> 0"
    and "\<And>p q a. vpath p \<Longrightarrow> vpath q \<Longrightarrow> node m pt p = Some a \<Longrightarrow> node m pt q = Some a \<Longrightarrow> p = q"
    and "\<And>i p a. vpath (i # p) \<Longrightarrow> node m pt p = Some a \<Longrightarrow> dir_ok (load64 m (ent a i))"
  shows "pt_ok m pt"
  using assms unfolding pt_ok_def by blast

text \<open>Only the entries of the tree's own pages matter.\<close>

lemma node_cong:
  assumes "\<And>a i. a \<in> pt_pages m pt \<Longrightarrow> i < 512 \<Longrightarrow> load64 m' (ent a i) = load64 m (ent a i)"
  shows "vpath p \<Longrightarrow> node m' pt p = node m pt p"
proof (induction p)
  case Nil
  then show ?case by simp
next
  case (Cons i p)
  then have v: "i < 512" "vpath p" by (simp_all add: vpath_Cons)
  with Cons.IH have "node m' pt p = node m pt p" by simp
  with v assms node_in_pages [of p m pt] show ?case by (simp add: Let_def split: option.split)
qed

lemma pt_ok_transfer:
  assumes ok: "pt_ok m pt" and n: "\<And>p. vpath p \<Longrightarrow> node m' pt p = node m pt p"
    and ld: "\<And>i p a. vpath (i # p) \<Longrightarrow> node m pt p = Some a \<Longrightarrow> load64 m' (ent a i) = load64 m (ent a i)"
  shows "pt_ok m' pt"
proof (rule pt_okI)
  have "pt_pages m' pt = pt_pages m pt" using n by (auto simp: pt_pages_def)
  then show "page_aligned a \<and> a \<noteq> 0" if "a \<in> pt_pages m' pt" for a using that ok by (simp add: pt_ok_page)
  show "p = q" if "vpath p" "vpath q" "node m' pt p = Some a" "node m' pt q = Some a" for p q a
    using that n pt_ok_inj [OF ok] by simp
  fix i p a assume ip: "vpath (i # p)" and "node m' pt p = Some a"
  then have "node m pt p = Some a" using n by (simp add: vpath_Cons)
  then show "dir_ok (load64 m' (ent a i))" using ld ip pt_ok_dir [OF ok ip] by simp
qed

lemma pt_cong:
  assumes "\<And>a i. a \<in> pt_pages m pt \<Longrightarrow> i < 512 \<Longrightarrow> load64 m' (ent a i) = load64 m (ent a i)"
  shows "pt_pages m' pt = pt_pages m pt" "pt_ok m' pt = pt_ok m pt" "pte_of m' pt va = pte_of m pt va"
proof -
  note n = node_cong [of m pt m', OF assms]
  show "pt_pages m' pt = pt_pages m pt" using n by (auto simp: pt_pages_def)
  moreover have ld: "load64 m' (ent a i) = load64 m (ent a i)"
    if "vpath (i # p)" "node m pt p = Some a" for i p a
    using assms [of a i] that node_in_pages [of p m pt a] by (simp add: vpath_Cons)
  ultimately show "pt_ok m' pt = pt_ok m pt"
    using pt_ok_transfer [of m pt m'] pt_ok_transfer [of m' pt m] n by (metis vpath_Cons)
  show "pte_of m' pt va = pte_of m pt va"
    using n [of "path_of 0 va"] node_in_pages [of "path_of 0 va" m pt] assms PX_less
    by (simp add: pte_of_def split: option.split)
qed

text \<open>Memory that agrees outside a set of pages has the same page table, if the set avoids it.\<close>

lemma load64_pages_agree:
  assumes "page_aligned a" "i < 512" "\<And>x. PGROUNDDOWN x = a \<Longrightarrow> m' x = m x"
  shows "load64 m' (ent a i) = load64 m (ent a i)"
proof (rule load64_cong, rule nth_equalityI)
  fix j assume "j < length (readbytes m' (ent a i) 8)"
  then have j: "j < 8" by simp
  have e: "unat (ent a i + of_nat j) = unat a + 8 * i + j"
    using assms(1,2) page_end [of a] j by (subst unat_add_lt64) (simp_all add: unat_ent unat_of_nat64)
  have "PGROUNDDOWN (ent a i + of_nat j) = a"
    using assms(1,2) j e by (auto simp: word_unat_eq_iff unat_PGROUNDDOWN page_aligned_dvd elim!: dvdE)
  with assms(3) j show "readbytes m' (ent a i) 8 ! j = readbytes m (ent a i) 8 ! j" by simp
qed simp

lemma pt_frame:
  assumes "pt_ok m pt" "\<And>x. PGROUNDDOWN x \<in> pt_pages m pt \<Longrightarrow> m' x = m x"
  shows "pt_pages m' pt = pt_pages m pt" "pt_ok m' pt" "pte_of m' pt va = pte_of m pt va"
proof -
  have *: "load64 m' (ent a i) = load64 m (ent a i)" if "a \<in> pt_pages m pt" "i < 512" for a i
    by (rule load64_pages_agree) (use assms pt_ok_page that in auto)
  show "pt_pages m' pt = pt_pages m pt" "pt_ok m' pt" "pte_of m' pt va = pte_of m pt va"
    using pt_cong [of m pt m', OF *] assms(1) by auto
qed

section \<open>Changing a leaf entry\<close>

lemma node_store_leaf:
  assumes ok: "pt_ok m pt" and q: "vpath q" "length q = 2" "node m pt q = Some a" and j: "j < 512"
  shows "vpath p \<Longrightarrow> node (store64 m (ent a j) v) pt p = node m pt p"
proof (induction p)
  case Nil
  then show ?case by simp
next
  case (Cons i p)
  then have v: "i < 512" "vpath p" "length p < 2" by (simp_all add: vpath_Cons)
  with Cons.IH have IH: "node (store64 m (ent a j) v) pt p = node m pt p" by simp
  show ?case
  proof (cases "node m pt p")
    case None
    with IH show ?thesis by simp
  next
    case (Some b)
    have "b \<noteq> a" using pt_ok_inj [OF ok v(2) q(1)] Some q v(3) by auto
    moreover have "page_aligned a" "page_aligned b"
      using pt_ok_page [OF ok] node_in_pages Some q v by blast+
    ultimately show ?thesis
      using load64_ent_other [of b a i j m v] v(1) j IH Some by (simp add: Let_def)
  qed
qed

lemma store_leaf:
  fixes v :: uint64
  assumes ok: "pt_ok m pt" and a: "node m pt (path_of 0 va) = Some a" and va: "va < SV39"
  defines "m' \<equiv> store64 m (ent a (unat (PX 0 va))) v"
  shows "pt_ok m' pt" "pt_pages m' pt = pt_pages m pt"
    "va' < SV39 \<Longrightarrow> pte_of m' pt va' =
       (if PGROUNDDOWN va' = PGROUNDDOWN va then v else pte_of m pt va')"
proof -
  have n: "node m' pt p = node m pt p" if "vpath p" for p
    unfolding m'_def by (rule node_store_leaf [OF ok _ _ a PX_less that]) simp_all
  show pg: "pt_pages m' pt = pt_pages m pt" using n by (auto simp: pt_pages_def)
  show "pt_ok m' pt"
  proof (rule pt_ok_transfer [OF ok n])
    fix i p c assume ip: "vpath (i # p)" and c: "node m pt p = Some c"
    then have v: "vpath p" "length p < 2" "i < 512" by (auto simp: vpath_Cons)
    then have "c \<noteq> a" using pt_ok_inj [OF ok v(1) _ c, of "path_of 0 va"] a by auto
    moreover have "page_aligned c" "page_aligned a"
      using pt_ok_page [OF ok] node_in_pages [OF v(1) c] node_in_pages [OF _ a] by auto
    ultimately show "load64 m' (ent c i) = load64 m (ent c i)"
      unfolding m'_def using v(3) PX_less by (intro load64_ent_other) auto
  qed
  have al: "page_aligned a" using pt_ok_page [OF ok node_in_pages [OF _ a]] by simp
  assume va': "va' < SV39"
  show "pte_of m' pt va' = (if PGROUNDDOWN va' = PGROUNDDOWN va then v else pte_of m pt va')"
  proof (cases "node m pt (path_of 0 va')")
    case None
    moreover from this a have "PGROUNDDOWN va' \<noteq> PGROUNDDOWN va" by (auto simp: same_page_path va va')
    ultimately show ?thesis using n [of "path_of 0 va'"] by (simp add: pte_of_def)
  next
    case (Some b)
    have bal: "page_aligned b" using pt_ok_page [OF ok node_in_pages [OF _ Some]] by simp
    have same: "a = b \<longleftrightarrow> path_of 0 va = path_of 0 va'"
      using pt_ok_inj [OF ok, of "path_of 0 va" "path_of 0 va'"] a Some by auto
    have *: "pte_of m' pt va' = load64 m' (ent b (unat (PX 0 va')))"
      using n [of "path_of 0 va'"] Some by (simp add: pte_of_def)
    show ?thesis
    proof (cases "PGROUNDDOWN va' = PGROUNDDOWN va")
      case True
      then have "b = a" "PX 0 va' = PX 0 va" using same by (auto simp: same_page_path va va')
      then show ?thesis using * True by (simp add: m'_def)
    next
      case False
      then have "b \<noteq> a \<or> unat (PX 0 va') \<noteq> unat (PX 0 va)"
        using same unat_of_natD [of "PX 0 va'" "unat (PX 0 va)"] by (auto simp: same_page_path va va')
      then have "load64 m' (ent b (unat (PX 0 va'))) = load64 m (ent b (unat (PX 0 va')))"
        unfolding m'_def by (intro load64_ent_other al bal PX_less)
      then show ?thesis using * False Some by (simp add: pte_of_def)
    qed
  qed
qed

section \<open>Adding a page to the tree\<close>

lemma PTE_V_1: "PTE_V = 1"
  by (simp add: PTE_V_def)

lemma dir_entry:
  assumes "page_aligned b" "b < 2 ^ 56"
  shows "(PA2PTE b OR PTE_V) AND PTE_V \<noteq> 0" "PTE2PA (PA2PTE b OR PTE_V) = b"
proof -
  have "bit (PA2PTE b OR PTE_V) 0" by (simp add: PTE_V_1 bit_or_iff)
  moreover have "x AND PTE_V \<noteq> 0 \<longleftrightarrow> bit x 0" for x
    by (simp add: PTE_V_1 and_one_eq bit_0 odd_iff_mod_2_eq_one)
  ultimately show "(PA2PTE b OR PTE_V) AND PTE_V \<noteq> 0" by blast
  show "PTE2PA (PA2PTE b OR PTE_V) = b"
    by (rule PTE2PA_PA2PTE [OF assms]) (simp add: PTE_V_1)
qed

lemma dir_entry_ok:
  assumes "page_aligned b" "b < 2 ^ 56"
  shows "dir_ok (PA2PTE b OR PTE_V)"
proof -
  have "PTE_FLAGS (PA2PTE b OR PTE_V) = PTE_V"
    using assms by (simp add: PTE_FLAGS_PA2PTE PTE_V_1)
  then have "(PA2PTE b OR PTE_V) AND 0x3FF = 1" by (simp add: PTE_FLAGS_def PTE_V_1)
  moreover have "(PA2PTE b OR PTE_V) AND 14 = ((PA2PTE b OR PTE_V) AND 0x3FF) AND 14"
    by (simp add: and.assoc)
  ultimately show ?thesis by (simp add: dir_ok_def pte_bits)
qed

lemma add_dir_entry:
  assumes "page_aligned a" "page_aligned b" "a \<noteq> b" "i < 512" "page_aligned c" "k < 512"
  shows "load64 (store64 (fill_page m b 0) (ent a i) v) (ent c k) =
    (if c = a \<and> k = i then v else if c = b then 0 else load64 m (ent c k))"
  using assms by (auto simp: load64_ent_other load64_fill_ent_other load64_fill_ent_zero)

lemma node_add_dir:
  assumes ok: "pt_ok m pt" and ip: "vpath (i # p)" and a: "node m pt p = Some a"
    and inval: "load64 m (ent a i) AND PTE_V = 0"
    and b: "page_aligned b" "b < 2 ^ 56" "b \<notin> pt_pages m pt"
  defines "m' \<equiv> store64 (fill_page m b 0) (ent a i) (PA2PTE b OR PTE_V)"
  shows "vpath q \<Longrightarrow> node m' pt q =
    (if q = i # p then Some b else if q \<noteq> [] \<and> tl q = i # p then None else node m pt q)"
proof (induction q)
  case Nil
  then show ?case by simp
next
  case (Cons j q)
  have i: "i < 512" "vpath p" using ip by (simp_all add: vpath_Cons)
  have apg: "a \<in> pt_pages m pt" using node_in_pages a i by blast
  have al: "page_aligned a" and ab: "a \<noteq> b" using pt_ok_page [OF ok apg] apg b(3) by auto
  have jq: "j < 512" "vpath q" "length q < 2" using Cons.prems by (simp_all add: vpath_Cons)
  have IH: "node m' pt q =
      (if q = i # p then Some b else if q \<noteq> [] \<and> tl q = i # p then None else node m pt q)"
    using Cons.IH jq(2) .
  have entry: "load64 m' (ent c k) =
      (if c = a \<and> k = i then PA2PTE b OR PTE_V else if c = b then 0 else load64 m (ent c k))"
    if "page_aligned c" "k < 512" for c k
    unfolding m'_def using that al b(1) ab i by (simp add: add_dir_entry)
  show ?case
  proof (cases "q = i # p")
    case True
    then show ?thesis
      using IH entry [OF b(1) jq(1)] ab a inval by (auto simp: Let_def)
  next
    case F1: False
    have F2: "\<not> (q \<noteq> [] \<and> tl q = i # p)"
      using jq(3) by (cases q) auto
    with F1 IH have IH': "node m' pt q = node m pt q" by simp
    show ?thesis
    proof (cases "node m pt q")
      case None
      with IH' a F1 show ?thesis by auto
    next
      case (Some c)
      have c: "page_aligned c" "c \<noteq> b"
        using pt_ok_page [OF ok] node_in_pages [OF jq(2) Some] b(3) by auto
      show ?thesis
      proof (cases "c = a \<and> j = i")
        case True
        then have "q = p" using pt_ok_inj [OF ok jq(2) i(2) Some] a by simp
        then show ?thesis
          using True IH' Some entry [OF c(1) jq(1)] dir_entry [OF b(1,2)] by (simp add: Let_def)
      next
        case False
        then have "j # q \<noteq> i # p" using Some a by auto
        then show ?thesis
          using False F1 F2 IH' Some c entry [OF c(1) jq(1)] by (auto simp: Let_def)
      qed
    qed
  qed
qed

lemma add_dir:
  assumes ok: "pt_ok m pt" and ip: "vpath (i # p)" and a: "node m pt p = Some a"
    and inval: "load64 m (ent a i) AND PTE_V = 0"
    and b: "page_aligned b" "b \<noteq> 0" "b < 2 ^ 56" "b \<notin> pt_pages m pt"
  defines "m' \<equiv> store64 (fill_page m b 0) (ent a i) (PA2PTE b OR PTE_V)"
  shows "node m' pt (i # p) = Some b" "pt_pages m' pt = insert b (pt_pages m pt)" "pt_ok m' pt"
    "pte_of m' pt va = pte_of m pt va"
proof -
  have i: "i < 512" "vpath p" "length p < 2" using ip by (simp_all add: vpath_Cons)
  have none: "node m pt (i # p) = None" using a inval by simp
  then have none': "node m pt (j # i # p) = None" for j by simp
  have n: "vpath q \<Longrightarrow> node m' pt q =
      (if q = i # p then Some b else if q \<noteq> [] \<and> tl q = i # p then None else node m pt q)" for q
    unfolding m'_def by (rule node_add_dir [OF ok ip a inval b(1,3,4)])
  have n': "node m' pt q = Some c \<longleftrightarrow> q = i # p \<and> c = b \<or> node m pt q = Some c" if "vpath q" for q c
    using n [OF that] none none' by (cases q) (auto split: if_splits)
  show "node m' pt (i # p) = Some b" using n [OF ip] by simp
  show pg: "pt_pages m' pt = insert b (pt_pages m pt)"
    using n' ip by (auto simp: pt_pages_def)
  have apg: "a \<in> pt_pages m pt" using node_in_pages a i by blast
  have al: "page_aligned a" using pt_ok_page [OF ok apg] by simp
  have ab: "a \<noteq> b" using apg b(4) by auto
  show "pt_ok m' pt"
  proof (rule pt_okI)
    show "page_aligned c \<and> c \<noteq> 0" if "c \<in> pt_pages m' pt" for c
      using that b pt_ok_page [OF ok] pg by auto
  next
    fix j q c assume jq: "vpath (j # q)" "node m' pt q = Some c"
    then have v: "vpath q" "j < 512" by (simp_all add: vpath_Cons)
    have cal: "page_aligned c" using node_in_pages [OF v(1) jq(2)] b(1) pt_ok_page [OF ok] pg by auto
    have "dir_ok (load64 m (ent c j))" if "c \<noteq> b"
      using n' [OF v(1), of c] that jq pt_ok_dir [OF ok jq(1)] by auto
    then show "dir_ok (load64 m' (ent c j))"
      unfolding m'_def add_dir_entry [OF al b(1) ab i(1) cal v(2)]
      using dir_entry_ok [OF b(1,3)] by (simp add: dir_ok_def)
  next
    fix q r c
    assume q: "vpath q" "vpath r" "node m' pt q = Some c" "node m' pt r = Some c"
    show "q = r"
      using n' [OF q(1)] n' [OF q(2)] q(3,4) node_in_pages [OF q(1)] node_in_pages [OF q(2)] b(4)
        pt_ok_inj [OF ok q(1,2)] by metis
  qed
  show "pte_of m' pt va = pte_of m pt va"
  proof (cases "path_of 0 va = i # p")
    case True
    have "load64 m' (ent b (unat (PX 0 va))) = 0"
      unfolding m'_def add_dir_entry [OF al b(1) ab i(1) b(1) PX_less] using ab by simp
    then show ?thesis using n [OF vpath_path_of, of 0 va] True none by (simp add: pte_of_def)
  next
    case False
    show ?thesis
    proof (cases "node m pt (path_of 0 va)")
      case None
      then have "node m' pt (path_of 0 va) = None" using n [OF vpath_path_of, of 0 va] False by auto
      with None show ?thesis by (simp add: pte_of_def)
    next
      case (Some c)
      have m'c: "node m' pt (path_of 0 va) = Some c" using n' [OF vpath_path_of] Some by blast
      have c: "page_aligned c" "c \<noteq> b"
        using pt_ok_page [OF ok] node_in_pages [OF vpath_path_of Some] b(4) by auto
      have "c \<noteq> a" using pt_ok_inj [OF ok vpath_path_of i(2) Some] a i(3) by auto
      then have "load64 m' (ent c (unat (PX 0 va))) = load64 m (ent c (unat (PX 0 va)))"
        using c al b(1) i(1) by (simp add: m'_def load64_ent_other load64_fill_ent_other PX_less)
      with m'c Some show ?thesis by (simp add: pte_of_def)
    qed
  qed
qed

section \<open>Frames\<close>

lemma fill_fill [simp]: "fill_page (fill_page m a c) a d = fill_page m a d"
  by (rule ext) (simp add: fill_page_def writebytes_def)

lemma ent_page:
  assumes "page_aligned a" "i < 512" "j < 8"
  shows "PGROUNDDOWN (ent a i + of_nat j) = a"
proof -
  have e: "unat (ent a i + of_nat j) = unat a + 8 * i + j"
    using assms page_end [of a] by (subst unat_add_lt64) (simp_all add: unat_ent unat_of_nat64)
  show ?thesis
    using assms e by (auto simp: word_unat_eq_iff unat_PGROUNDDOWN page_aligned_dvd elim!: dvdE)
qed

lemma store64_ent_frame:
  assumes "page_aligned a" "i < 512" "PGROUNDDOWN x \<noteq> a"
  shows "store64 m (ent a i) v x = m x"
proof -
  have "\<not> unat (x - ent a i) < 8"
  proof
    assume lt: "unat (x - ent a i) < 8"
    have "x = ent a i + of_nat (unat (x - ent a i))" by simp
    with ent_page [OF assms(1,2) lt] assms(3) show False by simp
  qed
  then show ?thesis by (simp add: store64_def writebytes_def)
qed

lemma ent_0 [simp]: "ent a 0 = a"
  by (simp add: ent_def)

lemma kmem_state_pmem:
  assumes "kmem_state s fs" "\<And>x. PGROUNDDOWN x \<in> set fs \<Longrightarrow> m x = pmem s x"
  shows "kmem_state (s\<lparr>pmem := m\<rparr>) fs"
proof -
  have "load64 m a = load64 (pmem s) a" if "a \<in> set fs" for a
    using load64_pages_agree [of a 0 m "pmem s"] that assms
    by (auto simp: kmem_state_def kmem_inv_def usable_def)
  then have "flist m (freelist s) fs"
    by (rule flist_agree [of _ _ "pmem s"]) (use assms(1) in \<open>simp_all add: kmem_state_def kmem_inv_def\<close>)
  then show ?thesis using assms(1) by (simp add: kmem_state_def kmem_inv_def)
qed

text \<open>Two states that differ in memory and in the free list only.\<close>

definition only_mem :: "kernel \<Rightarrow> kernel \<Rightarrow> bool" where
  "only_mem s t \<longleftrightarrow> (\<exists>f m. t = s\<lparr>freelist := f, pmem := m\<rparr>)"

lemma only_memI: "only_mem s (s\<lparr>freelist := f, pmem := m\<rparr>)"
  by (unfold only_mem_def) blast

lemma only_memI': "only_mem s (s\<lparr>pmem := m, freelist := f\<rparr>)"
proof -
  have "s\<lparr>pmem := m, freelist := f\<rparr> = s\<lparr>freelist := f, pmem := m\<rparr>"
    by (rule kernel.equality) simp_all
  then show ?thesis by (simp only: only_memI)
qed

lemma only_memE:
  assumes "only_mem s t" obtains f m where "t = s\<lparr>freelist := f, pmem := m\<rparr>"
  using assms by (auto simp: only_mem_def)

lemma only_mem_refl [simp]: "only_mem s s"
  using only_memI [where s = s and f = "freelist s" and m = "pmem s"] by simp

lemma only_mem_upd [simp]:
  "only_mem s t \<Longrightarrow> only_mem s (t\<lparr>pmem := m\<rparr>)"
  "only_mem s t \<Longrightarrow> only_mem s (t\<lparr>freelist := f\<rparr>)"
  by (auto elim!: only_memE simp: only_memI only_memI')

lemma only_mem_trans: "only_mem s t \<Longrightarrow> only_mem t u \<Longrightarrow> only_mem s u"
  by (auto elim!: only_memE simp: only_memI)

lemma only_mem_fields:
  "only_mem s t \<Longrightarrow> syms t = syms s" "only_mem s t \<Longrightarrow> hw t = hw s" "only_mem s t \<Longrightarrow> procs t = procs s"
  by (auto simp: only_mem_def)

section \<open>The invariant\<close>

definition vm_inv :: "kernel \<Rightarrow> addr \<Rightarrow> addr list \<Rightarrow> bool" where
  "vm_inv s pt fs \<longleftrightarrow> kmem_state s fs \<and> pt_ok (pmem s) pt \<and>
     (\<forall>a \<in> pt_pages (pmem s) pt. usable (syms s) a \<and> a \<notin> set fs)"

text \<open>What \<^verbatim>\<open>walk\<close> does to the tree: it takes pages \<open>used\<close> off the free list and makes them nodes.\<close>

definition tree_grows :: "kernel \<Rightarrow> kernel \<Rightarrow> addr \<Rightarrow> addr list \<Rightarrow> addr list \<Rightarrow> bool" where
  "tree_grows s t pt fs fs' \<longleftrightarrow>
     vm_inv t pt fs' \<and> only_mem s t \<and>
     (\<exists>used. fs = used @ fs' \<and> pt_pages (pmem t) pt = pt_pages (pmem s) pt \<union> set used) \<and>
     (\<forall>va. pte_of (pmem t) pt va = pte_of (pmem s) pt va) \<and>
     (\<forall>x. PGROUNDDOWN x \<notin> pt_pages (pmem t) pt \<longrightarrow> pmem t x = pmem s x)"

lemma tree_grows_refl: "vm_inv s pt fs \<Longrightarrow> tree_grows s s pt fs fs"
  by (simp add: tree_grows_def)

lemma tree_grows_trans:
  assumes "tree_grows s t pt fs fs'" "tree_grows t u pt fs' fs''"
  shows "tree_grows s u pt fs fs''"
proof -
  from assms obtain us vs
    where "fs = us @ fs'" "pt_pages (pmem t) pt = pt_pages (pmem s) pt \<union> set us"
      and "fs' = vs @ fs''" "pt_pages (pmem u) pt = pt_pages (pmem t) pt \<union> set vs"
    by (auto simp: tree_grows_def)
  then have "fs = (us @ vs) @ fs''" "pt_pages (pmem u) pt = pt_pages (pmem s) pt \<union> set (us @ vs)"
    by auto
  moreover have "pt_pages (pmem t) pt \<subseteq> pt_pages (pmem u) pt"
    using assms(2) by (auto simp: tree_grows_def)
  ultimately show ?thesis
    using assms unfolding tree_grows_def by (auto intro: only_mem_trans)
qed

section \<open>\<^verbatim>\<open>walk\<close>\<close>

lemma path_of_Suc: "l \<le> 1 \<Longrightarrow> path_of l va = unat (PX (Suc l) va) # path_of (Suc l) va"
  by (simp add: path_of_def upt_conv_Cons)

lemma walk_loop_lookup:
  "l \<le> 2 \<Longrightarrow> node (pmem s) pt (path_of l va) = Some a \<Longrightarrow>
   walk_loop l a va False w s =
     Ret (case node (pmem s) pt (path_of 0 va) of None \<Rightarrow> 0 | Some b \<Rightarrow> ent b (unat (PX 0 va))) s w"
proof (induction l arbitrary: a)
  case 0
  then show ?case by (simp add: kapply ent_PX Let_def)
next
  case (Suc l)
  let ?e = "load64 (pmem s) (ent a (unat (PX (Suc l) va)))"
  have p: "path_of l va = unat (PX (Suc l) va) # path_of (Suc l) va"
    using Suc.prems(1) by (intro path_of_Suc) simp
  show ?case
  proof (cases "?e AND PTE_V = 0")
    case True
    then have "node (pmem s) pt (path_of l va) = None" using Suc.prems(2) by (simp add: p)
    moreover have "l = 0 \<or> l = 1" using Suc.prems(1) by auto
    ultimately have "node (pmem s) pt (path_of 0 va) = None" by (auto simp: path_of_simps)
    with True show ?thesis by (simp add: kapply ent_PX Let_def)
  next
    case False
    then have "node (pmem s) pt (path_of l va) = Some (PTE2PA ?e)" using Suc.prems(2) by (simp add: p)
    then show ?thesis using Suc.IH [of "PTE2PA ?e"] Suc.prems(1) False by (simp add: kapply ent_PX Let_def)
  qed
qed

lemma walk_lookup:
  "walk pt va False w s =
     (if MAXVA \<le> va then Panic ''walk'' else
      Ret (case node (pmem s) pt (path_of 0 va) of None \<Rightarrow> 0 | Some b \<Rightarrow> ent b (unat (PX 0 va))) s w)"
  using walk_loop_lookup [of 2 s pt va pt w] by (simp add: walk_def kapply path_of_simps)

lemma vm_inv_page:
  "vm_inv s pt fs \<Longrightarrow> a \<in> pt_pages (pmem s) pt \<Longrightarrow> page_aligned a \<and> a \<noteq> 0 \<and> usable (syms s) a \<and> a \<notin> set fs"
  using pt_ok_page by (auto simp: vm_inv_def)

lemma kmem_state_Cons:
  "kmem_state s (b # fs) \<Longrightarrow>
     b \<notin> set fs \<and> usable (syms s) b \<and> page_aligned b \<and> b \<noteq> 0 \<and> b < 2 ^ 56"
  using kmem.inv_pages [of s "b # fs"] usable_below_2_56 usable_aligned by auto

text \<open>The step in which \<^verbatim>\<open>walk\<close> puts a fresh page \<open>b\<close> under entry \<open>i\<close> of the page \<open>a\<close>.\<close>

lemma tree_grows_add:
  assumes inv: "vm_inv s pt (b # fs)" and ip: "vpath (i # p)" and a: "node (pmem s) pt p = Some a"
    and inval: "load64 (pmem s) (ent a i) AND PTE_V = 0"
  defines "t \<equiv> s\<lparr>freelist := load64 (pmem s) b,
                 pmem := store64 (fill_page (pmem s) b 0) (ent a i) (PA2PTE b OR PTE_V)\<rparr>"
  shows "tree_grows s t pt (b # fs) fs" "node (pmem t) pt (i # p) = Some b"
proof -
  have st: "kmem_state s (b # fs)" and ok: "pt_ok (pmem s) pt" using inv by (auto simp: vm_inv_def)
  note b = kmem_state_Cons [OF st]
  have new: "b \<notin> pt_pages (pmem s) pt" using inv by (auto simp: vm_inv_def)
  have i: "i < 512" "vpath p" using ip by (simp_all add: vpath_Cons)
  note ap = vm_inv_page [OF inv node_in_pages [OF i(2) a]]
  have "pmem t = store64 (fill_page (pmem s) b 0) (ent a i) (PA2PTE b OR PTE_V)" by (simp add: t_def)
  note d = add_dir [OF ok ip a inval, of b, folded this]
  have d': "node (pmem t) pt (i # p) = Some b" "pt_pages (pmem t) pt = insert b (pt_pages (pmem s) pt)"
    "pt_ok (pmem t) pt" "pte_of (pmem t) pt va = pte_of (pmem s) pt va" for va
    using d b new by auto
  show "node (pmem t) pt (i # p) = Some b" by (rule d'(1))
  have frame: "pmem t x = pmem s x" if "PGROUNDDOWN x \<noteq> b" "PGROUNDDOWN x \<noteq> a" for x
    using that ap b i by (simp add: t_def store64_ent_frame fill_page_frame)
  let ?u = "s\<lparr>freelist := load64 (pmem s) b, pmem := fill_page (pmem s) b 5\<rparr>"
  have u: "kmem_state ?u fs" by (rule kalloc_state [OF st])
  have "kmem_state (?u\<lparr>pmem := pmem t\<rparr>) fs"
  proof (rule kmem_state_pmem [OF u])
    fix x assume x: "PGROUNDDOWN x \<in> set fs"
    then have "PGROUNDDOWN x \<noteq> b" "PGROUNDDOWN x \<noteq> a" using b ap by auto
    then show "pmem t x = pmem ?u x" using frame b by (simp add: fill_page_frame)
  qed
  then have "kmem_state t fs" by (simp add: t_def)
  moreover have "syms t = syms s" by (simp add: t_def)
  then have "\<forall>c \<in> pt_pages (pmem t) pt. usable (syms t) c \<and> c \<notin> set fs"
    using inv b by (auto simp: d'(2) vm_inv_def)
  moreover have "only_mem s t" by (simp add: t_def only_memI)
  moreover have "pmem t x = pmem s x" if "PGROUNDDOWN x \<notin> pt_pages (pmem t) pt" for x
    using frame [of x] that d'(2) node_in_pages [OF i(2) a] by auto
  ultimately show "tree_grows s t pt (b # fs) fs"
    using d' by (auto simp: tree_grows_def vm_inv_def intro!: exI [of _ "[b]"])
qed

lemma walk_loop_alloc:
  assumes "vm_inv s pt fs" "node (pmem s) pt (path_of l va) = Some a" "l \<le> 2"
  shows "\<exists>r t fs'. walk_loop l a va True w s = Ret r t w \<and> tree_grows s t pt fs fs' \<and>
     (if r = 0 then fs' = []
      else \<exists>b. node (pmem t) pt (path_of 0 va) = Some b \<and> r = ent b (unat (PX 0 va))) \<and>
     length fs \<le> length fs' + l \<and> (r = 0 \<longrightarrow> length fs < l)"
  using assms
proof (induction l arbitrary: s fs a)
  case 0
  then have "ent a (unat (PX 0 va)) \<noteq> 0"
    using vm_inv_page [OF 0(1) node_in_pages [OF vpath_path_of 0(2)]] by (simp add: ent_nonzero PX_less)
  with 0 show ?case using tree_grows_refl [OF 0(1)] by (auto simp: kapply ent_PX)
next
  case (Suc l)
  let ?i = "unat (PX (Suc l) va)"
  let ?e = "load64 (pmem s) (ent a ?i)"
  have p: "path_of l va = ?i # path_of (Suc l) va"
    using Suc.prems(3) by (intro path_of_Suc) simp
  show ?case
  proof (cases "?e AND PTE_V = 0")
    case False
    then have n: "node (pmem s) pt (path_of l va) = Some (PTE2PA ?e)" using Suc.prems(2) by (simp add: p)
    with Suc.IH [OF Suc.prems(1) n] Suc.prems(3) False show ?thesis
      by (simp add: kapply ent_PX Let_def) (meson le_SucI less_SucI)
  next
    case inval: True
    have st: "kmem_state s fs" using Suc.prems(1) by (simp add: vm_inv_def)
    show ?thesis
    proof (cases fs)
      case Nil
      then have "kalloc w s = Ret 0 s w" using kalloc_Nil st by simp
      with inval Nil show ?thesis
        using tree_grows_refl [OF Suc.prems(1)] by (auto simp: kapply ent_PX Let_def)
    next
      case (Cons b gs)
      let ?t = "s\<lparr>freelist := load64 (pmem s) b,
                  pmem := store64 (fill_page (pmem s) b 0) (ent a ?i) (PA2PTE b OR PTE_V)\<rparr>"
      have st': "kmem_state s (b # gs)" using st Cons by simp
      have "vpath (?i # path_of (Suc l) va)" using vpath_path_of [of l va] p by simp
      note g = tree_grows_add [OF Suc.prems(1) [unfolded Cons] this Suc.prems(2) inval]
      have inv: "vm_inv ?t pt gs" using g(1) by (simp add: tree_grows_def)
      have n: "node (pmem ?t) pt (path_of l va) = Some b" using g(2) by (simp only: p)
      have run: "walk_loop (Suc l) a va True w s = walk_loop l b va True w ?t"
        using kalloc_Cons [OF st', of w] kmem_state_Cons [OF st'] inval
        by (simp add: kapply ent_PX Let_def)
      from Suc.IH [OF inv n] Suc.prems(3) obtain r t fs' where
        "walk_loop l b va True w ?t = Ret r t w" "tree_grows ?t t pt gs fs'"
        "if r = 0 then fs' = []
         else \<exists>b. node (pmem t) pt (path_of 0 va) = Some b \<and> r = ent b (unat (PX 0 va))"
        "length gs \<le> length fs' + l" "r = 0 \<longrightarrow> length gs < l"
        by auto
      moreover from this(2) g(1) have "tree_grows s t pt fs fs'"
        unfolding Cons by (rule tree_grows_trans [rotated])
      ultimately show ?thesis using run Cons by (intro exI [of _ r] exI [of _ t] exI [of _ fs']) auto
    qed
  qed
qed

lemma walk_alloc:
  assumes "vm_inv s pt fs" "va < MAXVA"
  shows "\<exists>r t fs'. walk pt va True w s = Ret r t w \<and> tree_grows s t pt fs fs' \<and>
     (if r = 0 then fs' = []
      else \<exists>b. node (pmem t) pt (path_of 0 va) = Some b \<and> r = ent b (unat (PX 0 va))) \<and>
     length fs \<le> length fs' + 2 \<and> (r = 0 \<longrightarrow> length fs < 2)"
proof -
  have "node (pmem s) pt (path_of 2 va) = Some pt" by (simp add: path_of_simps)
  note walk_loop_alloc [OF assms(1) this, of w]
  moreover have "\<not> MAXVA \<le> va" using assms(2) by (simp add: not_le)
  then have "walk pt va True = walk_loop 2 pt va True" by (simp add: walk_def)
  ultimately show ?thesis by simp
qed

section \<open>Steps on the map\<close>

text \<open>
  A step from \<open>s\<close> to \<open>t\<close> after which the map is \<open>f\<close>. Pages of the free list may have become nodes; no
  byte outside the tree has changed.
\<close>

definition pt_step :: "kernel \<Rightarrow> kernel \<Rightarrow> addr \<Rightarrow> addr list \<Rightarrow> addr list \<Rightarrow> (addr \<Rightarrow> uint64) \<Rightarrow> bool" where
  "pt_step s t pt fs fs' f \<longleftrightarrow>
     vm_inv t pt fs' \<and> only_mem s t \<and>
     (\<exists>used. fs = used @ fs' \<and> pt_pages (pmem t) pt = pt_pages (pmem s) pt \<union> set used) \<and>
     (\<forall>va < SV39. pte_of (pmem t) pt va = f va) \<and>
     (\<forall>x. PGROUNDDOWN x \<notin> pt_pages (pmem t) pt \<longrightarrow> pmem t x = pmem s x)"

lemma tree_grows_step: "tree_grows s t pt fs fs' \<Longrightarrow> pt_step s t pt fs fs' (pte_of (pmem s) pt)"
  by (simp add: tree_grows_def pt_step_def)

lemma pt_step_vm_inv: "pt_step s t pt fs fs' f \<Longrightarrow> vm_inv t pt fs'"
  by (simp add: pt_step_def)

lemma pt_step_pte: "pt_step s t pt fs fs' f \<Longrightarrow> va < SV39 \<Longrightarrow> pte_of (pmem t) pt va = f va"
  by (simp add: pt_step_def)

lemma pt_step_trans:
  assumes "pt_step s t pt fs fs' f" "pt_step t u pt fs' fs'' g"
  shows "pt_step s u pt fs fs'' g"
proof -
  from assms obtain us vs
    where "fs = us @ fs'" "pt_pages (pmem t) pt = pt_pages (pmem s) pt \<union> set us"
      and "fs' = vs @ fs''" "pt_pages (pmem u) pt = pt_pages (pmem t) pt \<union> set vs"
    by (auto simp: pt_step_def)
  then have "fs = (us @ vs) @ fs''" "pt_pages (pmem u) pt = pt_pages (pmem s) pt \<union> set (us @ vs)"
    by auto
  moreover have "pt_pages (pmem t) pt \<subseteq> pt_pages (pmem u) pt"
    using assms(2) by (auto simp: pt_step_def)
  ultimately show ?thesis
    using assms unfolding pt_step_def by (auto intro: only_mem_trans)
qed

lemma pt_step_cong:
  "pt_step s t pt fs fs' f \<Longrightarrow> (\<And>va. va < SV39 \<Longrightarrow> f va = g va) \<Longrightarrow> pt_step s t pt fs fs' g"
  by (simp add: pt_step_def)

definition upd_page :: "(addr \<Rightarrow> uint64) \<Rightarrow> addr \<Rightarrow> uint64 \<Rightarrow> addr \<Rightarrow> uint64" where
  "upd_page f va v va' = (if PGROUNDDOWN va' = PGROUNDDOWN va then v else f va')"

lemma pt_step_store:
  assumes inv: "vm_inv t pt fs" and b: "node (pmem t) pt (path_of 0 va) = Some b" and va: "va < SV39"
  shows "pt_step t (t\<lparr>pmem := store64 (pmem t) (ent b (unat (PX 0 va))) v\<rparr>) pt fs fs
           (upd_page (pte_of (pmem t) pt) va v)"
proof -
  let ?u = "t\<lparr>pmem := store64 (pmem t) (ent b (unat (PX 0 va))) v\<rparr>"
  have ok: "pt_ok (pmem t) pt" using inv by (simp add: vm_inv_def)
  note sl = store_leaf [OF ok b va, where v = v]
  note bp = vm_inv_page [OF inv node_in_pages [OF vpath_path_of b]]
  have frame: "pmem ?u x = pmem t x" if "PGROUNDDOWN x \<noteq> b" for x
    using that bp by (simp add: store64_ent_frame PX_less)
  have "kmem_state ?u fs"
  proof (rule kmem_state_pmem)
    show "kmem_state t fs" using inv by (simp add: vm_inv_def)
    fix x assume "PGROUNDDOWN x \<in> set fs"
    then have "PGROUNDDOWN x \<noteq> b" using bp by auto
    then show "store64 (pmem t) (ent b (unat (PX 0 va))) v x = pmem t x" using frame by simp
  qed
  then have "vm_inv ?u pt fs" using inv sl by (simp add: vm_inv_def)
  moreover have "only_mem t ?u" by simp
  moreover have "pmem ?u x = pmem t x" if "PGROUNDDOWN x \<notin> pt_pages (pmem ?u) pt" for x
  proof (rule frame)
    show "PGROUNDDOWN x \<noteq> b" using that sl(2) node_in_pages [OF vpath_path_of b] by auto
  qed
  ultimately show ?thesis using sl by (simp add: pt_step_def upd_page_def)
qed

section \<open>\<^verbatim>\<open>mappages\<close>\<close>

text \<open>The map in which the first \<open>j\<close> pages from \<open>a\<close> on have been mapped to the pages from \<open>pa\<close> on.\<close>

definition map_range :: "(addr \<Rightarrow> uint64) \<Rightarrow> addr \<Rightarrow> addr \<Rightarrow> uint64 \<Rightarrow> nat \<Rightarrow> addr \<Rightarrow> uint64" where
  "map_range f a pa perm j va =
     (let k = unat (PGROUNDDOWN va) div 4096 - unat a div 4096
      in if a \<le> PGROUNDDOWN va \<and> k < j then PA2PTE (pa + of_nat (4096 * k)) OR perm OR PTE_V
         else f va)"

lemma map_range_0 [simp]: "map_range f a pa perm 0 = f"
  by (rule ext) (simp add: map_range_def)

lemma page_eq_iff:
  assumes "page_aligned a"
  shows "PGROUNDDOWN va = a \<longleftrightarrow> unat va div 4096 = unat a div 4096"
  using assms by (auto simp: word_unat_eq_iff unat_PGROUNDDOWN page_aligned_dvd)

lemma map_range_Suc:
  assumes "page_aligned a" "unat a + 4096 < 2 ^ 64"
  shows "map_range (upd_page f a (PA2PTE pa OR perm OR PTE_V)) (a + PGSIZE) (pa + PGSIZE) perm j va =
         map_range f a pa perm (Suc j) va"
proof -
  have ua: "unat (a + PGSIZE) = unat a + 4096"
    using assms(2) by (simp add: PGSIZE_def unat_add_lt64)
  obtain q where q: "unat a = 4096 * q" using assms(1) by (auto simp: page_aligned_dvd)
  let ?k = "unat (PGROUNDDOWN va) div 4096 - unat a div 4096"
  have v: "unat (PGROUNDDOWN va) = unat va div 4096 * 4096" by (rule unat_PGROUNDDOWN)
  have le: "a \<le> PGROUNDDOWN va \<longleftrightarrow> q \<le> unat va div 4096"
    using q v by (simp add: word_le_nat_alt)
  have le': "a + PGSIZE \<le> PGROUNDDOWN va \<longleftrightarrow> Suc q \<le> unat va div 4096"
    unfolding word_le_nat_alt ua q v by linarith
  have eq: "PGROUNDDOWN va = PGROUNDDOWN a \<longleftrightarrow> unat va div 4096 = q"
    using page_eq_iff [of a va] q PGROUNDDOWN_aligned [of a] assms(1) by simp
  have k: "?k = unat va div 4096 - q" using q v by simp
  have k': "unat (PGROUNDDOWN va) div 4096 - unat (a + PGSIZE) div 4096 = unat va div 4096 - Suc q"
    using q v ua by simp
  consider "unat va div 4096 < q" | "unat va div 4096 = q" | "Suc q \<le> unat va div 4096" by linarith
  then show ?thesis
  proof cases
    case 3
    then obtain d where d: "unat va div 4096 = Suc q + d" by (metis le_iff_add)
    have "pa + PGSIZE + of_nat (4096 * d) = pa + of_nat (4096 * Suc d)"
      by (simp add: PGSIZE_def algebra_simps)
    then show ?thesis
      using d le le' eq k k' by (simp add: map_range_def upd_page_def Let_def add.assoc del: of_nat_mult)
  qed (use le le' eq k k' in \<open>auto simp: map_range_def upd_page_def Let_def\<close>)
qed

lemma pte_of_node: "node m pt (path_of 0 va) = Some b \<Longrightarrow> load64 m (ent b (unat (PX 0 va))) = pte_of m pt va"
  by (simp add: pte_of_def)

text \<open>One round: look the entry up, growing the tree, and set it.\<close>

lemma map_one:
  assumes inv: "vm_inv s pt fs" and va: "va < MAXVA" and free: "pte_of (pmem s) pt va AND PTE_V = 0"
  obtains (full) t where "walk pt va True w s = Ret 0 t w"
      "pt_step s t pt fs [] (pte_of (pmem s) pt)" "length fs < 2"
  | (found) r t fs' where "walk pt va True w s = Ret r t w" "r \<noteq> 0"
      "load64 (pmem t) r AND PTE_V = 0"
      "\<And>v. pt_step s (t\<lparr>pmem := store64 (pmem t) r v\<rparr>) pt fs fs' (upd_page (pte_of (pmem s) pt) va v)"
      "length fs \<le> length fs' + 2"
proof -
  from walk_alloc [OF inv va, of w] obtain r t fs' where
    run: "walk pt va True w s = Ret r t w" and g: "tree_grows s t pt fs fs'" and
    r: "if r = 0 then fs' = []
        else \<exists>b. node (pmem t) pt (path_of 0 va) = Some b \<and> r = ent b (unat (PX 0 va))" and
    len: "length fs \<le> length fs' + 2" "r = 0 \<longrightarrow> length fs < 2"
    by auto
  note step = tree_grows_step [OF g]
  show thesis
  proof (cases "r = 0")
    case True
    then show thesis using full run step r len by simp
  next
    case False
    with r obtain b where b: "node (pmem t) pt (path_of 0 va) = Some b" "r = ent b (unat (PX 0 va))"
      by auto
    have same: "pte_of (pmem t) pt va' = pte_of (pmem s) pt va'" for va'
      using g by (simp add: tree_grows_def)
    have ptes: "pte_of (pmem t) pt = pte_of (pmem s) pt" by (rule ext) (rule same)
    have "pt_step s (t\<lparr>pmem := store64 (pmem t) r v\<rparr>) pt fs fs' (upd_page (pte_of (pmem s) pt) va v)" for v
      using pt_step_trans [OF step pt_step_store [OF pt_step_vm_inv [OF step] b(1) MAXVA_SV39 [OF va]]]
      by (simp only: b(2) ptes)
    moreover have "load64 (pmem t) r AND PTE_V = 0"
      using free b same pte_of_node [OF b(1)] by simp
    ultimately show thesis using found run False len by blast
  qed
qed

lemma unat_add_page:
  fixes a :: addr
  assumes "unat a + 4096 * k < 2 ^ 64"
  shows "unat (a + of_nat (4096 * k)) = unat a + 4096 * k"
proof -
  have "unat (of_nat (4096 * k) :: 64 word) = 4096 * k" by (rule unat_of_nat64) (use assms in simp)
  then show ?thesis using unat_add_lt64 [of a "of_nat (4096 * k)"] assms by simp
qed

lemma mappages_loop_spec:
  assumes "vm_inv s pt fs" "page_aligned a" "unat a + 4096 * n \<le> 2 ^ 38" "0 < n" "n \<le> fuel"
    and "lst = a + of_nat (4096 * (n - 1))"
    and "\<And>k. k < n \<Longrightarrow> pte_of (pmem s) pt (a + of_nat (4096 * k)) AND PTE_V = 0"
  shows "\<exists>r t fs' j. mappages_loop fuel pt a lst pa perm w s = Ret r t w \<and>
    pt_step s t pt fs fs' (map_range (pte_of (pmem s) pt) a pa perm j) \<and>
    (r = 0 \<and> j = n \<and> length fs \<le> length fs' + 2 * n \<or> r = -1 \<and> j < n \<and> fs' = [] \<and> length fs < 2 * n)"
  using assms
proof (induction n arbitrary: s fs a pa fuel)
  case 0
  then show ?case by simp
next
  case (Suc n)
  obtain fuel' where fuel: "fuel = Suc fuel'" "n \<le> fuel'" using Suc.prems(5) by (cases fuel) auto
  have at: "unat (a + of_nat (4096 * k)) = unat a + 4096 * k" if "k \<le> n" for k
    using that Suc.prems(3) by (intro unat_add_page) simp
  have va: "a < MAXVA" using Suc.prems(3) by (simp add: word_less_nat_alt unat_MAXVA)
  have free: "pte_of (pmem s) pt a AND PTE_V = 0" using Suc.prems(7) [of 0] by simp
  from Suc.prems(1) va free show ?case
  proof (cases rule: map_one [where w = w])
    case (full t)
    then show ?thesis
      by (auto simp: fuel(1) kapply intro!: exI [of _ "[]"] exI [of _ 0])
  next
    case (found r t fs')
    let ?v = "PA2PTE pa OR perm OR PTE_V"
    let ?u = "t\<lparr>pmem := store64 (pmem t) r ?v\<rparr>"
    note step = found(4) [of ?v]
    show ?thesis
    proof (cases "n = 0")
      case True
      have "map_range (pte_of (pmem s) pt) a pa perm 1 va = upd_page (pte_of (pmem s) pt) a ?v va" for va
        using map_range_Suc [of a "pte_of (pmem s) pt" pa perm 0 va] Suc.prems(2,3) by simp
      then have "pt_step s ?u pt fs fs' (map_range (pte_of (pmem s) pt) a pa perm 1)"
        by (intro pt_step_cong [OF step]) simp
      moreover have "mappages_loop fuel pt a lst pa perm w s = Ret 0 ?u w"
        using found True Suc.prems(6) by (simp add: fuel(1) kapply)
      ultimately show ?thesis using True found(5) by auto
    next
      case False
      have next_a: "unat (a + PGSIZE) = unat a + 4096" using at [of 1] False by (simp add: PGSIZE_def)
      have "a \<noteq> lst"
        using at [of n] False Suc.prems(6) by (auto simp: word_unat_eq_iff)
      then have run: "mappages_loop fuel pt a lst pa perm w s =
          mappages_loop fuel' pt (a + PGSIZE) lst (pa + PGSIZE) perm w ?u"
        using found by (simp add: fuel(1) kapply)
      have al: "page_aligned (a + PGSIZE)" using Suc.prems(2) by (simp add: page_aligned_add)
      have l: "lst = a + PGSIZE + of_nat (4096 * (n - 1))"
        using Suc.prems(6) False by (cases n) (simp_all add: PGSIZE_def)
      have rest: "pte_of (pmem ?u) pt (a + PGSIZE + of_nat (4096 * k)) AND PTE_V = 0" if "k < n" for k
      proof -
        have eq: "a + PGSIZE + of_nat (4096 * k) = a + of_nat (4096 * Suc k)"
          by (simp add: PGSIZE_def)
        have u: "unat (a + of_nat (4096 * Suc k)) = unat a + 4096 * Suc k" using that by (intro at) simp
        then have "a + of_nat (4096 * Suc k) < MAXVA"
          using Suc.prems(3) that by (simp add: word_less_nat_alt unat_MAXVA)
        moreover have "PGROUNDDOWN (a + of_nat (4096 * Suc k)) \<noteq> PGROUNDDOWN a"
          using u by (auto simp: word_unat_eq_iff unat_PGROUNDDOWN)
        ultimately show ?thesis
          using pt_step_pte [OF step] Suc.prems(7) [of "Suc k"] that unfolding eq by (simp add: upd_page_def)
      qed
      from Suc.IH [OF pt_step_vm_inv [OF step] al _ _ fuel(2) l rest, of "pa + PGSIZE"] Suc.prems(3) False next_a
      obtain r' t' gs j where
        run': "mappages_loop fuel' pt (a + PGSIZE) lst (pa + PGSIZE) perm w ?u = Ret r' t' w" and
        step': "pt_step ?u t' pt fs' gs (map_range (pte_of (pmem ?u) pt) (a + PGSIZE) (pa + PGSIZE) perm j)" and
        res: "r' = 0 \<and> j = n \<and> length fs' \<le> length gs + 2 * n \<or> r' = -1 \<and> j < n \<and> gs = [] \<and> length fs' < 2 * n"
        by auto
      have "map_range (pte_of (pmem ?u) pt) (a + PGSIZE) (pa + PGSIZE) perm j va =
          map_range (pte_of (pmem s) pt) a pa perm (Suc j) va" if "va < SV39" for va
      proof -
        have "map_range (pte_of (pmem ?u) pt) (a + PGSIZE) (pa + PGSIZE) perm j va =
            map_range (upd_page (pte_of (pmem s) pt) a ?v) (a + PGSIZE) (pa + PGSIZE) perm j va"
          using pt_step_pte [OF step that] by (simp add: map_range_def Let_def)
        then show ?thesis using map_range_Suc [of a] Suc.prems(2,3) by simp
      qed
      then have "pt_step s t' pt fs gs (map_range (pte_of (pmem s) pt) a pa perm (Suc j))"
        by (intro pt_step_cong [OF pt_step_trans [OF step step']])
      with run run' res found(5) show ?thesis by (auto intro!: exI [of _ "Suc j"])
    qed
  qed
qed

text \<open>A range of \<open>n\<close> whole pages.\<close>

lemma mappages_spec:
  assumes inv: "vm_inv s pt fs" and a: "page_aligned va" "unat va + 4096 * n \<le> 2 ^ 38" "0 < n"
    and free: "\<And>k. k < n \<Longrightarrow> pte_of (pmem s) pt (va + of_nat (4096 * k)) AND PTE_V = 0"
  shows "\<exists>r t fs' j. mappages pt va (of_nat (4096 * n)) pa perm w s = Ret r t w \<and>
    pt_step s t pt fs fs' (map_range (pte_of (pmem s) pt) va pa perm j) \<and>
    (r = 0 \<and> j = n \<and> length fs \<le> length fs' + 2 * n \<or> r = -1 \<and> j < n \<and> fs' = [] \<and> length fs < 2 * n)"
proof -
  have n: "n \<le> 2 ^ 26" using a(2) by simp
  have ul: "unat (va + of_nat (4096 * n) - 1) = unat va + 4096 * n - 1"
  proof -
    have u: "unat (va + of_nat (4096 * n)) = unat va + 4096 * n" by (rule unat_add_page) (use a(2) in simp)
    then have "va + of_nat (4096 * n) \<noteq> 0" using a(3) by (auto simp: word_unat_eq_iff)
    then show ?thesis using u by (simp add: unat_minus_one)
  qed
  have "PGROUNDDOWN (va + of_nat (4096 * n) - 1) = va + of_nat (4096 * (n - 1))"
  proof -
    obtain q where q: "unat va = 4096 * q" using a(1) by (auto simp: page_aligned_dvd)
    obtain k where k: "n = Suc k" using a(3) by (cases n) auto
    have "unat (va + of_nat (4096 * (n - 1))) = unat va + 4096 * (n - 1)"
      by (rule unat_add_page) (use a(2) in simp)
    moreover have "(4096 * q + 4096 * Suc k - 1) div 4096 = q + k" by simp
    ultimately show ?thesis
      using ul q k by (simp add: word_unat_eq_iff unat_PGROUNDDOWN)
  qed
  then show ?thesis
    unfolding mappages_def PGROUNDDOWN_aligned [OF a(1)]
    using mappages_loop_spec [OF inv a(1,2,3) _ _ free, of "2 ^ 26 + 1" "va + of_nat (4096 * (n - 1))"] n
    by simp
qed

lemma mappages_page:
  assumes inv: "vm_inv s pt fs" and va: "page_aligned va" "va < MAXVA"
    and free: "pte_of (pmem s) pt va AND PTE_V = 0"
  obtains (mapped) t fs' where "mappages pt va PGSIZE pa perm w s = Ret 0 t w"
      "pt_step s t pt fs fs' (upd_page (pte_of (pmem s) pt) va (PA2PTE pa OR perm OR PTE_V))"
      "length fs \<le> length fs' + 2"
  | (full) t where "mappages pt va PGSIZE pa perm w s = Ret (-1) t w"
      "pt_step s t pt fs [] (pte_of (pmem s) pt)" "length fs < 2"
proof -
  have u: "unat va + 4096 \<le> 2 ^ 38"
    using va by (auto simp: page_aligned_dvd word_less_nat_alt unat_MAXVA elim!: dvdE)
  have sz: "PGSIZE = of_nat (4096 * 1)" by (simp add: PGSIZE_def)
  have "map_range f va pa perm 1 va' = upd_page f va (PA2PTE pa OR perm OR PTE_V) va'" for f va'
    using map_range_Suc [of va f pa perm 0 va'] va(1) u by simp
  then have m1: "map_range f va pa perm 1 = upd_page f va (PA2PTE pa OR perm OR PTE_V)" for f
    by (rule ext)
  from mappages_spec [OF inv va(1), of 1 pa perm w] u free
  obtain r t fs' j where run: "mappages pt va PGSIZE pa perm w s = Ret r t w"
    and step: "pt_step s t pt fs fs' (map_range (pte_of (pmem s) pt) va pa perm j)"
    and res: "r = 0 \<and> j = 1 \<and> length fs \<le> length fs' + 2 \<or> r = -1 \<and> j < 1 \<and> fs' = [] \<and> length fs < 2"
    unfolding sz by auto
  from res show thesis
  proof
    assume "r = 0 \<and> j = 1 \<and> length fs \<le> length fs' + 2"
    then show thesis using mapped run step m1 by simp
  next
    assume "r = -1 \<and> j < 1 \<and> fs' = [] \<and> length fs < 2"
    then show thesis using full run step by simp
  qed
qed

section \<open>\<^verbatim>\<open>uvmunmap\<close>\<close>

definition unmap_range :: "(addr \<Rightarrow> uint64) \<Rightarrow> addr \<Rightarrow> nat \<Rightarrow> addr \<Rightarrow> uint64" where
  "unmap_range f a n va =
     (if a \<le> PGROUNDDOWN va \<and> unat (PGROUNDDOWN va) div 4096 - unat a div 4096 < n then 0 else f va)"

lemma unmap_range_0 [simp]: "unmap_range f a 0 = f"
  by (rule ext) (simp add: unmap_range_def)

lemma unmap_range_Suc:
  assumes "page_aligned a" "unat a + 4096 < 2 ^ 64"
  shows "unmap_range (upd_page f a 0) (a + PGSIZE) n va = unmap_range f a (Suc n) va"
proof -
  have ua: "unat (a + PGSIZE) = unat a + 4096"
    using assms(2) by (simp add: PGSIZE_def unat_add_lt64)
  obtain q where q: "unat a = 4096 * q" using assms(1) by (auto simp: page_aligned_dvd)
  have v: "unat (PGROUNDDOWN va) = unat va div 4096 * 4096" by (rule unat_PGROUNDDOWN)
  have le: "a \<le> PGROUNDDOWN va \<longleftrightarrow> q \<le> unat va div 4096"
    unfolding word_le_nat_alt q v by linarith
  have le': "a + PGSIZE \<le> PGROUNDDOWN va \<longleftrightarrow> Suc q \<le> unat va div 4096"
    unfolding word_le_nat_alt ua q v by linarith
  have eq: "PGROUNDDOWN va = PGROUNDDOWN a \<longleftrightarrow> unat va div 4096 = q"
    using page_eq_iff [of a va] q PGROUNDDOWN_aligned [of a] assms(1) by simp
  show ?thesis
    using le le' eq by (auto simp: unmap_range_def upd_page_def v ua q)
qed

text \<open>The pages that the entries of a range of virtual pages point to.\<close>

definition phys_pages :: "(addr \<Rightarrow> uint64) \<Rightarrow> addr \<Rightarrow> nat \<Rightarrow> addr list" where
  "phys_pages f a n = map (\<lambda>k. PTE2PA (f (a + of_nat (4096 * k)))) [0..<n]"

lemma phys_pages_Suc: "phys_pages f a (Suc n) = PTE2PA (f a) # phys_pages f (a + PGSIZE) n"
  by (simp add: phys_pages_def upt_conv_Cons map_Suc_upt [symmetric] PGSIZE_def add.assoc
      del: upt_Suc map_Suc_upt)

lemma phys_pages_cong:
  "(\<And>k. k < n \<Longrightarrow> f (a + of_nat (4096 * k)) = g (a + of_nat (4096 * k))) \<Longrightarrow>
   phys_pages f a n = phys_pages g a n"
  by (simp add: phys_pages_def)

text \<open>The entries of a range that \<^verbatim>\<open>uvmunmap\<close> accepts, and the pages that it may free.\<close>

definition leaves :: "(addr \<Rightarrow> uint64) \<Rightarrow> addr \<Rightarrow> nat \<Rightarrow> bool" where
  "leaves f a n \<longleftrightarrow> (\<forall>k < n. let e = f (a + of_nat (4096 * k)) in e AND PTE_V \<noteq> 0 \<and> PTE_FLAGS e \<noteq> PTE_V)"

definition owned :: "kernel \<Rightarrow> addr \<Rightarrow> addr list \<Rightarrow> addr list \<Rightarrow> bool" where
  "owned s pt fs ps \<longleftrightarrow> distinct ps \<and>
     (\<forall>p \<in> set ps. usable (syms s) p \<and> p \<notin> set fs \<and> p \<notin> pt_pages (pmem s) pt)"

lemma vm_kfree:
  assumes inv: "vm_inv s pt fs" and p: "usable (syms s) p" "p \<notin> set fs" "p \<notin> pt_pages (pmem s) pt"
  obtains t where "kfree p w s = Ret () t w" "vm_inv t pt (p # fs)" "only_mem s t"
    "pt_pages (pmem t) pt = pt_pages (pmem s) pt" "pte_of (pmem t) pt = pte_of (pmem s) pt"
    "\<And>q. vpath q \<Longrightarrow> node (pmem t) pt q = node (pmem s) pt q"
    "\<And>x. PGROUNDDOWN x \<noteq> p \<Longrightarrow> pmem t x = pmem s x"
proof -
  let ?t = "s\<lparr>pmem := store64 (fill_page (pmem s) p 1) p (freelist s), freelist := p\<rparr>"
  have al: "page_aligned p" using p(1) by (rule usable_aligned)
  have frame: "pmem ?t x = pmem s x" if "PGROUNDDOWN x \<noteq> p" for x
    using that al by (simp add: store64_page_frame fill_page_frame)
  have ok: "pt_ok (pmem s) pt" and st: "kmem_state s fs" using inv by (auto simp: vm_inv_def)
  have load: "load64 (pmem ?t) (ent a i) = load64 (pmem s) (ent a i)"
    if "a \<in> pt_pages (pmem s) pt" "i < 512" for a i
  proof (rule load64_pages_agree)
    show "page_aligned a" "i < 512" using that pt_ok_page [OF ok] by auto
    fix x assume "PGROUNDDOWN x = a"
    then have "PGROUNDDOWN x \<noteq> p" using that p(3) by auto
    then show "pmem ?t x = pmem s x" by (rule frame)
  qed
  note same = pt_cong [of "pmem s" pt "pmem ?t", OF load]
  show thesis
  proof (rule that [of ?t])
    show "kfree p w s = Ret () ?t w" using kfree_run p(1) st by (simp add: kmem_state_def)
    show "vm_inv ?t pt (p # fs)"
      using kfree_state [OF st p(1,2)] same ok inv p(3) by (auto simp: vm_inv_def)
    show "only_mem s ?t" by (rule only_memI')
    show "pt_pages (pmem ?t) pt = pt_pages (pmem s) pt" by (rule same(1))
    show "pte_of (pmem ?t) pt = pte_of (pmem s) pt" by (rule ext) (rule same(3))
    show "node (pmem ?t) pt q = node (pmem s) pt q" if "vpath q" for q
      by (rule node_cong [OF load that])
    show "pmem ?t x = pmem s x" if "PGROUNDDOWN x \<noteq> p" for x by (rule frame [OF that])
  qed
qed

lemma leaves_SucD:
  assumes "leaves f a (Suc n)"
  shows "f a AND PTE_V \<noteq> 0" "PTE_FLAGS (f a) \<noteq> PTE_V" "leaves f (a + PGSIZE) n"
proof -
  show "f a AND PTE_V \<noteq> 0" "PTE_FLAGS (f a) \<noteq> PTE_V"
    using assms by (auto simp: leaves_def Let_def dest: spec [of _ 0])
  have "a + PGSIZE + of_nat (4096 * k) = a + of_nat (4096 * Suc k)" for k by (simp add: PGSIZE_def)
  then show "leaves f (a + PGSIZE) n"
    using assms unfolding leaves_def by (metis Suc_less_eq)
qed

lemma leaves_cong:
  "leaves f a n \<Longrightarrow> (\<And>k. k < n \<Longrightarrow> g (a + of_nat (4096 * k)) = f (a + of_nat (4096 * k))) \<Longrightarrow> leaves g a n"
  by (simp add: leaves_def)

text \<open>The state after unmapping \<open>n\<close> pages from \<open>a\<close>: \<open>gone\<close> are the pages that were freed.\<close>

definition unmapped :: "kernel \<Rightarrow> kernel \<Rightarrow> addr \<Rightarrow> addr list \<Rightarrow> addr \<Rightarrow> nat \<Rightarrow> addr list \<Rightarrow> bool" where
  "unmapped s t pt fs a n gone \<longleftrightarrow>
     vm_inv t pt (rev gone @ fs) \<and> only_mem s t \<and> pt_pages (pmem t) pt = pt_pages (pmem s) pt \<and>
     (\<forall>va < SV39. pte_of (pmem t) pt va = unmap_range (pte_of (pmem s) pt) a n va) \<and>
     (\<forall>x. PGROUNDDOWN x \<notin> pt_pages (pmem s) pt \<longrightarrow> PGROUNDDOWN x \<notin> set gone \<longrightarrow> pmem t x = pmem s x)"

lemma page_range:
  assumes "page_aligned a" "unat a + 4096 * Suc n \<le> 2 ^ 38"
  shows "a < MAXVA" "unat (a + PGSIZE) = unat a + 4096" "page_aligned (a + PGSIZE)"
    "k < n \<Longrightarrow> a + PGSIZE + of_nat (4096 * k) < MAXVA"
    "k < n \<Longrightarrow> PGROUNDDOWN (a + PGSIZE + of_nat (4096 * k)) \<noteq> PGROUNDDOWN a"
proof -
  show "a < MAXVA" using assms(2) by (simp add: word_less_nat_alt unat_MAXVA)
  show u: "unat (a + PGSIZE) = unat a + 4096" using assms(2) by (simp add: PGSIZE_def unat_add_lt64)
  show "page_aligned (a + PGSIZE)" using assms(1) by (simp add: page_aligned_add)
  assume k: "k < n"
  have uk: "unat (a + PGSIZE + of_nat (4096 * k)) = unat a + 4096 + 4096 * k"
    using unat_add_page [of "a + PGSIZE" k] u k assms(2) by simp
  then show "a + PGSIZE + of_nat (4096 * k) < MAXVA"
    using k assms(2) by (simp add: word_less_nat_alt unat_MAXVA)
  show "PGROUNDDOWN (a + PGSIZE + of_nat (4096 * k)) \<noteq> PGROUNDDOWN a"
    unfolding word_unat_eq_iff unat_PGROUNDDOWN uk by simp
qed

text \<open>One round.\<close>

lemma unmap_one:
  assumes inv: "vm_inv s pt fs" and va: "va < MAXVA" "page_aligned va"
    and leaf: "pte_of (pmem s) pt va AND PTE_V \<noteq> 0" "PTE_FLAGS (pte_of (pmem s) pt va) \<noteq> PTE_V"
    and own: "do_free \<Longrightarrow> owned s pt fs [PTE2PA (pte_of (pmem s) pt va)]"
    and lt: "va < stop"
  defines "gone \<equiv> if do_free then [PTE2PA (pte_of (pmem s) pt va)] else []"
  obtains t where "uvmunmap_loop (Suc fuel) pt va stop do_free w s =
      uvmunmap_loop fuel pt (va + PGSIZE) stop do_free w t"
    "vm_inv t pt (gone @ fs)" "only_mem s t" "pt_pages (pmem t) pt = pt_pages (pmem s) pt"
    "\<And>va'. va' < SV39 \<Longrightarrow> pte_of (pmem t) pt va' = upd_page (pte_of (pmem s) pt) va 0 va'"
    "\<And>x. PGROUNDDOWN x \<notin> pt_pages (pmem s) pt \<Longrightarrow> PGROUNDDOWN x \<notin> set gone \<Longrightarrow> pmem t x = pmem s x"
proof -
  obtain b where b: "node (pmem s) pt (path_of 0 va) = Some b"
    using leaf(1) by (auto simp: pte_of_def split: option.splits)
  let ?r = "ent b (unat (PX 0 va))"
  have r: "?r \<noteq> 0"
    using vm_inv_page [OF inv node_in_pages [OF vpath_path_of b]] by (simp add: ent_nonzero PX_less)
  have walk: "walk pt va False w s = Ret ?r s w" using va b by (simp add: walk_lookup not_le)
  obtain u where free: "kwhen do_free (kfree (PTE2PA (pte_of (pmem s) pt va))) w s = Ret () u w"
    and u: "vm_inv u pt (gone @ fs)" "only_mem s u" "pt_pages (pmem u) pt = pt_pages (pmem s) pt"
      "pte_of (pmem u) pt = pte_of (pmem s) pt" "node (pmem u) pt (path_of 0 va) = Some b"
      "\<And>x. PGROUNDDOWN x \<notin> set gone \<Longrightarrow> pmem u x = pmem s x"
  proof (cases do_free)
    case True
    then have "usable (syms s) (PTE2PA (pte_of (pmem s) pt va))"
      "PTE2PA (pte_of (pmem s) pt va) \<notin> set fs" "PTE2PA (pte_of (pmem s) pt va) \<notin> pt_pages (pmem s) pt"
      using own by (auto simp: owned_def)
    from vm_kfree [OF inv this, of w] obtain u where
      "kfree (PTE2PA (pte_of (pmem s) pt va)) w s = Ret () u w"
      "vm_inv u pt (PTE2PA (pte_of (pmem s) pt va) # fs)" "only_mem s u"
      "pt_pages (pmem u) pt = pt_pages (pmem s) pt" "pte_of (pmem u) pt = pte_of (pmem s) pt"
      "\<And>q. vpath q \<Longrightarrow> node (pmem u) pt q = node (pmem s) pt q"
      "\<And>x. PGROUNDDOWN x \<noteq> PTE2PA (pte_of (pmem s) pt va) \<Longrightarrow> pmem u x = pmem s x"
      by blast
    then show ?thesis using True b that [of u] by (simp add: kapply gone_def)
  next
    case False
    then show ?thesis using inv b that [of s] by (simp add: kapply gone_def)
  qed
  let ?t = "u\<lparr>pmem := store64 (pmem u) ?r 0\<rparr>"
  note step = pt_step_store [OF u(1,5) MAXVA_SV39 [OF va(1)], of 0]
  have "uvmunmap_loop (Suc fuel) pt va stop do_free w s =
      uvmunmap_loop fuel pt (va + PGSIZE) stop do_free w ?t"
    using lt walk r pte_of_node [OF b] leaf free by (simp add: kapply not_less)
  then show thesis
  proof (rule that)
    show "vm_inv ?t pt (gone @ fs)" by (rule pt_step_vm_inv [OF step])
    show "only_mem s ?t" using u(2) by simp
    show pg: "pt_pages (pmem ?t) pt = pt_pages (pmem s) pt" using step u(3) by (auto simp: pt_step_def)
    show "pte_of (pmem ?t) pt va' = upd_page (pte_of (pmem s) pt) va 0 va'" if "va' < SV39" for va'
      using pt_step_pte [OF step that] u(4) by simp
    show "pmem ?t x = pmem s x" if x: "PGROUNDDOWN x \<notin> pt_pages (pmem s) pt" "PGROUNDDOWN x \<notin> set gone" for x
    proof -
      have "pmem ?t x = pmem u x" using step pg x by (simp add: pt_step_def)
      then show ?thesis using u(6) x by simp
    qed
  qed
qed

lemma uvmunmap_loop_spec:
  assumes "vm_inv s pt fs" "page_aligned a" "unat a + 4096 * n \<le> 2 ^ 38" "n < fuel"
    and "stop = a + of_nat (4096 * n)" "leaves (pte_of (pmem s) pt) a n"
    and "do_free \<Longrightarrow> owned s pt fs (phys_pages (pte_of (pmem s) pt) a n)"
  shows "\<exists>t. uvmunmap_loop fuel pt a stop do_free w s = Ret () t w \<and>
    unmapped s t pt fs a n (if do_free then phys_pages (pte_of (pmem s) pt) a n else [])"
  using assms
proof (induction n arbitrary: s fs a fuel)
  case 0
  then show ?case by (cases fuel) (auto simp: kapply unmapped_def phys_pages_def)
next
  case (Suc n)
  obtain fuel' where fuel: "fuel = Suc fuel'" "n < fuel'" using Suc.prems(4) by (cases fuel) auto
  let ?f = "pte_of (pmem s) pt"
  let ?p = "PTE2PA (?f a)"
  note rg = page_range [OF Suc.prems(2,3)]
  note lv = leaves_SucD [OF Suc.prems(6)]
  have us: "unat stop = unat a + 4096 * Suc n"
    unfolding Suc.prems(5) by (rule unat_add_page) (use Suc.prems(3) in simp)
  then have lt: "a < stop" by (simp add: word_less_nat_alt)
  have own: "owned s pt fs [?p]" if do_free
    using Suc.prems(7) [OF that] by (auto simp: owned_def phys_pages_Suc)
  let ?gone = "if do_free then [?p] else []"
  obtain t where run: "uvmunmap_loop fuel pt a stop do_free w s =
      uvmunmap_loop fuel' pt (a + PGSIZE) stop do_free w t"
    and t: "vm_inv t pt (?gone @ fs)" "only_mem s t" "pt_pages (pmem t) pt = pt_pages (pmem s) pt"
      "\<And>va'. va' < SV39 \<Longrightarrow> pte_of (pmem t) pt va' = upd_page ?f a 0 va'"
      "\<And>x. PGROUNDDOWN x \<notin> pt_pages (pmem s) pt \<Longrightarrow> PGROUNDDOWN x \<notin> set ?gone \<Longrightarrow> pmem t x = pmem s x"
    using unmap_one [OF Suc.prems(1) rg(1) Suc.prems(2) lv(1,2) own lt, where fuel = fuel' and w = w]
    unfolding fuel(1) by blast
  have rest: "pte_of (pmem t) pt (a + PGSIZE + of_nat (4096 * k)) = ?f (a + PGSIZE + of_nat (4096 * k))"
    if "k < n" for k
    using t(4) rg(4,5) [OF that] by (simp add: upd_page_def)
  have pp: "phys_pages (pte_of (pmem t) pt) (a + PGSIZE) n = phys_pages ?f (a + PGSIZE) n"
    using rest by (rule phys_pages_cong)
  have lv': "leaves (pte_of (pmem t) pt) (a + PGSIZE) n" using lv(3) rest by (rule leaves_cong)
  have own': "owned t pt (?gone @ fs) (phys_pages (pte_of (pmem t) pt) (a + PGSIZE) n)" if do_free
    using Suc.prems(7) [OF that] only_mem_fields(1) [OF t(2)] t(3) that
    unfolding pp by (auto simp: owned_def phys_pages_Suc)
  have st: "stop = a + PGSIZE + of_nat (4096 * n)" unfolding Suc.prems(5) by (simp add: PGSIZE_def)
  have "unat (a + PGSIZE) + 4096 * n \<le> 2 ^ 38" using rg(2) Suc.prems(3) by simp
  from Suc.IH [OF t(1) rg(3) this fuel(2) st lv' own'] obtain t' where
    run': "uvmunmap_loop fuel' pt (a + PGSIZE) stop do_free w t = Ret () t' w" and
    un: "unmapped t t' pt (?gone @ fs) (a + PGSIZE) n
           (if do_free then phys_pages ?f (a + PGSIZE) n else [])"
    unfolding pp by auto
  have "unmapped s t' pt fs a (Suc n) (if do_free then phys_pages ?f a (Suc n) else [])"
    unfolding unmapped_def
  proof (intro conjI allI ballI impI)
    show "vm_inv t' pt (rev (if do_free then phys_pages ?f a (Suc n) else []) @ fs)"
      using un by (simp add: unmapped_def phys_pages_Suc split: if_splits)
    show "only_mem s t'" using un t(2) only_mem_trans by (auto simp: unmapped_def)
    show "pt_pages (pmem t') pt = pt_pages (pmem s) pt" using un t(3) by (simp add: unmapped_def)
    fix va assume va: "va < SV39"
    have "pte_of (pmem t') pt va = unmap_range (upd_page ?f a 0) (a + PGSIZE) n va"
      using un va t(4) by (simp add: unmapped_def unmap_range_def)
    then show "pte_of (pmem t') pt va = unmap_range ?f a (Suc n) va"
      using unmap_range_Suc [of a] Suc.prems(2,3) by simp
  next
    fix x assume x: "PGROUNDDOWN x \<notin> pt_pages (pmem s) pt"
      "PGROUNDDOWN x \<notin> set (if do_free then phys_pages ?f a (Suc n) else [])"
    then have "pmem t' x = pmem t x"
      using un t(3) by (auto simp: unmapped_def phys_pages_Suc split: if_splits)
    moreover have "pmem t x = pmem s x"
      using x by (intro t(5)) (auto simp: phys_pages_Suc split: if_splits)
    ultimately show "pmem t' x = pmem s x" by simp
  qed
  with run run' show ?case by auto
qed

lemma uvmunmap_spec:
  assumes "vm_inv s pt fs" "page_aligned a" "unat a + 4096 * n \<le> 2 ^ 38"
    and "leaves (pte_of (pmem s) pt) a n"
    and "do_free \<Longrightarrow> owned s pt fs (phys_pages (pte_of (pmem s) pt) a n)"
  shows "\<exists>t. uvmunmap pt a (of_nat n) do_free w s = Ret () t w \<and>
    unmapped s t pt fs a n (if do_free then phys_pages (pte_of (pmem s) pt) a n else [])"
proof -
  have stop: "a + of_nat n * PGSIZE = a + of_nat (4096 * n)" by (simp add: PGSIZE_def)
  have "unat (a + of_nat (4096 * n)) = unat a + 4096 * n" by (rule unat_add_page) (use assms(3) in simp)
  then have "n < unat (a + of_nat (4096 * n)) div 4096 + 1" by simp
  then show ?thesis
    using uvmunmap_loop_spec [OF assms(1-3) _ refl assms(4,5), where w = w] assms(2)
    unfolding uvmunmap_def stop by (simp add: Let_def page_aligned_def del: uvmunmap_loop.simps)
qed

end
