(* ===== verification/Uvm.thy ===== *)
theory Uvm
  imports Paging
begin

unbundle bit_operations_syntax

text \<open>
  The memory of a process, as \<^verbatim>\<open>kernel/vm.c\<close> builds and removes it (\<^verbatim>\<open>uvmalloc\<close>,
  \<^verbatim>\<open>uvmdealloc\<close>).
\<close>

section \<open>User memory\<close>

text \<open>The first \<open>n\<close> pages of a process: mapped to pages of its own, which are neither free nor nodes.\<close>

definition umem :: "kernel \<Rightarrow> addr \<Rightarrow> addr list \<Rightarrow> nat \<Rightarrow> bool" where
  "umem s pt fs n \<longleftrightarrow> vm_inv s pt fs \<and> leaves (pte_of (pmem s) pt) 0 n \<and>
     owned s pt fs (phys_pages (pte_of (pmem s) pt) 0 n)"

text \<open>A write outside the tree and the free pages.\<close>

lemma vm_inv_write:
  assumes inv: "vm_inv s pt fs"
    and same: "\<And>x. PGROUNDDOWN x \<in> pt_pages (pmem s) pt \<union> set fs \<Longrightarrow> m x = pmem s x"
  shows "vm_inv (s\<lparr>pmem := m\<rparr>) pt fs" "pt_pages m pt = pt_pages (pmem s) pt"
    "pte_of m pt = pte_of (pmem s) pt"
proof -
  have ok: "pt_ok (pmem s) pt" using inv by (simp add: vm_inv_def)
  note fr = pt_frame [OF ok, of m] 
  have fr': "pt_pages m pt = pt_pages (pmem s) pt" "pt_ok m pt" "pte_of m pt va = pte_of (pmem s) pt va" for va
    using fr same by auto
  show "pt_pages m pt = pt_pages (pmem s) pt" by (rule fr'(1))
  show "pte_of m pt = pte_of (pmem s) pt" by (rule ext) (rule fr'(3))
  have "kmem_state (s\<lparr>pmem := m\<rparr>) fs"
    by (rule kmem_state_pmem) (use inv same in \<open>auto simp: vm_inv_def\<close>)
  then show "vm_inv (s\<lparr>pmem := m\<rparr>) pt fs" using inv fr' by (simp add: vm_inv_def)
qed

lemma vm_kalloc_run:
  assumes inv: "vm_inv s pt (b # fs)"
  shows "kdo [kmemset b c' 4096] m w (s\<lparr>freelist := load64 (pmem s) b, pmem := fill_page (pmem s) b 5\<rparr>) =
           m w (s\<lparr>freelist := load64 (pmem s) b, pmem := fill_page (pmem s) b (ucast c')\<rparr>)"
    and "kalloc w s = Ret b (s\<lparr>freelist := load64 (pmem s) b, pmem := fill_page (pmem s) b 5\<rparr>) w"
    and "usable (syms s) b \<and> page_aligned b \<and> b \<noteq> 0 \<and> b < 2 ^ 56 \<and> b \<notin> set fs \<and> b \<notin> pt_pages (pmem s) pt"
proof -
  have st: "kmem_state s (b # fs)" using inv by (simp add: vm_inv_def)
  note b = kmem_state_Cons [OF st]
  have new: "b \<notin> pt_pages (pmem s) pt" using inv by (auto simp: vm_inv_def)
  with b show "usable (syms s) b \<and> page_aligned b \<and> b \<noteq> 0 \<and> b < 2 ^ 56 \<and> b \<notin> set fs \<and>
      b \<notin> pt_pages (pmem s) pt" by simp
  show "kdo [kmemset b c' 4096] m w (s\<lparr>freelist := load64 (pmem s) b, pmem := fill_page (pmem s) b 5\<rparr>) =
      m w (s\<lparr>freelist := load64 (pmem s) b, pmem := fill_page (pmem s) b (ucast c')\<rparr>)"
    by (simp add: kapply)
  show "kalloc w s = Ret b (s\<lparr>freelist := load64 (pmem s) b, pmem := fill_page (pmem s) b 5\<rparr>) w"
    by (rule kalloc_Cons [OF st])
qed

lemma vm_kalloc:
  fixes c :: byte
  assumes inv: "vm_inv s pt (b # fs)"
  defines "t \<equiv> s\<lparr>freelist := load64 (pmem s) b, pmem := fill_page (pmem s) b c\<rparr>"
  shows "vm_inv t pt fs" "only_mem s t" "pt_pages (pmem t) pt = pt_pages (pmem s) pt"
    "pte_of (pmem t) pt = pte_of (pmem s) pt"
proof -
  have st: "kmem_state s (b # fs)" using inv by (simp add: vm_inv_def)
  note b = vm_kalloc_run(3) [OF inv]
  let ?u = "s\<lparr>freelist := load64 (pmem s) b, pmem := fill_page (pmem s) b 5\<rparr>"
  have u: "kmem_state ?u fs" by (rule kalloc_state [OF st])
  have "kmem_state (?u\<lparr>pmem := fill_page (pmem s) b c\<rparr>) fs"
  proof (rule kmem_state_pmem [OF u])
    fix x assume "PGROUNDDOWN x \<in> set fs"
    then have "PGROUNDDOWN x \<noteq> b" using b by auto
    then show "fill_page (pmem s) b c x = pmem ?u x" using b by (simp add: fill_page_frame)
  qed
  then have kt: "kmem_state t fs" by (simp add: t_def)
  have frame: "pmem t x = pmem s x" if "PGROUNDDOWN x \<in> pt_pages (pmem s) pt" for x
  proof -
    have "PGROUNDDOWN x \<noteq> b" using that b by auto
    then show ?thesis using b by (simp add: t_def fill_page_frame)
  qed
  have ok: "pt_ok (pmem s) pt" using inv by (simp add: vm_inv_def)
  note fr = pt_frame [OF ok frame]
  show "pt_pages (pmem t) pt = pt_pages (pmem s) pt" by (rule fr(1)) 
  show "pte_of (pmem t) pt = pte_of (pmem s) pt" by (rule ext) (rule fr(3))
  show "only_mem s t" by (simp add: t_def only_memI)
  then show "vm_inv t pt fs" using kt fr inv only_mem_fields(1) [of s t] by (auto simp: vm_inv_def)
qed

text \<open>
  From \<open>s0\<close>, the pages from \<open>n\<close> to \<open>i\<close> have been added, filled with zeros and mapped with all
  permissions. Every page that was free or a node before is so still or has become one of them, and
  all other memory is as it was.
\<close>

definition new_pages :: "kernel \<Rightarrow> addr \<Rightarrow> nat \<Rightarrow> nat \<Rightarrow> bool" where
  "new_pages s pt n i \<longleftrightarrow> (\<forall>k. n \<le> k \<longrightarrow> k < i \<longrightarrow>
     (let e = pte_of (pmem s) pt (of_nat (4096 * k)) in
      PTE_FLAGS e = 31 \<and> (\<forall>x. PGROUNDDOWN x = PTE2PA e \<longrightarrow> pmem s x = 0)))"

definition grown :: "kernel \<Rightarrow> addr \<Rightarrow> addr list \<Rightarrow> nat \<Rightarrow> kernel \<Rightarrow> addr list \<Rightarrow> nat \<Rightarrow> bool" where
  "grown s0 pt fs0 n s fs i \<longleftrightarrow> umem s pt fs i \<and> only_mem s0 s \<and>
     (\<forall>va < SV39. unat va div 4096 < n \<or> i \<le> unat va div 4096 \<longrightarrow>
        pte_of (pmem s) pt va = pte_of (pmem s0) pt va) \<and>
     new_pages s pt n i \<and>
     pt_pages (pmem s) pt \<union> set fs \<union> set (drop n (phys_pages (pte_of (pmem s) pt) 0 i)) =
       pt_pages (pmem s0) pt \<union> set fs0 \<and>
     (\<forall>x. PGROUNDDOWN x \<notin> pt_pages (pmem s0) pt \<union> set fs0 \<longrightarrow> pmem s x = pmem s0 x)"

lemma grown_refl: "umem s pt fs n \<Longrightarrow> grown s pt fs n s fs n"
  by (auto simp: grown_def new_pages_def phys_pages_def)

lemma phys_pages_snoc: "phys_pages f a (Suc n) = phys_pages f a n @ [PTE2PA (f (a + of_nat (4096 * n)))]"
  by (simp add: phys_pages_def)

lemma length_phys_pages [simp]: "length (phys_pages f a n) = n"
  by (simp add: phys_pages_def)

lemma drop_phys_pages:
  "n \<le> i \<Longrightarrow> drop n (phys_pages f 0 i) = phys_pages f (of_nat (4096 * n)) (i - n)"
  by (rule nth_equalityI) (auto simp: phys_pages_def algebra_simps)

lemma leaves_snoc:
  "leaves f 0 (Suc n) \<longleftrightarrow> leaves f 0 n \<and>
     f (of_nat (4096 * n)) AND PTE_V \<noteq> 0 \<and> PTE_FLAGS (f (of_nat (4096 * n))) \<noteq> PTE_V"
  unfolding leaves_def Let_def less_Suc_eq by auto

lemma user_pte:
  assumes "page_aligned b" "b < 2 ^ 56"
  defines "e \<equiv> PA2PTE b OR (PTE_W OR PTE_X OR PTE_R OR PTE_U) OR PTE_V"
  shows "PTE2PA e = b" "PTE_FLAGS e = 31" "e AND PTE_V \<noteq> 0" "e AND PTE_U \<noteq> 0"
proof -
  have fl: "(PTE_W OR PTE_X OR PTE_R OR PTE_U) OR PTE_V = 31" by (simp add: pte_bits)
  have e: "e = PA2PTE b OR 31" unfolding e_def using fl by (simp add: or.assoc)
  show "PTE2PA e = b" "PTE_FLAGS e = 31"
    unfolding e using assms by (simp_all add: PTE2PA_PA2PTE PTE_FLAGS_PA2PTE)
  have "bit e 0" "bit e 4" unfolding e by (simp_all add: bit_or_iff)
  moreover have "x AND PTE_V \<noteq> 0 \<longleftrightarrow> bit x 0" "x AND PTE_U \<noteq> 0 \<longleftrightarrow> bit x 4" for x
    unfolding PTE_V_def PTE_U_def by (simp_all only: bit_iff_and_push_bit_not_eq_0)
  ultimately show "e AND PTE_V \<noteq> 0" "e AND PTE_U \<noteq> 0" by blast+
qed

lemma page_va:
  assumes "4096 * Suc i \<le> 2 ^ 38"
  shows "page_aligned (of_nat (4096 * i))" "(of_nat (4096 * i) :: addr) < MAXVA"
    "unat (of_nat (4096 * i) :: addr) = 4096 * i"
proof -
  show u: "unat (of_nat (4096 * i) :: addr) = 4096 * i"
    by (rule unat_of_nat64) (use assms in simp)
  then show "page_aligned (of_nat (4096 * i))" by (simp add: page_aligned_dvd)
  show "(of_nat (4096 * i) :: addr) < MAXVA" using assms u by (simp add: word_less_nat_alt unat_MAXVA)
qed

lemma umem_cong_ptes:
  assumes "\<And>k. k < i \<Longrightarrow> g (of_nat (4096 * k)) = f (of_nat (4096 * k))"
  shows "phys_pages g 0 i = phys_pages f 0 i" "leaves g 0 i = leaves f 0 i"
  using assms by (auto simp: phys_pages_def leaves_def)

lemma grown_page_unmapped:
  assumes "grown s0 pt fs0 n s fs i" "4096 * Suc i \<le> 2 ^ 38"
  shows "pte_of (pmem s) pt (of_nat (4096 * i)) = pte_of (pmem s0) pt (of_nat (4096 * i))"
  using assms(1) page_va [OF assms(2)] by (simp add: grown_def)

lemma grown_add:
  assumes g: "grown s0 pt fs0 n s (b # gs) i" and i: "4096 * Suc i \<le> 2 ^ 38" "n \<le> i"
  defines "s1 \<equiv> s\<lparr>freelist := load64 (pmem s) b, pmem := fill_page (pmem s) b 0\<rparr>"
  assumes step: "pt_step s1 t pt gs fs' (upd_page (pte_of (pmem s1) pt) (of_nat (4096 * i))
      (PA2PTE b OR (PTE_W OR PTE_X OR PTE_R OR PTE_U) OR PTE_V))"
  shows "grown s0 pt fs0 n t fs' (Suc i)"
proof -
  let ?va = "of_nat (4096 * i) :: addr"
  let ?e = "PA2PTE b OR (PTE_W OR PTE_X OR PTE_R OR PTE_U) OR PTE_V"
  have inv: "vm_inv s pt (b # gs)" using g by (simp add: grown_def umem_def)
  note ka = vm_kalloc [OF inv, where c = 0, folded s1_def]
  note kb = vm_kalloc_run(3) [OF inv]
  note va = page_va [OF i(1)]
  have b: "usable (syms s) b" "page_aligned b" "b < 2 ^ 56" "b \<notin> set gs" "b \<notin> pt_pages (pmem s) pt"
    using kb by auto
  note ue = user_pte [OF b(2,3)]
  from step obtain used where used: "gs = used @ fs'"
    "pt_pages (pmem t) pt = pt_pages (pmem s) pt \<union> set used"
    using ka(3) by (auto simp: pt_step_def)
  have pte: "pte_of (pmem t) pt va' = (if unat va' div 4096 = i then ?e else pte_of (pmem s) pt va')"
    if "va' < SV39" for va'
    using pt_step_pte [OF step that] ka(4) page_eq_iff [OF va(1), of va'] va(3) PGROUNDDOWN_aligned [OF va(1)]
    by (simp add: upd_page_def)
  have old: "pte_of (pmem t) pt (of_nat (4096 * k)) = pte_of (pmem s) pt (of_nat (4096 * k))" if "k < i" for k
    using pte page_va [of k] that i(1) by simp
  have new: "pte_of (pmem t) pt ?va = ?e" using pte va by simp
  let ?ps = "phys_pages (pte_of (pmem s) pt) 0 i"
  have ps: "phys_pages (pte_of (pmem t) pt) 0 (Suc i) = ?ps @ [b]"
    using umem_cong_ptes(1) [of i "pte_of (pmem t) pt" "pte_of (pmem s) pt"] old new ue(1) by (simp add: phys_pages_snoc)
  have own: "distinct ?ps" "\<And>p. p \<in> set ?ps \<Longrightarrow> usable (syms s) p \<and> p \<noteq> b \<and> p \<notin> set gs \<and> p \<notin> pt_pages (pmem s) pt"
    using g by (auto simp: grown_def umem_def owned_def)
  have syms: "syms t = syms s"
    using step only_mem_fields(1) by (auto simp: pt_step_def s1_def)
  have frame: "pmem t x = (if PGROUNDDOWN x = b then 0 else pmem s x)"
    if "PGROUNDDOWN x \<notin> pt_pages (pmem t) pt" for x
    using step that b by (simp add: pt_step_def s1_def fill_page_frame fill_page_inside)
  have cons: "pt_pages (pmem s) pt \<union> set (b # gs) \<union> set (drop n ?ps) = pt_pages (pmem s0) pt \<union> set fs0"
    using g by (simp add: grown_def)
  show ?thesis
    unfolding grown_def
  proof (intro conjI allI impI)
    have "leaves (pte_of (pmem t) pt) 0 (Suc i)"
      using g umem_cong_ptes(2) [of i "pte_of (pmem t) pt" "pte_of (pmem s) pt"] old new ue by (simp add: leaves_snoc grown_def umem_def PTE_V_1)
    moreover have "owned t pt fs' (phys_pages (pte_of (pmem t) pt) 0 (Suc i))"
      unfolding ps owned_def syms used(2) using own b used(1) by auto
    ultimately show "umem t pt fs' (Suc i)" using pt_step_vm_inv [OF step] by (simp add: umem_def)
    show "only_mem s0 t"
      using g step ka(2) only_mem_trans by (auto simp: grown_def pt_step_def)
    show "pte_of (pmem t) pt va = pte_of (pmem s0) pt va"
      if "va < SV39" "unat va div 4096 < n \<or> Suc i \<le> unat va div 4096" for va
      using pte [OF that(1)] that g i(2) by (auto simp: grown_def)
    show "new_pages t pt n (Suc i)"
      unfolding new_pages_def Let_def
    proof (intro allI impI)
      fix k assume k: "n \<le> k" "k < Suc i"
      show "PTE_FLAGS (pte_of (pmem t) pt (of_nat (4096 * k))) = 31 \<and>
          (\<forall>x. PGROUNDDOWN x = PTE2PA (pte_of (pmem t) pt (of_nat (4096 * k))) \<longrightarrow> pmem t x = 0)"
      proof (cases "k = i")
        case True
        have "b \<notin> pt_pages (pmem t) pt" using b used by auto
        then show ?thesis using True new ue frame by auto
      next
        case False
        then have "k < i" using k by simp
        moreover from this have "PTE2PA (pte_of (pmem s) pt (of_nat (4096 * k))) \<in> set ?ps"
          by (auto simp: phys_pages_def)
        then have "PTE2PA (pte_of (pmem s) pt (of_nat (4096 * k))) \<notin> pt_pages (pmem t) pt"
          "PTE2PA (pte_of (pmem s) pt (of_nat (4096 * k))) \<noteq> b"
          using own used by auto
        ultimately show ?thesis
          using g k old frame by (auto simp: grown_def new_pages_def Let_def)
      qed
    qed
    show "pt_pages (pmem t) pt \<union> set fs' \<union> set (drop n (phys_pages (pte_of (pmem t) pt) 0 (Suc i))) =
        pt_pages (pmem s0) pt \<union> set fs0"
      using cons used i(2) unfolding ps by auto
    fix x assume x: "PGROUNDDOWN x \<notin> pt_pages (pmem s0) pt \<union> set fs0"
    then have "PGROUNDDOWN x \<notin> pt_pages (pmem t) pt" "PGROUNDDOWN x \<noteq> b"
      using cons used by auto
    then show "pmem t x = pmem s0 x" using frame g x by (simp add: grown_def)
  qed
qed

text \<open>A failed round: the page that was taken for the process is freed again.\<close>

lemma grown_full:
  assumes g: "grown s0 pt fs0 n s (b # gs) i" and ni: "n \<le> i" "4096 * i \<le> 2 ^ 38"
  defines "s1 \<equiv> s\<lparr>freelist := load64 (pmem s) b, pmem := fill_page (pmem s) b 0\<rparr>"
  assumes step: "pt_step s1 t pt gs [] (pte_of (pmem s1) pt)"
  obtains u where "kfree b w t = Ret () u w" "grown s0 pt fs0 n u [b] i"
proof -
  have inv: "vm_inv s pt (b # gs)" using g by (simp add: grown_def umem_def)
  note ka = vm_kalloc [OF inv, where c = 0, folded s1_def]
  have b: "usable (syms s) b" "page_aligned b" "b \<notin> set gs" "b \<notin> pt_pages (pmem s) pt"
    using vm_kalloc_run(3) [OF inv] by auto
  have used: "pt_pages (pmem t) pt = pt_pages (pmem s) pt \<union> set gs"
    using step ka(3) by (auto simp: pt_step_def)
  have om: "only_mem s t" using step ka(2) only_mem_trans by (auto simp: pt_step_def)
  note syms = only_mem_fields(1) [OF om]
  obtain u where run: "kfree b w t = Ret () u w" and u: "vm_inv u pt [b]" "only_mem t u"
    "pt_pages (pmem u) pt = pt_pages (pmem t) pt" "pte_of (pmem u) pt = pte_of (pmem t) pt"
    "\<And>x. PGROUNDDOWN x \<noteq> b \<Longrightarrow> pmem u x = pmem t x"
    by (rule vm_kfree [OF pt_step_vm_inv [OF step], of b w]) (use b used syms in auto)
  have pte: "pte_of (pmem u) pt va = pte_of (pmem s) pt va" if "va < SV39" for va
    using pt_step_pte [OF step that] u(4) ka(4) by simp
  have old: "pte_of (pmem u) pt (of_nat (4096 * k)) = pte_of (pmem s) pt (of_nat (4096 * k))" if "k < i" for k
    using pte page_va [of k] that ni(2) by simp
  let ?ps = "phys_pages (pte_of (pmem s) pt) 0 i"
  have cg: "phys_pages (pte_of (pmem u) pt) 0 i = ?ps"
    "leaves (pte_of (pmem u) pt) 0 i = leaves (pte_of (pmem s) pt) 0 i"
    using old by (intro umem_cong_ptes; simp)+
  have own: "distinct ?ps" "\<And>p. p \<in> set ?ps \<Longrightarrow> usable (syms s) p \<and> p \<noteq> b \<and> p \<notin> set gs \<and> p \<notin> pt_pages (pmem s) pt"
    using g by (auto simp: grown_def umem_def owned_def)
  have cons: "pt_pages (pmem s) pt \<union> set (b # gs) \<union> set (drop n ?ps) = pt_pages (pmem s0) pt \<union> set fs0"
    using g by (simp add: grown_def)
  have frame: "pmem u x = pmem s x" if "PGROUNDDOWN x \<noteq> b" "PGROUNDDOWN x \<notin> pt_pages (pmem t) pt" for x
    using u(5) [OF that(1)] step that b by (simp add: pt_step_def s1_def fill_page_frame)
  have "grown s0 pt fs0 n u [b] i"
    unfolding grown_def
  proof (intro conjI allI impI)
    have "owned u pt [b] (phys_pages (pte_of (pmem u) pt) 0 i)"
      unfolding cg owned_def only_mem_fields(1) [OF u(2)] syms u(3) used using own by auto
    then show "umem u pt [b] i" using u(1) g cg(2) by (simp add: umem_def grown_def)
    show "only_mem s0 u" using g om u(2) only_mem_trans by (meson grown_def)
    show "pte_of (pmem u) pt va = pte_of (pmem s0) pt va"
      if "va < SV39" "unat va div 4096 < n \<or> i \<le> unat va div 4096" for va
      using pte [OF that(1)] that g by (auto simp: grown_def)
    show "new_pages u pt n i"
      unfolding new_pages_def Let_def
    proof (intro allI impI)
      fix k assume k: "n \<le> k" "k < i"
      then have "PTE2PA (pte_of (pmem s) pt (of_nat (4096 * k))) \<in> set ?ps" by (auto simp: phys_pages_def)
      then have "PTE2PA (pte_of (pmem s) pt (of_nat (4096 * k))) \<noteq> b"
        "PTE2PA (pte_of (pmem s) pt (of_nat (4096 * k))) \<notin> pt_pages (pmem t) pt"
        using own used by auto
      then show "PTE_FLAGS (pte_of (pmem u) pt (of_nat (4096 * k))) = 31 \<and>
          (\<forall>x. PGROUNDDOWN x = PTE2PA (pte_of (pmem u) pt (of_nat (4096 * k))) \<longrightarrow> pmem u x = 0)"
        using g k old frame by (auto simp: grown_def new_pages_def Let_def)
    qed
    show "pt_pages (pmem u) pt \<union> set [b] \<union> set (drop n (phys_pages (pte_of (pmem u) pt) 0 i)) =
        pt_pages (pmem s0) pt \<union> set fs0"
      using cons used u(3) unfolding cg by auto
    fix x assume x: "PGROUNDDOWN x \<notin> pt_pages (pmem s0) pt \<union> set fs0"
    then have "PGROUNDDOWN x \<notin> pt_pages (pmem t) pt" "PGROUNDDOWN x \<noteq> b"
      using cons used by auto
    then show "pmem u x = pmem s0 x" using frame g x by (simp add: grown_def)
  qed
  with run show thesis by (rule that)
qed

text \<open>Deallocation of what has been added.\<close>

lemma unmap_range_page:
  assumes "4096 * n < 2 ^ 64" "n \<le> i"
  shows "unmap_range f (of_nat (4096 * n)) (i - n) va =
    (if n \<le> unat va div 4096 \<and> unat va div 4096 < i then 0 else f va)"
proof -
  have u: "unat (of_nat (4096 * n) :: addr) = 4096 * n" by (rule unat_of_nat64) (rule assms)
  have "of_nat (4096 * n) \<le> PGROUNDDOWN va \<longleftrightarrow> n \<le> unat va div 4096"
    unfolding word_le_nat_alt u unat_PGROUNDDOWN by auto
  then show ?thesis
    using assms(2) unfolding unmap_range_def u unat_PGROUNDDOWN by auto
qed

lemma leaves_drop:
  assumes "leaves f 0 i" "n \<le> i"
  shows "leaves f (of_nat (4096 * n)) (i - n)"
  unfolding leaves_def
proof (intro allI impI)
  fix k assume "k < i - n"
  then have "n + k < i" by simp
  moreover have "of_nat (4096 * n) + of_nat (4096 * k) = (0 + of_nat (4096 * (n + k)) :: addr)"
    by (simp add: algebra_simps)
  ultimately show "let e = f (of_nat (4096 * n) + of_nat (4096 * k)) in e AND PTE_V \<noteq> 0 \<and> PTE_FLAGS e \<noteq> PTE_V"
    using assms(1) unfolding leaves_def by metis
qed

lemma grown_dealloc:
  assumes g: "grown s0 pt fs0 n s fs i" and ni: "n \<le> i" "4096 * i \<le> 2 ^ 38"
    and zero: "\<And>va. va < SV39 \<Longrightarrow> n \<le> unat va div 4096 \<Longrightarrow> unat va div 4096 < i \<Longrightarrow>
      pte_of (pmem s0) pt va = 0"
  shows "\<exists>r t fs'. uvmdealloc pt (of_nat (4096 * i)) (of_nat (4096 * n)) w s = Ret r t w \<and>
    grown s0 pt fs0 n t fs' n"
proof (cases "i = n")
  case True
  then show ?thesis using g by (auto simp: uvmdealloc_def kapply)
next
  case False
  let ?a = "of_nat (4096 * n) :: addr"
  let ?f = "pte_of (pmem s) pt"
  let ?ps = "phys_pages ?f 0 i"
  have lt: "n < i" using False ni by simp
  have u: "unat ?a = 4096 * n" "unat (of_nat (4096 * i) :: addr) = 4096 * i"
    by (rule unat_of_nat64; use ni in simp)+
  have al: "page_aligned ?a" "page_aligned (of_nat (4096 * i))"
    using u by (simp_all add: page_aligned_dvd)
  have inv: "vm_inv s pt fs" and lv: "leaves ?f 0 i" and own: "owned s pt fs ?ps"
    using g by (auto simp: grown_def umem_def)
  have dr: "phys_pages ?f ?a (i - n) = drop n ?ps" using ni by (simp add: drop_phys_pages)
  have own': "owned s pt fs (phys_pages ?f ?a (i - n))"
    using own unfolding dr by (auto simp: owned_def dest: in_set_dropD)
  have end_le: "unat ?a + 4096 * (i - n) \<le> 2 ^ 38" unfolding u using ni by (simp add: diff_mult_distrib2)
  obtain t where run: "uvmunmap pt ?a (of_nat (i - n)) True w s = Ret () t w"
    and un: "unmapped s t pt fs ?a (i - n) (drop n ?ps)"
    using uvmunmap_spec [OF inv al(1) end_le leaves_drop [OF lv ni(1)] own', where do_free = True and w = w]
    unfolding dr by auto
  have np: "scast (ucast ((of_nat (4096 * i) - ?a) div PGSIZE) :: 32 word) = (of_nat (i - n) :: uint64)"
  proof -
    have "unat (of_nat (4096 * i) - ?a) = 4096 * (i - n)"
      using u lt by (simp add: unat_sub word_le_nat_alt diff_mult_distrib2 del: of_nat_mult)
    then have "unat ((of_nat (4096 * i) - ?a) div PGSIZE) = i - n"
      by (simp add: unat_div PGSIZE_def del: of_nat_mult)
    then have "(of_nat (4096 * i) - ?a) div PGSIZE = (of_nat (i - n) :: uint64)"
      by (rule unat_eq_of_nat)
    then show ?thesis using ni scast_ucast_small [of "i - n"] by simp
  qed
  have "uvmdealloc pt (of_nat (4096 * i)) ?a w s = Ret ?a t w"
    using run np lt u al unfolding uvmdealloc_def PGROUNDUP_aligned [OF al(1)] PGROUNDUP_aligned [OF al(2)]
    by (simp add: kapply word_le_nat_alt word_less_nat_alt Let_def del: of_nat_mult)
  moreover have "grown s0 pt fs0 n t (rev (drop n ?ps) @ fs) n"
    unfolding grown_def
  proof (intro conjI allI impI)
    show pte: "pte_of (pmem t) pt va = pte_of (pmem s0) pt va" if "va < SV39" for va
      using un that zero [OF that] g unmap_range_page [of n i ?f va] ni
      by (auto simp: unmapped_def grown_def simp del: of_nat_mult)
    have old: "pte_of (pmem t) pt (of_nat (4096 * k)) = ?f (of_nat (4096 * k))" if "k < n" for k
      using pte [of "of_nat (4096 * k)"] page_va [of k] g that ni by (simp add: grown_def)
    have ps: "phys_pages (pte_of (pmem t) pt) 0 n = take n ?ps"
      using umem_cong_ptes(1) [of n "pte_of (pmem t) pt" ?f] old ni by (simp add: phys_pages_def take_map)
    have "leaves (pte_of (pmem t) pt) 0 n"
      using umem_cong_ptes(2) [of n "pte_of (pmem t) pt" ?f] old lv lt by (simp add: leaves_def)
    moreover have "owned t pt (rev (drop n ?ps) @ fs) (take n ?ps)"
      using own un only_mem_fields(1) [of s t] distinct_append [of "take n ?ps" "drop n ?ps"]
      by (auto simp: owned_def unmapped_def dest: in_set_takeD)
    ultimately show "umem t pt (rev (drop n ?ps) @ fs) n" using un ps by (simp add: umem_def unmapped_def)
    show "only_mem s0 t" using g un only_mem_trans by (meson grown_def unmapped_def)
    show "new_pages t pt n n" by (simp add: new_pages_def)
    show "pt_pages (pmem t) pt \<union> set (rev (drop n ?ps) @ fs) \<union> set (drop n (phys_pages (pte_of (pmem t) pt) 0 n)) =
        pt_pages (pmem s0) pt \<union> set fs0"
      using g un by (auto simp: grown_def unmapped_def)
    fix x assume x: "PGROUNDDOWN x \<notin> pt_pages (pmem s0) pt \<union> set fs0"
    then have "PGROUNDDOWN x \<notin> pt_pages (pmem s) pt" "PGROUNDDOWN x \<notin> set (drop n ?ps)"
      using g by (auto simp: grown_def)
    then show "pmem t x = pmem s0 x" using g un x by (simp add: grown_def unmapped_def)
  qed
  ultimately show ?thesis by blast
qed

text \<open>
  \<^verbatim>\<open>uvmalloc\<close> adds all pages or none: when it returns 0, the process has the memory it had before, and
  only pages of the free list may have become part of the page table.
\<close>

definition alloc_post :: "kernel \<Rightarrow> addr \<Rightarrow> addr list \<Rightarrow> nat \<Rightarrow> nat \<Rightarrow> uint64 \<Rightarrow> uint64 \<Rightarrow> kernel \<Rightarrow> addr list \<Rightarrow> bool" where
  "alloc_post s0 pt fs0 n m newsz r t fs' \<longleftrightarrow>
     (if r = 0 then grown s0 pt fs0 n t fs' n else r = newsz \<and> grown s0 pt fs0 n t fs' m)"

lemma uvmalloc_loop_spec:
  assumes "grown s0 pt fs0 n s fs i" "n \<le> i" "i \<le> m" "m - i < fuel" "newsz = 0 \<Longrightarrow> m = n"
    and m: "\<And>k. k \<le> m \<Longrightarrow> (of_nat (4096 * k) < newsz \<longleftrightarrow> k < m)" "4096 * m \<le> 2 ^ 38"
    and zero: "\<And>va. va < SV39 \<Longrightarrow> n \<le> unat va div 4096 \<Longrightarrow> unat va div 4096 < m \<Longrightarrow>
      pte_of (pmem s0) pt va = 0"
  shows "\<exists>r t fs'. uvmalloc_loop fuel pt (of_nat (4096 * i)) (of_nat (4096 * n)) newsz w s = Ret r t w \<and>
    alloc_post s0 pt fs0 n m newsz r t fs' \<and> (3 * (m - i) \<le> length fs \<longrightarrow> r = newsz)"
  using assms(1-4)
proof (induction fuel arbitrary: s fs i)
  case 0
  then show ?case by simp
next
  case (Suc fuel)
  let ?a = "of_nat (4096 * i) :: addr"
  note g = Suc.prems(1)
  have lt: "?a < newsz \<longleftrightarrow> i < m" using m(1) Suc.prems(3) by blast
  have zero_i: "pte_of (pmem s0) pt va = 0" if "va < SV39" "n \<le> unat va div 4096" "unat va div 4096 < i" for va
    using zero that Suc.prems(3) by simp
  have i38: "4096 * i \<le> 2 ^ 38" using Suc.prems(3) m(2) by simp
  show ?case
  proof (cases "i < m")
    case False
    then have "i = m" using Suc.prems(3) by simp
    then show ?thesis
      using g lt assms(5) by (auto simp: kapply alloc_post_def simp del: of_nat_mult)
  next
    case True
    then have va: "4096 * Suc i \<le> 2 ^ 38" using m(2) by simp
    have inv: "vm_inv s pt fs" using g by (simp add: grown_def umem_def)
    show ?thesis
    proof (cases fs)
      case Nil
      then have "kalloc w s = Ret 0 s w" using inv by (simp add: kalloc_Nil vm_inv_def)
      moreover obtain r t fs' where "uvmdealloc pt ?a (of_nat (4096 * n)) w s = Ret r t w" "grown s0 pt fs0 n t fs' n"
        using grown_dealloc [OF g Suc.prems(2) i38 zero_i] by blast
      ultimately show ?thesis using True lt Nil by (auto simp: kapply alloc_post_def simp del: of_nat_mult)
    next
      case (Cons b gs)
      note inv' = inv [unfolded Cons]
      let ?s1 = "s\<lparr>freelist := load64 (pmem s) b, pmem := fill_page (pmem s) b 0\<rparr>"
      note ka = vm_kalloc [OF inv', where c = 0]
      have b0: "b \<noteq> 0" using vm_kalloc_run(3) [OF inv'] by simp
      have run: "uvmalloc_loop (Suc fuel) pt ?a (of_nat (4096 * n)) newsz w s =
        kbind (mappages pt ?a PGSIZE b (PTE_W OR PTE_X OR PTE_R OR PTE_U)) (\<lambda>r.
          if r \<noteq> 0 then kdo [kfree b] (kbind (uvmdealloc pt ?a (of_nat (4096 * n))) (\<lambda>_. kret 0))
          else uvmalloc_loop fuel pt (?a + PGSIZE) (of_nat (4096 * n)) newsz) w ?s1"
        using vm_kalloc_run(1,2) [OF inv'] b0 True lt
        by (simp add: kapply Cons del: of_nat_mult)
      have free: "pte_of (pmem ?s1) pt ?a AND PTE_V = 0"
        using grown_page_unmapped [OF g va] page_va [OF va] zero [of ?a] ka(4) True Suc.prems(2)
        by (simp del: of_nat_mult)
      show ?thesis
      proof (rule mappages_page [OF ka(1) page_va(1,2) [OF va] free, of b "PTE_W OR PTE_X OR PTE_R OR PTE_U" w])
        fix t fs' assume map: "mappages pt ?a PGSIZE b (PTE_W OR PTE_X OR PTE_R OR PTE_U) w ?s1 = Ret 0 t w"
          and step: "pt_step ?s1 t pt gs fs' (upd_page (pte_of (pmem ?s1) pt) ?a
            (PA2PTE b OR (PTE_W OR PTE_X OR PTE_R OR PTE_U) OR PTE_V))"
          and len: "length gs \<le> length fs' + 2"
        have nxt: "?a + PGSIZE = of_nat (4096 * Suc i)" by (simp add: PGSIZE_def)
        have "grown s0 pt fs0 n t fs' (Suc i)"
          using grown_add [OF g [unfolded Cons] va Suc.prems(2) step] .
        moreover have "n \<le> Suc i" "Suc i \<le> m" "m - Suc i < fuel" using Suc.prems True by auto
        ultimately obtain r u gs' where
          "uvmalloc_loop fuel pt (of_nat (4096 * Suc i)) (of_nat (4096 * n)) newsz w t = Ret r u w"
          "alloc_post s0 pt fs0 n m newsz r u gs'" "3 * (m - Suc i) \<le> length fs' \<longrightarrow> r = newsz"
          using Suc.IH by blast
        with map len True show ?thesis
          unfolding run nxt Cons by (auto simp: kapply simp del: of_nat_mult)
      next
        fix t assume map: "mappages pt ?a PGSIZE b (PTE_W OR PTE_X OR PTE_R OR PTE_U) w ?s1 = Ret (-1) t w"
          and step: "pt_step ?s1 t pt gs [] (pte_of (pmem ?s1) pt)" and len: "length gs < 2"
        obtain u where u: "kfree b w t = Ret () u w" "grown s0 pt fs0 n u [b] i"
          using grown_full [OF g [unfolded Cons] Suc.prems(2) i38 step] by blast
        obtain r v fs' where "uvmdealloc pt ?a (of_nat (4096 * n)) w u = Ret r v w" "grown s0 pt fs0 n v fs' n"
          using grown_dealloc [OF u(2) Suc.prems(2) i38 zero_i] by blast
        then show ?thesis unfolding run Cons using map u(1) len True by (auto simp: kapply alloc_post_def simp del: of_nat_mult)
      qed
    qed
  qed
qed

section \<open>A new page table\<close>

lemma fresh_pt:
  assumes st: "kmem_state s fs" and b: "usable (syms s) b" "b \<noteq> 0" "b \<notin> set fs"
    and zero: "\<And>x. PGROUNDDOWN x = b \<Longrightarrow> pmem s x = 0"
  shows "vm_inv s b fs" "pt_pages (pmem s) b = {b}" "pte_of (pmem s) b va = 0"
proof -
  have al: "page_aligned b" using b(1) by (rule usable_aligned)
  have load: "load64 (pmem s) (ent b i) = 0" if "i < 512" for i
  proof -
    have "load64 (pmem s) (ent b i) = load64 (\<lambda>_. 0) (ent b i)"
      by (rule load64_pages_agree [OF al that]) (simp add: zero)
    then show ?thesis by (simp add: load64_zero_memory)
  qed
  have nodes: "vpath p \<Longrightarrow> node (pmem s) b p = (if p = [] then Some b else None)" for p
  proof (induction p)
    case (Cons i p)
    then have "i < 512" "vpath p" by (auto simp: vpath_def)
    then show ?case using Cons.IH load by (simp add: Let_def)
  qed simp
  then show pg: "pt_pages (pmem s) b = {b}"
    by (auto simp: pt_pages_def vpath_def split: if_splits intro!: exI [of _ "[]"])
  have "pt_ok (pmem s) b"
  proof (rule pt_okI)
    show "page_aligned a \<and> a \<noteq> 0" if "a \<in> pt_pages (pmem s) b" for a using that al b(2) pg by simp
    show "p = q" if "vpath p" "vpath q" "node (pmem s) b p = Some a" "node (pmem s) b q = Some a" for p q a
      using that nodes by (simp split: if_splits)
    show "dir_ok (load64 (pmem s) (ent a i))" if "vpath (i # p)" "node (pmem s) b p = Some a" for i p a
      using that nodes [of p] load [of i] by (simp add: vpath_Cons dir_ok_def split: if_splits)
  qed
  then show "vm_inv s b fs" unfolding vm_inv_def pg using st b by simp
  show "pte_of (pmem s) b va = 0"
    using nodes [OF vpath_path_of, of 0 va] by (simp add: pte_of_def path_of_simps)
qed

lemma uvmcreate_spec:
  assumes st: "kmem_state s (b # fs)"
  shows "\<exists>t. uvmcreate w s = Ret b t w \<and> umem t b fs 0 \<and> pt_pages (pmem t) b = {b} \<and> only_mem s t \<and>
    (\<forall>va. pte_of (pmem t) b va = 0)"
proof -
  note b = kmem_state_Cons [OF st]
  let ?t = "s\<lparr>freelist := load64 (pmem s) b, pmem := fill_page (pmem s) b 0\<rparr>"
  let ?u = "s\<lparr>freelist := load64 (pmem s) b, pmem := fill_page (pmem s) b 5\<rparr>"
  have "uvmcreate w s = Ret b ?t w"
    using b kalloc_Cons [OF st, of w] by (simp add: uvmcreate_def kapply)
  moreover have "kmem_state (?u\<lparr>pmem := fill_page (pmem s) b 0\<rparr>) fs"
  proof (rule kmem_state_pmem [OF kalloc_state [OF st]])
    fix x assume "PGROUNDDOWN x \<in> set fs"
    then have "PGROUNDDOWN x \<noteq> b" using b by auto
    then show "fill_page (pmem s) b 0 x = pmem ?u x" using b by (simp add: fill_page_frame)
  qed
  then have "kmem_state ?t fs" by simp
  note fresh = fresh_pt [OF this, of b]
  have "vm_inv ?t b fs" "pt_pages (pmem ?t) b = {b}" "\<And>va. pte_of (pmem ?t) b va = 0"
    by (rule fresh; use b in \<open>simp add: fill_page_inside\<close>)+
  moreover have "only_mem s ?t" by (simp add: only_memI)
  ultimately show ?thesis
    by (auto simp: umem_def leaves_def owned_def phys_pages_def)
qed

section \<open>An address space to start with\<close>

definition free_page :: "addr \<Rightarrow> kernel \<Rightarrow> kernel" where
  "free_page a s = s\<lparr>pmem := store64 (fill_page (pmem s) a 1) a (freelist s), freelist := a\<rparr>"

text \<open>Eight free pages, and a ninth page full of zeros as an empty page table.\<close>

definition frames8 :: "addr list" where
  "frames8 = map (\<lambda>k. 0x87f00000 + of_nat k * PGSIZE) [0..<8]"

definition eight_pages :: kernel where
  "eight_pages = foldr free_page frames8 kernel0"

definition pt8 :: addr where
  "pt8 = 0x87f08000"

lemma foldr_free_page:
  assumes "kmem_state s as" "distinct ps" "set ps \<inter> set as = {}" "\<forall>p \<in> set ps. usable (syms s) p"
  shows "kmem_state (foldr free_page ps s) (ps @ as) \<and> syms (foldr free_page ps s) = syms s \<and>
    (\<forall>x. PGROUNDDOWN x \<notin> set ps \<longrightarrow> pmem (foldr free_page ps s) x = pmem s x)"
  using assms(2-4)
proof (induction ps)
  case (Cons p ps)
  then have IH: "kmem_state (foldr free_page ps s) (ps @ as)" "syms (foldr free_page ps s) = syms s"
    "\<And>x. PGROUNDDOWN x \<notin> set ps \<Longrightarrow> pmem (foldr free_page ps s) x = pmem s x"
    by auto
  have al: "page_aligned p" using Cons.prems(3) usable_aligned by auto
  have "kmem_state (free_page p t) (p # ps @ as)" if "kmem_state t (ps @ as)" "syms t = syms s" for t
    unfolding free_page_def using kfree_state [OF that(1), of p] that(2) Cons.prems by auto
  then have "kmem_state (free_page p (foldr free_page ps s)) (p # ps @ as)" using IH by blast
  moreover have "syms (free_page p t) = syms t" "PGROUNDDOWN x \<noteq> p \<Longrightarrow> pmem (free_page p t) x = pmem t x" for t x
    using al by (simp_all add: free_page_def store64_page_frame fill_page_frame)
  ultimately show ?case using IH by simp
qed (use assms(1) in simp)

lemma frames8_eq: "frames8 = [0x87f00000, 0x87f01000, 0x87f02000, 0x87f03000, 0x87f04000, 0x87f05000, 0x87f06000, 0x87f07000]"
  by (simp add: frames8_def PGSIZE_def upt_rec)

lemma eight_pages:
  "kmem_state eight_pages frames8" "syms eight_pages = syms0" "usable syms0 pt8"
  "PGROUNDDOWN x = pt8 \<Longrightarrow> pmem eight_pages x = 0"
proof -
  have u: "\<forall>p \<in> set frames8. usable (syms kernel0) p" "usable syms0 pt8"
    by (simp_all add: frames8_eq pt8_def usable_def page_aligned_def PGSIZE_def PHYSTOP_def KERNBASE_def syms0_def)
  note f = foldr_free_page [of kernel0 "[]" frames8, folded eight_pages_def]
  have "kmem_state kernel0 []" "distinct frames8"
    by (simp_all add: frames8_eq kmem_state_def kmem_inv_def kmem_ready_def calm_kernel0 free_kernel0
        syms0_def KERNBASE_def PGSIZE_def)
  then show "kmem_state eight_pages frames8" "syms eight_pages = syms0" using f u by auto
  show "usable syms0 pt8" by (rule u)
  assume "PGROUNDDOWN x = pt8"
  then show "pmem eight_pages x = 0"
    using f u \<open>kmem_state kernel0 []\<close> \<open>distinct frames8\<close> by (simp add: frames8_eq pt8_def kernel0_def bss_def)
qed

lemma umem_eight_pages: "umem eight_pages pt8 frames8 0" "pte_of (pmem eight_pages) pt8 va = 0"
proof -
  have "pt8 \<noteq> 0" "pt8 \<notin> set frames8" by (simp_all add: pt8_def frames8_eq)
  then have "vm_inv eight_pages pt8 frames8" "pte_of (pmem eight_pages) pt8 va = 0"
    using fresh_pt [of eight_pages frames8 pt8] eight_pages by auto
  then show "umem eight_pages pt8 frames8 0" "pte_of (pmem eight_pages) pt8 va = 0"
    by (auto simp: umem_def leaves_def owned_def phys_pages_def)
qed

lemma uvmalloc_spec:
  fixes oldsz newsz :: uint64
  defines "n \<equiv> (unat oldsz + 4095) div 4096" and "m \<equiv> (unat newsz + 4095) div 4096"
  assumes mem: "umem s pt fs n" and sz: "oldsz \<le> newsz" "unat newsz \<le> 2 ^ 38"
    and zero: "\<And>va. va < SV39 \<Longrightarrow> n \<le> unat va div 4096 \<Longrightarrow> unat va div 4096 < m \<Longrightarrow> pte_of (pmem s) pt va = 0"
  shows "\<exists>r t fs'. uvmalloc pt oldsz newsz w s = Ret r t w \<and>
    alloc_post s pt fs n m newsz r t fs' \<and>
    (3 * (m - n) \<le> length fs \<longrightarrow> r = newsz)"
proof -
  have le: "unat oldsz \<le> unat newsz" using sz(1) by (simp add: word_le_nat_alt)
  have nm: "n \<le> m" "4096 * m \<le> 2 ^ 38" unfolding n_def m_def using le sz(2) by auto
  have up: "PGROUNDUP oldsz = of_nat (4096 * n)"
    by (rule unat_eq_of_nat) (use le sz(2) in \<open>simp add: unat_PGROUNDUP n_def\<close>)
  have lt: "of_nat (4096 * k) < newsz \<longleftrightarrow> k < m" if "k \<le> m" for k
  proof -
    have "unat (of_nat (4096 * k) :: uint64) = 4096 * k" by (rule unat_of_nat64) (use that nm in simp)
    then show ?thesis unfolding word_less_nat_alt m_def by linarith
  qed
  have "newsz = 0 \<Longrightarrow> m = n" using le by (simp add: n_def m_def)
  moreover have "m - n < 2 ^ 26 + 2" using nm by simp
  ultimately obtain r t fs' where
    "uvmalloc_loop (2 ^ 26 + 2) pt (of_nat (4096 * n)) (of_nat (4096 * n)) newsz w s = Ret r t w"
    "alloc_post s pt fs n m newsz r t fs'" "3 * (m - n) \<le> length fs \<longrightarrow> r = newsz"
    using uvmalloc_loop_spec [OF grown_refl [OF mem] order_refl nm(1) _ _ lt nm(2) zero, of "2 ^ 26 + 2" w]
    by blast
  moreover have "\<not> newsz < oldsz" using sz(1) by simp
  ultimately show ?thesis
    unfolding uvmalloc_def up by (auto simp del: of_nat_mult)
qed

text \<open>
  C8. \<^verbatim>\<open>uvmalloc\<close> adds all pages or none. For a process whose first pages are mapped, with nothing
  mapped beyond them up to the new size, it returns either the new size, with zero-filled pages of the
  free list mapped up to it with all permissions; or 0, with no entry of a user page changed, which cannot
  happen when three pages are free for each page to add. Pages that \<^verbatim>\<open>walk\<close> has added to the page table itself
  stay in it after a failure. In both cases the
  entries of all other pages keep their values, every page is accounted for (it is free, part of the
  page table, or one of the new pages, and none is two of these), and no other memory changes.
\<close>

theorem uvmalloc_all_or_nothing:
  fixes oldsz newsz :: uint64
  defines "n \<equiv> (unat oldsz + 4095) div 4096" and "m \<equiv> (unat newsz + 4095) div 4096"
  assumes mem: "umem s pt fs n" and sz: "oldsz \<le> newsz" "unat newsz \<le> 2 ^ 38"
    and zero: "\<And>va. va < SV39 \<Longrightarrow> n \<le> unat va div 4096 \<Longrightarrow> unat va div 4096 < m \<Longrightarrow> pte_of (pmem s) pt va = 0"
  shows "\<exists>r t fs'. uvmalloc pt oldsz newsz w s = Ret r t w \<and>
    (r = newsz \<and> grown s pt fs n t fs' m \<or> r = 0 \<and> grown s pt fs n t fs' n) \<and>
    (3 * (m - n) \<le> length fs \<longrightarrow> r = newsz)"
  using uvmalloc_spec [of s pt fs oldsz newsz w] assms by (auto simp: alloc_post_def split: if_splits)

theorem uvmalloc_all_or_nothing_witness:
  "\<exists>t fs'. uvmalloc pt8 0 8192 [] eight_pages = Ret 8192 t [] \<and> grown eight_pages pt8 frames8 0 t fs' 2"
  using uvmalloc_all_or_nothing [of eight_pages pt8 frames8 0 8192 "[]"] umem_eight_pages
  by (auto simp: frames8_eq)

end
