(* ===== verification/Uvmfree.thy ===== *)
theory Uvmfree
  imports Uvm
begin

unbundle bit_operations_syntax

text \<open>
  Removing an address space. \<^verbatim>\<open>freewalk\<close> of \<^verbatim>\<open>kernel/vm.c\<close> frees the pages of a page table from the
  leaves up; \<open>tree_list\<close> is the order in which it does so. The pages of the tree are those that
  \<^verbatim>\<open>walk\<close> reaches, so after \<^verbatim>\<open>uvmfree\<close> every page of the process is free again.
\<close>

section \<open>The pages of a tree\<close>

primrec tree_list :: "nat \<Rightarrow> memory \<Rightarrow> addr \<Rightarrow> addr list" where
  "tree_list 0 m a = []"
| "tree_list (Suc d) m a =
     concat (map (\<lambda>i. let e = load64 m (ent a i) in if e AND PTE_V \<noteq> 0 then tree_list d m (PTE2PA e) else [])
       [0..<512]) @ [a]"

definition child :: "nat \<Rightarrow> memory \<Rightarrow> addr \<Rightarrow> nat \<Rightarrow> addr list" where
  "child d m a i =
     (let e = load64 m (ent a i) in if e AND PTE_V \<noteq> 0 then tree_list d m (PTE2PA e) else [])"

lemma tree_list_child: "tree_list (Suc d) m a = concat (map (child d m a) [0..<512]) @ [a]"
  by (simp add: child_def cong: map_cong)

text \<open>The trees that \<^verbatim>\<open>freewalk\<close> accepts: no leaf is mapped.\<close>

primrec free_ok :: "nat \<Rightarrow> memory \<Rightarrow> addr \<Rightarrow> bool" where
  "free_ok 0 m a \<longleftrightarrow> False"
| "free_ok (Suc d) m a \<longleftrightarrow> (\<forall>i < 512. let e = load64 m (ent a i) in
     e AND PTE_V \<noteq> 0 \<longrightarrow> e AND (PTE_R OR PTE_W OR PTE_X) = 0 \<and> free_ok d m (PTE2PA e))"

lemma tree_list_cong:
  assumes "\<And>x. PGROUNDDOWN x \<in> set (tree_list d m a) \<Longrightarrow> m' x = m x"
    and "\<forall>p \<in> set (tree_list d m a). page_aligned p"
  shows "tree_list d m' a = tree_list d m a \<and> free_ok d m' a = free_ok d m a"
  using assms
proof (induction d arbitrary: a)
  case (Suc d)
  have al: "page_aligned a" using Suc.prems(2) by (simp add: tree_list_child)
  have ld: "load64 m' (ent a i) = load64 m (ent a i)" if "i < 512" for i
    by (rule load64_pages_agree [OF al that]) (use Suc.prems(1) in \<open>simp add: tree_list_child\<close>)
  have sub: "set (tree_list d m (PTE2PA (load64 m (ent a i)))) \<subseteq> set (tree_list (Suc d) m a)"
    if "i < 512" "load64 m (ent a i) AND PTE_V \<noteq> 0" for i
    using that by (auto simp: Let_def)
  have IH: "tree_list d m' (PTE2PA (load64 m (ent a i))) = tree_list d m (PTE2PA (load64 m (ent a i))) \<and>
      free_ok d m' (PTE2PA (load64 m (ent a i))) = free_ok d m (PTE2PA (load64 m (ent a i)))"
    if "i < 512" "load64 m (ent a i) AND PTE_V \<noteq> 0" for i
    using Suc.IH [of "PTE2PA (load64 m (ent a i))"] sub [OF that] Suc.prems by blast
  have "child d m' a i = child d m a i" if "i < 512" for i
    using ld [OF that] IH [OF that] by (simp add: child_def Let_def)
  then have "map (child d m' a) [0..<512] = map (child d m a) [0..<512]" by (intro map_cong) auto
  then have "tree_list (Suc d) m' a = tree_list (Suc d) m a" unfolding tree_list_child by (simp only:)
  moreover have "free_ok (Suc d) m' a = free_ok (Suc d) m a" using ld IH by (auto simp: Let_def)
  ultimately show ?case by (rule conjI)
qed simp

section \<open>\<^verbatim>\<open>freewalk\<close>\<close>

definition freed :: "kernel \<Rightarrow> kernel \<Rightarrow> addr list \<Rightarrow> addr set \<Rightarrow> addr list \<Rightarrow> bool" where
  "freed s t ps touched fs \<longleftrightarrow> kmem_state t (rev ps @ fs) \<and> only_mem s t \<and>
     (\<forall>x. PGROUNDDOWN x \<notin> touched \<longrightarrow> pmem t x = pmem s x)"

lemma freed_trans:
  "freed s t ps A fs \<Longrightarrow> freed t u qs B (rev ps @ fs) \<Longrightarrow> A \<subseteq> C \<Longrightarrow> B \<subseteq> C \<Longrightarrow> freed s u (ps @ qs) C fs"
  unfolding freed_def using only_mem_trans by (metis (no_types, lifting) append.assoc rev_append subsetD)

definition freewalk_body :: "nat \<Rightarrow> addr \<Rightarrow> nat \<Rightarrow> unit kcode" where
  "freewalk_body depth pagetable i =
     kbind (kload (pagetable + 8 * of_nat i)) (\<lambda>pte.
     if pte AND PTE_V \<noteq> 0 \<and> pte AND (PTE_R OR PTE_W OR PTE_X) = 0 then
       kdo [freewalk_depth depth (PTE2PA pte)] (kstore (pagetable + 8 * of_nat i) 0)
     else if pte AND PTE_V \<noteq> 0 then kpanic ''freewalk: leaf''
     else kret ())"

lemma freewalk_depth_Suc:
  "freewalk_depth (Suc d) a = kdo [kfor [0..<512] (freewalk_body d a)] (kfree a)"
  by (simp add: freewalk_body_def [abs_def])

definition walk_pre :: "nat \<Rightarrow> kernel \<Rightarrow> addr list \<Rightarrow> addr \<Rightarrow> bool" where
  "walk_pre d s fs a \<longleftrightarrow> kmem_state s fs \<and> free_ok d (pmem s) a \<and> distinct (tree_list d (pmem s) a) \<and>
     (\<forall>p \<in> set (tree_list d (pmem s) a). usable (syms s) p \<and> p \<notin> set fs)"

text \<open>The loop over the entries of a page, when the pages below are freed as described.\<close>

definition entries_pre :: "nat \<Rightarrow> kernel \<Rightarrow> addr list \<Rightarrow> addr \<Rightarrow> nat list \<Rightarrow> bool" where
  "entries_pre d s fs a is \<longleftrightarrow> kmem_state s fs \<and> page_aligned a \<and> a \<notin> set fs \<and> distinct is \<and>
     (\<forall>i \<in> set is. i < 512 \<and> (let e = load64 (pmem s) (ent a i) in
        e AND PTE_V \<noteq> 0 \<longrightarrow> e AND (PTE_R OR PTE_W OR PTE_X) = 0 \<and> free_ok d (pmem s) (PTE2PA e))) \<and>
     (let ps = concat (map (child d (pmem s) a) is) in
      distinct ps \<and> (\<forall>p \<in> set ps. usable (syms s) p \<and> p \<notin> set fs \<and> p \<noteq> a))"

lemma entries_pre_next:
  assumes pre: "entries_pre d s fs a (i # is)"
    and fr: "freed s t (child d (pmem s) a i) (set (child d (pmem s) a i) \<union> {a}) fs"
    and other: "\<forall>j < 512. j \<noteq> i \<longrightarrow> load64 (pmem t) (ent a j) = load64 (pmem s) (ent a j)"
  shows "entries_pre d t (rev (child d (pmem s) a i) @ fs) a is"
    "map (child d (pmem t) a) is = map (child d (pmem s) a) is"
proof -
  have dist: "distinct (concat (map (child d (pmem s) a) (i # is)))"
    and ok: "\<forall>p \<in> set (concat (map (child d (pmem s) a) (i # is))). usable (syms s) p \<and> p \<notin> set fs \<and> p \<noteq> a"
    and isi: "\<forall>j \<in> set is. j < 512 \<and> j \<noteq> i"
    using pre by (auto simp: entries_pre_def Let_def)
  let ?ps = "child d (pmem s) a i" and ?qs = "concat (map (child d (pmem s) a) is)"
  have ok_is: "usable (syms s) p" "p \<notin> set fs" "p \<noteq> a" "p \<notin> set ?ps" if "p \<in> set ?qs" for p
    using that ok dist by auto
  have a: "page_aligned a" "a \<notin> set fs" "a \<notin> set ?ps"
    using pre ok by (auto simp: entries_pre_def)
  have same: "tree_list d (pmem t) (PTE2PA e) = tree_list d (pmem s) (PTE2PA e) \<and>
      free_ok d (pmem t) (PTE2PA e) = free_ok d (pmem s) (PTE2PA e)"
    if j: "j \<in> set is" and e: "e = load64 (pmem s) (ent a j)" "e AND PTE_V \<noteq> 0" for j e
  proof (rule tree_list_cong)
    have ch: "tree_list d (pmem s) (PTE2PA e) = child d (pmem s) a j" using e by (simp add: child_def Let_def)
    have sub: "set (child d (pmem s) a j) \<subseteq> set (concat (map (child d (pmem s) a) is))" using j by auto
    show "\<forall>p \<in> set (tree_list d (pmem s) (PTE2PA e)). page_aligned p"
      unfolding ch using ok_is sub usable_aligned by blast
    fix x assume "PGROUNDDOWN x \<in> set (tree_list d (pmem s) (PTE2PA e))"
    then have "PGROUNDDOWN x \<in> set (concat (map (child d (pmem s) a) is))" using ch sub by auto
    then have "PGROUNDDOWN x \<notin> set ?ps \<union> {a}" using ok_is by blast
    then show "pmem t x = pmem s x" using fr by (simp add: freed_def)
  qed
  have ld: "load64 (pmem t) (ent a j) = load64 (pmem s) (ent a j)" if "j \<in> set is" for j
    using that isi other by blast
  have "child d (pmem t) a j = child d (pmem s) a j" if "j \<in> set is" for j
    using same [OF that] ld [OF that] by (simp add: child_def Let_def)
  then show eq: "map (child d (pmem t) a) is = map (child d (pmem s) a) is" by simp
  have sy: "syms t = syms s" using fr only_mem_fields(1) by (auto simp: freed_def)
  show "entries_pre d t (rev ?ps @ fs) a is"
    unfolding entries_pre_def eq sy Let_def
  proof (intro conjI ballI impI)
    show "kmem_state t (rev ?ps @ fs)" using fr by (simp add: freed_def)
    show "page_aligned a" "a \<notin> set (rev ?ps @ fs)" using a by auto
    show "distinct is" "distinct ?qs" using pre dist by (auto simp: entries_pre_def)
    show "usable (syms s) p" "p \<notin> set (rev ?ps @ fs)" "p \<noteq> a" if "p \<in> set ?qs" for p
      using ok_is [OF that] by auto
    fix j assume j: "j \<in> set is"
    have pj: "j < 512 \<and> (load64 (pmem s) (ent a j) AND PTE_V \<noteq> 0 \<longrightarrow>
        load64 (pmem s) (ent a j) AND (PTE_R OR PTE_W OR PTE_X) = 0 \<and> free_ok d (pmem s) (PTE2PA (load64 (pmem s) (ent a j))))"
      using pre j by (simp add: entries_pre_def Let_def)
    then show "j < 512" by simp
    assume v: "load64 (pmem t) (ent a j) AND PTE_V \<noteq> 0"
    then show "load64 (pmem t) (ent a j) AND (PTE_R OR PTE_W OR PTE_X) = 0"
      "free_ok d (pmem t) (PTE2PA (load64 (pmem t) (ent a j)))"
      using pj same [OF j refl] unfolding ld [OF j] by auto
  qed
qed

lemma freewalk_entry:
  assumes IH: "\<And>s fs b. walk_pre d s fs b \<Longrightarrow>
      \<exists>t. freewalk_depth d b w s = Ret () t w \<and> freed s t (tree_list d (pmem s) b) (set (tree_list d (pmem s) b)) fs"
    and pre: "entries_pre d s fs a (i # is)"
  shows "\<exists>t. freewalk_body d a i w s = Ret () t w \<and>
    freed s t (child d (pmem s) a i) (set (child d (pmem s) a i) \<union> {a}) fs \<and>
    (\<forall>j < 512. j \<noteq> i \<longrightarrow> load64 (pmem t) (ent a j) = load64 (pmem s) (ent a j))"
proof -
  let ?e = "load64 (pmem s) (ent a i)"
  have addr: "a + 8 * of_nat i = ent a i" by (simp add: ent_def)
  have st: "kmem_state s fs" and a: "page_aligned a" "a \<notin> set fs" and i: "i < 512"
    and e: "?e AND PTE_V \<noteq> 0 \<longrightarrow> ?e AND (PTE_R OR PTE_W OR PTE_X) = 0 \<and> free_ok d (pmem s) (PTE2PA ?e)"
    and dist: "distinct (child d (pmem s) a i)"
    and ok: "\<And>p. p \<in> set (child d (pmem s) a i) \<Longrightarrow> usable (syms s) p \<and> p \<notin> set fs \<and> p \<noteq> a"
    using pre by (auto simp: entries_pre_def Let_def)
  show ?thesis
  proof (cases "?e AND PTE_V = 0")
    case True
    then have "freewalk_body d a i w s = Ret () s w" "child d (pmem s) a i = []"
      by (simp_all add: freewalk_body_def addr kapply child_def)
    then show ?thesis using st by (simp add: freed_def)
  next
    case False
    then have ch: "tree_list d (pmem s) (PTE2PA ?e) = child d (pmem s) a i" by (simp add: child_def)
    have "walk_pre d s fs (PTE2PA ?e)"
      unfolding walk_pre_def ch using st e False dist ok by auto
    from IH [OF this] obtain t where
      run: "freewalk_depth d (PTE2PA ?e) w s = Ret () t w" and
      fr: "freed s t (child d (pmem s) a i) (set (child d (pmem s) a i)) fs"
      unfolding ch by blast
    let ?t = "t\<lparr>pmem := store64 (pmem t) (ent a i) 0\<rparr>"
    have "freewalk_body d a i w s = Ret () ?t w"
      using False e run by (simp add: freewalk_body_def addr kapply)
    moreover have "kmem_state ?t (rev (child d (pmem s) a i) @ fs)"
    proof (rule kmem_state_pmem)
      show "kmem_state t (rev (child d (pmem s) a i) @ fs)" using fr by (simp add: freed_def)
      fix x assume "PGROUNDDOWN x \<in> set (rev (child d (pmem s) a i) @ fs)"
      then have "PGROUNDDOWN x \<noteq> a" using ok a(2) by auto
      then show "store64 (pmem t) (ent a i) 0 x = pmem t x" using a(1) i by (simp add: store64_ent_frame)
    qed
    then have "freed s ?t (child d (pmem s) a i) (set (child d (pmem s) a i) \<union> {a}) fs"
      using fr a(1) i by (simp add: freed_def store64_ent_frame)
    moreover have "load64 (pmem ?t) (ent a j) = load64 (pmem s) (ent a j)" if "j < 512" "j \<noteq> i" for j
    proof -
      have "load64 (pmem t) (ent a j) = load64 (pmem s) (ent a j)"
      proof (rule load64_pages_agree [OF a(1) that(1)])
        fix x assume "PGROUNDDOWN x = a"
        then have "PGROUNDDOWN x \<notin> set (child d (pmem s) a i)" using ok by auto
        then show "pmem t x = pmem s x" using fr by (simp add: freed_def)
      qed
      then show ?thesis using load64_ent_other [OF a(1) a(1) that(1) i] that by simp
    qed
    ultimately show ?thesis by blast
  qed
qed

lemma freewalk_entries:
  assumes IH: "\<And>s fs b. walk_pre d s fs b \<Longrightarrow>
      \<exists>t. freewalk_depth d b w s = Ret () t w \<and> freed s t (tree_list d (pmem s) b) (set (tree_list d (pmem s) b)) fs"
  shows "entries_pre d s fs a is \<Longrightarrow>
    \<exists>t. kfor is (freewalk_body d a) w s = Ret () t w \<and>
      freed s t (concat (map (child d (pmem s) a) is)) (set (concat (map (child d (pmem s) a) is)) \<union> {a}) fs"
proof (induction "is" arbitrary: s fs)
  case Nil
  then show ?case by (simp add: kapply freed_def entries_pre_def)
next
  case (Cons i "is")
  have "\<exists>t. freewalk_body d a i w s = Ret () t w \<and>
      freed s t (child d (pmem s) a i) (set (child d (pmem s) a i) \<union> {a}) fs \<and>
      (\<forall>j < 512. j \<noteq> i \<longrightarrow> load64 (pmem t) (ent a j) = load64 (pmem s) (ent a j))"
    using Cons.prems by (rule freewalk_entry [rotated]) (rule IH)
  then obtain t where
    run: "freewalk_body d a i w s = Ret () t w" and
    fr: "freed s t (child d (pmem s) a i) (set (child d (pmem s) a i) \<union> {a}) fs" and
    other: "\<forall>j < 512. j \<noteq> i \<longrightarrow> load64 (pmem t) (ent a j) = load64 (pmem s) (ent a j)"
    by blast
  note nx = entries_pre_next [OF Cons.prems fr other]
  obtain u where
    run': "kfor is (freewalk_body d a) w t = Ret () u w" and
    fr': "freed t u (concat (map (child d (pmem s) a) is)) (set (concat (map (child d (pmem s) a) is)) \<union> {a})
      (rev (child d (pmem s) a i) @ fs)"
    using Cons.IH [OF nx(1)] unfolding nx(2) by blast
  let ?ps = "child d (pmem s) a i" and ?qs = "concat (map (child d (pmem s) a) is)"
  have "freed s u (?ps @ ?qs) (set (?ps @ ?qs) \<union> {a}) fs"
    by (rule freed_trans [OF fr fr']) auto
  moreover have "kfor (i # is) (freewalk_body d a) w s = Ret () u w"
    using run run' by (simp add: kapply)
  ultimately show ?case unfolding list.map concat.simps by blast
qed

lemma freewalk_depth_spec:
  "walk_pre d s fs a \<Longrightarrow>
   \<exists>t. freewalk_depth d a w s = Ret () t w \<and> freed s t (tree_list d (pmem s) a) (set (tree_list d (pmem s) a)) fs"
proof (induction d arbitrary: s fs a)
  case 0
  then show ?case by (simp add: walk_pre_def)
next
  case (Suc d)
  let ?ps = "concat (map (child d (pmem s) a) [0..<512])"
  have tl: "tree_list (Suc d) (pmem s) a = ?ps @ [a]" by (rule tree_list_child)
  have st: "kmem_state s fs" and dist: "distinct (?ps @ [a])"
    and ok: "\<And>p. p \<in> set (?ps @ [a]) \<Longrightarrow> usable (syms s) p \<and> p \<notin> set fs"
    using Suc.prems unfolding walk_pre_def tl by blast+
  have al: "page_aligned a" using ok usable_aligned by auto
  have "entries_pre d s fs a [0..<512]"
    using Suc.prems st dist ok al unfolding entries_pre_def walk_pre_def tl by (auto simp: Let_def)
  from freewalk_entries [OF Suc.IH this] obtain t where
    run: "kfor [0..<512] (freewalk_body d a) w s = Ret () t w" and
    fr: "freed s t ?ps (set ?ps \<union> {a}) fs"
    by blast
  have sy: "syms t = syms s" using fr only_mem_fields(1) by (auto simp: freed_def)
  have stt: "kmem_state t (rev ?ps @ fs)" using fr by (simp add: freed_def)
  have a: "usable (syms t) a" "a \<notin> set (rev ?ps @ fs)" using ok dist sy by auto
  let ?u = "t\<lparr>pmem := store64 (fill_page (pmem t) a 1) a (freelist t), freelist := a\<rparr>"
  have "freewalk_depth (Suc d) a w s = Ret () ?u w"
    unfolding freewalk_depth_Suc using run kfree_run [OF _ a(1), of w] stt by (simp add: kapply kmem_state_def)
  moreover have "freed t ?u [a] {a} (rev ?ps @ fs)"
    using kfree_state [OF stt a] al
    by (simp add: freed_def only_memI' store64_page_frame fill_page_frame)
  then have "freed s ?u (?ps @ [a]) (set (?ps @ [a])) fs"
    by (rule freed_trans [OF fr]) auto
  ultimately show ?case unfolding tl by blast
qed

section \<open>The tree of a page table\<close>

definition below :: "nat \<Rightarrow> nat list \<Rightarrow> bool" where
  "below d q \<longleftrightarrow> length q < d \<and> (\<forall>i \<in> set q. i < 512)"

lemma below_vpath: "below 3 q \<longleftrightarrow> vpath q"
  by (auto simp: below_def vpath_def)

lemma below_0 [simp]: "\<not> below 0 q"
  by (simp add: below_def)

lemma below_Nil [simp]: "below (Suc d) []"
  by (simp add: below_def)

lemma below_snoc [simp]: "below (Suc d) (q @ [i]) \<longleftrightarrow> i < 512 \<and> below d q"
  by (auto simp: below_def)

text \<open>The last index of a path is the first step from the root.\<close>

lemma node_snoc:
  "node m a (q @ [i]) = (let e = load64 m (ent a i) in if e AND PTE_V \<noteq> 0 then node m (PTE2PA e) q else None)"
  by (induction q) (simp_all add: Let_def)

lemma below_cases:
  assumes "below (Suc d) q" obtains "q = []" | q' i where "q = q' @ [i]" "i < 512" "below d q'"
  using assms by (cases q rule: rev_cases) auto

lemma set_tree_list: "set (tree_list d m a) = {b. \<exists>q. below d q \<and> node m a q = Some b}"
proof (induction d arbitrary: a)
  case (Suc d)
  have "b \<in> set (tree_list (Suc d) m a) \<longleftrightarrow> b = a \<or> (\<exists>i < 512. \<exists>q. below d q \<and> node m a (q @ [i]) = Some b)" for b
    by (auto simp: tree_list_child child_def Let_def Suc.IH node_snoc)
  also have "\<dots> b \<longleftrightarrow> (\<exists>q. below (Suc d) q \<and> node m a q = Some b)" for b
  proof
    assume "b = a \<or> (\<exists>i < 512. \<exists>q. below d q \<and> node m a (q @ [i]) = Some b)"
    then show "\<exists>q. below (Suc d) q \<and> node m a q = Some b"
      by (metis below_Nil below_snoc node.simps(1))
  next
    assume "\<exists>q. below (Suc d) q \<and> node m a q = Some b"
    then obtain q where "below (Suc d) q" "node m a q = Some b" by blast
    then show "b = a \<or> (\<exists>i < 512. \<exists>q. below d q \<and> node m a (q @ [i]) = Some b)"
      by (cases rule: below_cases) auto
  qed
  finally show ?case by blast
qed simp

lemma distinct_tree_list:
  assumes "\<And>p q b. below d p \<Longrightarrow> below d q \<Longrightarrow> node m a p = Some b \<Longrightarrow> node m a q = Some b \<Longrightarrow> p = q"
  shows "distinct (tree_list d m a)"
  using assms
proof (induction d arbitrary: a)
  case (Suc d)
  have in_child: "b \<in> set (child d m a i) \<longleftrightarrow> (\<exists>q. below d q \<and> node m a (q @ [i]) = Some b)" for b i
    by (auto simp: child_def Let_def set_tree_list node_snoc)
  have dist: "distinct (child d m a i)" if "i < 512" for i
  proof (cases "load64 m (ent a i) AND PTE_V = 0")
    case False
    have "distinct (tree_list d m (PTE2PA (load64 m (ent a i))))"
    proof (rule Suc.IH)
      fix p q b assume "below d p" "below d q" "node m (PTE2PA (load64 m (ent a i))) p = Some b"
        "node m (PTE2PA (load64 m (ent a i))) q = Some b"
      then show "p = q"
        using Suc.prems [of "p @ [i]" "q @ [i]" b] that False by (simp add: node_snoc Let_def)
    qed
    with False show ?thesis by (simp add: child_def Let_def)
  qed (simp add: child_def)
  have disj: "set (child d m a i) \<inter> set (child d m a j) = {}" if "i < 512" "j < 512" "i \<noteq> j" for i j
  proof -
    have False if b: "b \<in> set (child d m a i)" "b \<in> set (child d m a j)" for b
    proof -
      obtain p q where "below d p" "node m a (p @ [i]) = Some b" "below d q" "node m a (q @ [j]) = Some b"
        using b in_child by blast
      then show False using Suc.prems [of "p @ [i]" "q @ [j]" b] \<open>i < 512\<close> \<open>j < 512\<close> \<open>i \<noteq> j\<close> by simp
    qed
    then show ?thesis by blast
  qed
  have "a \<notin> set (child d m a i)" if "i < 512" for i
  proof
    assume "a \<in> set (child d m a i)"
    then obtain q where "below d q" "node m a (q @ [i]) = Some a" using in_child by blast
    then show False using Suc.prems [of "q @ [i]" "[]" a] that by simp
  qed
  moreover have dc: "distinct (concat (map (child d m a) is))" if "distinct is" "set is \<subseteq> {..<512}" for "is"
    using that
  proof (induction "is")
    case (Cons i "is")
    then have "i < 512" "set is \<subseteq> {..<512}" "i \<notin> set is" by auto
    then have "set (child d m a i) \<inter> set (child d m a j) = {}" if "j \<in> set is" for j
      using disj [of i j] that by fastforce
    then show ?case using Cons dist by auto
  qed simp
  have "distinct (concat (map (child d m a) [0..<512]))" by (rule dc) auto
  ultimately show ?case unfolding tree_list_child by auto
qed simp

text \<open>No leaf entry is valid, in the whole tree.\<close>

definition no_leaf :: "memory \<Rightarrow> addr \<Rightarrow> bool" where
  "no_leaf m pt \<longleftrightarrow> (\<forall>p a i. vpath p \<longrightarrow> length p = 2 \<longrightarrow> node m pt p = Some a \<longrightarrow> i < 512 \<longrightarrow>
     load64 m (ent a i) AND PTE_V = 0)"

lemma free_ok_tree:
  assumes "\<And>i q b. below (Suc d) (i # q) \<Longrightarrow> node m a q = Some b \<Longrightarrow> dir_ok (load64 m (ent b i))"
    and "\<And>i q b. below (Suc d) q \<Longrightarrow> length q = d \<Longrightarrow> i < 512 \<Longrightarrow> node m a q = Some b \<Longrightarrow>
      load64 m (ent b i) AND PTE_V = 0"
  shows "free_ok (Suc d) m a"
  using assms
proof (induction d arbitrary: a)
  case 0
  then show ?case by simp
next
  case (Suc d)
  show ?case
    unfolding free_ok.simps(2) [of "Suc d"] Let_def
  proof (intro allI impI conjI)
    fix i :: nat assume i: "i < 512" and v: "load64 m (ent a i) AND PTE_V \<noteq> 0"
    let ?c = "PTE2PA (load64 m (ent a i))"
    have step: "node m ?c q = node m a (q @ [i])" for q using v by (simp add: node_snoc Let_def)
    show "load64 m (ent a i) AND (PTE_R OR PTE_W OR PTE_X) = 0"
      using Suc.prems(1) [of i "[]" a] i v by (simp add: dir_ok_def below_def)
    show "free_ok (Suc d) m ?c"
    proof (rule Suc.IH)
      show "dir_ok (load64 m (ent b j))" if "below (Suc d) (j # q)" "node m ?c q = Some b" for j q b
        using Suc.prems(1) [of j "q @ [i]" b] that step i by (simp add: below_def)
      show "load64 m (ent b j) AND PTE_V = 0"
        if "below (Suc d) q" "length q = d" "j < 512" "node m ?c q = Some b" for j q b
        using Suc.prems(2) [of "q @ [i]" j b] that step i by simp
    qed
  qed
qed

text \<open>
  \<^verbatim>\<open>freewalk\<close> frees exactly the pages of the tree.
\<close>

lemma freewalk_spec:
  assumes inv: "vm_inv s pt fs" and nl: "no_leaf (pmem s) pt"
  shows "\<exists>t ps. freewalk pt w s = Ret () t w \<and> freed s t ps (pt_pages (pmem s) pt) fs \<and>
    set ps = pt_pages (pmem s) pt \<and> distinct ps"
proof -
  have ok: "pt_ok (pmem s) pt" using inv by (simp add: vm_inv_def)
  have pages: "set (tree_list 3 (pmem s) pt) = pt_pages (pmem s) pt"
    by (simp add: set_tree_list below_vpath pt_pages_def)
  have dist: "distinct (tree_list 3 (pmem s) pt)"
    by (rule distinct_tree_list) (use pt_ok_inj [OF ok] below_vpath in blast)
  have "free_ok (Suc 2) (pmem s) pt"
    using pt_ok_dir [OF ok] nl
    by (intro free_ok_tree) (auto simp: no_leaf_def below_vpath)
  then have "walk_pre 3 s fs pt"
    using inv dist unfolding walk_pre_def pages vm_inv_def by (simp add: numeral_3_eq_3 numeral_2_eq_2)
  from freewalk_depth_spec [OF this, of w] show ?thesis
    unfolding freewalk_def using pages dist by auto
qed

section \<open>\<^verbatim>\<open>uvmfree\<close>\<close>

text \<open>Nothing is mapped from page \<open>n\<close> on.\<close>

definition mapped_below :: "nat \<Rightarrow> memory \<Rightarrow> addr \<Rightarrow> bool" where
  "mapped_below n m pt \<longleftrightarrow> (\<forall>va < SV39. n \<le> unat va div 4096 \<longrightarrow> pte_of m pt va AND PTE_V = 0)"

lemma page_indices:
  assumes "j1 < 512" "j2 < 512" "i < 512" and k: "k = j2 * 2 ^ 18 + j1 * 2 ^ 9 + i"
  shows "unat (PX 2 (of_nat (4096 * k))) = j2" "unat (PX 1 (of_nat (4096 * k))) = j1"
    "unat (PX 0 (of_nat (4096 * k))) = i"
proof -
  have "k < 2 ^ 27" unfolding k using assms(1-3) by simp
  then have u: "unat (of_nat (4096 * k) :: addr) = 4096 * k" by (intro unat_of_nat64) simp
  have "4096 * k div 2 ^ 30 = j2 + 0" "4096 * k div 2 ^ 21 = j2 * 512 + j1" "4096 * k div 2 ^ 12 = k"
    unfolding k using assms(1-3) by simp_all
  moreover have "k = i + (j2 * 512 + j1) * 512" by (simp add: k)
  then have "k mod 512 = i mod 512" by (simp only: mod_mult_self1)
  then have "(j2 * 512 + j1) mod 512 = j1" "k mod 512 = i" using assms(1-3) by simp_all
  ultimately show "unat (PX 2 (of_nat (4096 * k))) = j2" "unat (PX 1 (of_nat (4096 * k))) = j1"
    "unat (PX 0 (of_nat (4096 * k))) = i"
    unfolding unat_PX u using assms(2) by simp_all
qed

lemma unmapped_no_leaf:
  assumes zero: "\<And>va. va < SV39 \<Longrightarrow> pte_of m pt va AND PTE_V = 0"
  shows "no_leaf m pt"
  unfolding no_leaf_def
proof (intro allI impI)
  fix p a and i :: nat assume p: "vpath p" "length p = 2" and a: "node m pt p = Some a" and i: "i < 512"
  obtain j1 j2 where j: "p = [j1, j2]" using p(2) by (auto simp: numeral_2_eq_2 length_Suc_conv)
  then have jl: "j1 < 512" "j2 < 512" using p(1) by (auto simp: vpath_def)
  define k where "k = j2 * 2 ^ 18 + j1 * 2 ^ 9 + i"
  note ix = page_indices [OF jl i k_def]
  have "pte_of m pt (of_nat (4096 * k)) = load64 m (ent a i)"
    using a ix by (simp add: pte_of_def path_of_simps j del: node.simps of_nat_mult)
  moreover have "k < 2 ^ 27" using jl i by (simp add: k_def)
  then have "of_nat (4096 * k) < SV39"
    by (simp add: word_less_nat_alt unat_SV39 unat_of_nat64 del: of_nat_mult)
  ultimately show "load64 m (ent a i) AND PTE_V = 0" using zero by metis
qed

lemma uvmfree_spec:
  fixes sz :: uint64
  defines "n \<equiv> (unat sz + 4095) div 4096"
  assumes mem: "umem s pt fs n" and sz: "unat sz \<le> 2 ^ 38" and mb: "mapped_below n (pmem s) pt"
  defines "ps \<equiv> pt_pages (pmem s) pt \<union> set (phys_pages (pte_of (pmem s) pt) 0 n)"
  shows "\<exists>t fs'. uvmfree pt sz w s = Ret () t w \<and> kmem_state t fs' \<and>
    set fs' = set fs \<union> ps \<and> length fs' = length fs + card ps \<and> only_mem s t \<and>
    (\<forall>x. PGROUNDDOWN x \<notin> ps \<longrightarrow> pmem t x = pmem s x)"
proof -
  let ?gone = "phys_pages (pte_of (pmem s) pt) 0 n"
  have n38: "4096 * n \<le> 2 ^ 38" unfolding n_def using sz by auto
  have inv: "vm_inv s pt fs" and lv: "leaves (pte_of (pmem s) pt) 0 n" and own: "owned s pt fs ?gone"
    using mem by (auto simp: umem_def)
  have al: "page_aligned 0" by (simp add: page_aligned_def)
  have np: "PGROUNDUP sz div PGSIZE = of_nat n"
    by (rule unat_eq_of_nat) (use sz in \<open>simp add: unat_div unat_PGROUNDUP PGSIZE_def n_def\<close>)
  obtain t where run: "uvmunmap pt 0 (of_nat n) True w s = Ret () t w" and un: "unmapped s t pt fs 0 n ?gone"
    using uvmunmap_spec [OF inv al _ lv own, of True w] n38 by auto
  have "sz = 0 \<Longrightarrow> t = s" using run by (simp add: n_def uvmunmap_def kapply Let_def)
  then have run': "kwhen (0 < sz) (uvmunmap pt 0 (PGROUNDUP sz div PGSIZE) True) w s = Ret () t w"
    unfolding np using run by (cases "sz = 0") (simp_all add: kapply word_neq_0_conv)
  have inv': "vm_inv t pt (rev ?gone @ fs)" and pg: "pt_pages (pmem t) pt = pt_pages (pmem s) pt"
    using un by (auto simp: unmapped_def)
  have "pte_of (pmem t) pt va AND PTE_V = 0" if "va < SV39" for va
    using un mb that unmap_range_page [of 0 n "pte_of (pmem s) pt" va] n38
    by (simp add: unmapped_def mapped_below_def)
  then have nl: "no_leaf (pmem t) pt" by (rule unmapped_no_leaf)
  from freewalk_spec [OF inv' nl, of w] obtain u qs where
    walk: "freewalk pt w t = Ret () u w" and
    fr: "freed t u qs (pt_pages (pmem s) pt) (rev ?gone @ fs)" and
    qs: "set qs = pt_pages (pmem s) pt" "distinct qs"
    unfolding pg by blast
  have "length (rev qs @ rev ?gone @ fs) = length fs + card ps"
    unfolding ps_def using qs own
    by (subst card_Un_disjoint) (auto simp: distinct_card owned_def simp flip: qs(1))
  moreover have "set (rev qs @ rev ?gone @ fs) = set fs \<union> ps" using qs by (auto simp: ps_def)
  moreover have "uvmfree pt sz w s = Ret () u w"
    using run' walk by (simp add: uvmfree_def kapply)
  moreover have "only_mem s u" using fr un only_mem_trans by (meson freed_def unmapped_def)
  moreover have "\<forall>x. PGROUNDDOWN x \<notin> ps \<longrightarrow> pmem u x = pmem s x"
    using fr un by (simp add: freed_def unmapped_def ps_def)
  ultimately show ?thesis using fr unfolding freed_def by blast
qed

text \<open>
  C9. \<^verbatim>\<open>uvmfree\<close> leaks nothing: for a process whose first pages are mapped and nothing else is, it
  frees each page of the process and each page of its page table exactly once, and touches no other
  memory.
\<close>

theorem uvmfree_frees_all:
  fixes sz :: uint64
  defines "n \<equiv> (unat sz + 4095) div 4096"
  assumes mem: "umem s pt fs n" and sz: "unat sz \<le> 2 ^ 38" and mb: "mapped_below n (pmem s) pt"
  defines "ps \<equiv> pt_pages (pmem s) pt \<union> set (phys_pages (pte_of (pmem s) pt) 0 n)"
  shows "\<exists>t fs'. uvmfree pt sz w s = Ret () t w \<and> kmem_state t fs' \<and>
    set fs' = set fs \<union> ps \<and> length fs' = length fs + card ps \<and> only_mem s t \<and>
    (\<forall>x. PGROUNDDOWN x \<notin> ps \<longrightarrow> pmem t x = pmem s x)"
  unfolding n_def ps_def by (rule uvmfree_spec) (use assms in simp_all)

text \<open>A process with two pages.\<close>

lemma two_page_process:
  "\<exists>s fs. umem s pt8 fs 2 \<and> mapped_below 2 (pmem s) pt8 \<and> new_pages s pt8 0 2"
proof -
  obtain r t fs' where a: "alloc_post eight_pages pt8 frames8 0 2 8192 r t fs'" "r = 8192"
    using uvmalloc_spec [of eight_pages pt8 frames8 0 8192 "[]"] umem_eight_pages by (auto simp: frames8_eq)
  then have "mapped_below 2 (pmem t) pt8"
    using umem_eight_pages(2) by (auto simp: alloc_post_def grown_def mapped_below_def)
  with a show ?thesis by (auto simp: alloc_post_def grown_def)
qed

theorem uvmfree_frees_all_witness:
  "\<exists>s fs t fs'. umem s pt8 fs 2 \<and> mapped_below 2 (pmem s) pt8 \<and> uvmfree pt8 8192 [] s = Ret () t [] \<and>
    kmem_state t fs' \<and> set fs' = set fs \<union> pt_pages (pmem s) pt8 \<union> set (phys_pages (pte_of (pmem s) pt8) 0 2)"
proof -
  obtain s fs where s: "umem s pt8 fs 2" "mapped_below 2 (pmem s) pt8" using two_page_process by blast
  then show ?thesis using uvmfree_frees_all [of s pt8 fs 8192 "[]"] by (auto simp: Un_assoc)
qed

text \<open>
  C10. No page is lost on the way from a new address space to its removal. \<^verbatim>\<open>uvmcreate\<close>, \<^verbatim>\<open>uvmalloc\<close> of
  any size below \<^verbatim>\<open>MAXVA\<close> and \<^verbatim>\<open>uvmfree\<close> of the size that was reached, whether or not the memory
  sufficed, return with the same pages on the free list as before, each once.
\<close>

theorem address_space_no_leak:
  assumes st: "kmem_state s fs" and fs: "fs \<noteq> []" and sz: "unat sz \<le> 2 ^ 38"
  shows "runs (kbind uvmcreate (\<lambda>pt. kbind (uvmalloc pt 0 sz) (\<lambda>r. uvmfree pt r))) w s
    (\<lambda>_ t. \<exists>fs'. kmem_state t fs' \<and> set fs' = set fs \<and> length fs' = length fs)"
proof -
  obtain pt gs where fs': "fs = pt # gs" using fs by (cases fs) auto
  obtain t where create: "uvmcreate w s = Ret pt t w" and t: "umem t pt gs 0" "pt_pages (pmem t) pt = {pt}"
    "\<And>va. pte_of (pmem t) pt va = 0"
    using uvmcreate_spec [OF st [unfolded fs'], of w] by auto
  let ?m = "(unat sz + 4095) div 4096"
  obtain r u hs where alloc: "uvmalloc pt 0 sz w t = Ret r u w" and post: "alloc_post t pt gs 0 ?m sz r u hs"
    using uvmalloc_spec [of t pt gs 0 sz w] t sz by auto
  let ?k = "(unat r + 4095) div 4096"
  have g: "grown t pt gs 0 u hs ?k" and r: "unat r \<le> 2 ^ 38"
    using post sz by (auto simp: alloc_post_def split: if_splits)
  have mb: "mapped_below ?k (pmem u) pt" using g t(3) by (simp add: grown_def mapped_below_def)
  have mem: "umem u pt hs ?k" using g by (simp add: grown_def)
  let ?ps = "pt_pages (pmem u) pt \<union> set (phys_pages (pte_of (pmem u) pt) 0 ?k)"
  obtain v fs'' where free: "uvmfree pt r w u = Ret () v w" and v: "kmem_state v fs''" "set fs'' = set hs \<union> ?ps"
    using uvmfree_spec [OF mem r mb, of w] by blast
  have all: "set fs'' = set fs" using g v(2) t(2) fs' by (auto simp: grown_def)
  moreover have "length fs'' = length fs"
    using all v(1) st distinct_card [of fs] distinct_card [of fs''] by (simp add: kmem_state_def kmem_inv_def)
  ultimately show ?thesis using create alloc free v(1) by (auto simp: runs_def kapply)
qed

theorem address_space_no_leak_witness:
  "runs (kbind uvmcreate (\<lambda>pt. kbind (uvmalloc pt 0 8192) (\<lambda>r. uvmfree pt r))) [] eight_pages
    (\<lambda>_ t. \<exists>fs'. kmem_state t fs' \<and> set fs' = set frames8 \<and> length fs' = length frames8)"
  using address_space_no_leak [OF eight_pages(1), of 8192 "[]"] by (simp add: frames8_eq)

end
