(* ===== verification/Copy.thy ===== *)
theory Copy
  imports Uvmfree
begin

unbundle bit_operations_syntax

text \<open>
  The kernel's access to user memory: \<^verbatim>\<open>walkaddr\<close>, \<^verbatim>\<open>copyout\<close> and \<^verbatim>\<open>copyin\<close> of
  \<^verbatim>\<open>kernel/vm.c\<close>. User memory is a map from virtual addresses to bytes, \<open>ubyte\<close>; a copy reads or
  writes it from an address upwards, up to the first page that the user may not access.
\<close>

section \<open>User memory as a map\<close>

definition umapped :: "memory \<Rightarrow> addr \<Rightarrow> addr \<Rightarrow> bool" where
  "umapped m pt va \<longleftrightarrow> va < MAXVA \<and> pte_of m pt va AND PTE_V \<noteq> 0 \<and> pte_of m pt va AND PTE_U \<noteq> 0"

definition uaddr :: "memory \<Rightarrow> addr \<Rightarrow> addr \<Rightarrow> addr" where
  "uaddr m pt va = PTE2PA (pte_of m pt va) + (va - PGROUNDDOWN va)"

definition ubyte :: "memory \<Rightarrow> addr \<Rightarrow> addr \<Rightarrow> byte" where
  "ubyte m pt va = m (uaddr m pt va)"

text \<open>Different pages of the user are different pages in memory, and none is part of the page table.\<close>

definition user_sep :: "memory \<Rightarrow> addr \<Rightarrow> bool" where
  "user_sep m pt \<longleftrightarrow> pt_ok m pt \<and>
     (\<forall>va. umapped m pt va \<longrightarrow> PTE2PA (pte_of m pt va) \<noteq> 0 \<and> PTE2PA (pte_of m pt va) \<notin> pt_pages m pt) \<and>
     (\<forall>va va'. umapped m pt va \<longrightarrow> umapped m pt va' \<longrightarrow>
        PTE2PA (pte_of m pt va) = PTE2PA (pte_of m pt va') \<longrightarrow> PGROUNDDOWN va = PGROUNDDOWN va')"

lemma user_sepD:
  assumes "user_sep m pt"
  shows "pt_ok m pt" "umapped m pt va \<Longrightarrow> PTE2PA (pte_of m pt va) \<noteq> 0"
    "umapped m pt va \<Longrightarrow> PTE2PA (pte_of m pt va) \<notin> pt_pages m pt"
    "umapped m pt va \<Longrightarrow> umapped m pt va' \<Longrightarrow> PTE2PA (pte_of m pt va) = PTE2PA (pte_of m pt va') \<Longrightarrow>
     PGROUNDDOWN va = PGROUNDDOWN va'"
  using assms unfolding user_sep_def by blast+

text \<open>All addresses of a page have the same entry.\<close>

lemma pte_of_page:
  assumes "va < SV39" "PGROUNDDOWN va = PGROUNDDOWN va'" "va' < SV39"
  shows "pte_of m pt va = pte_of m pt va'"
proof -
  have "path_of 0 va = path_of 0 va'" "PX 0 va = PX 0 va'"
    using same_page_path [OF assms(1,3)] assms(2) by simp_all
  then show ?thesis unfolding pte_of_def by (simp only:)
qed

lemma PGROUNDDOWN_le: "PGROUNDDOWN va \<le> va"
  unfolding word_le_nat_alt unat_PGROUNDDOWN by simp

lemma PGROUNDDOWN_MAXVA: "PGROUNDDOWN va < MAXVA \<longleftrightarrow> va < MAXVA"
proof
  assume "PGROUNDDOWN va < MAXVA"
  then show "va < MAXVA" unfolding word_less_nat_alt unat_PGROUNDDOWN unat_MAXVA by simp
next
  assume "va < MAXVA"
  then show "PGROUNDDOWN va < MAXVA" using PGROUNDDOWN_le [of va] by (rule order.strict_trans1 [rotated])
qed

lemma PGROUNDDOWN_idem [simp]: "PGROUNDDOWN (PGROUNDDOWN va) = PGROUNDDOWN va"
  by (simp add: PGROUNDDOWN_aligned)

lemma umapped_page:
  assumes "PGROUNDDOWN va = PGROUNDDOWN va'"
  shows "umapped m pt va = umapped m pt va'" and
    "umapped m pt va \<Longrightarrow> pte_of m pt va = pte_of m pt va'"
proof -
  have b: "va < MAXVA \<longleftrightarrow> va' < MAXVA" using assms PGROUNDDOWN_MAXVA by metis
  then show "umapped m pt va = umapped m pt va'"
    using pte_of_page [OF _ assms, of m pt] by (auto simp: umapped_def)
  assume "umapped m pt va"
  then show "pte_of m pt va = pte_of m pt va'"
    using pte_of_page [OF _ assms, of m pt] b by (auto simp: umapped_def)
qed

lemma walkaddr_spec:
  assumes ok: "pt_ok (pmem s) pt"
  shows "walkaddr pt va w s = Ret (if umapped (pmem s) pt va then PTE2PA (pte_of (pmem s) pt va) else 0) s w"
proof (cases "va < MAXVA")
  case False
  then show ?thesis by (auto simp: walkaddr_def umapped_def kapply not_less)
next
  case True
  then have lt: "\<not> MAXVA \<le> va" by (simp add: not_le)
  show ?thesis
  proof (cases "node (pmem s) pt (path_of 0 va)")
    case None
    then show ?thesis using lt by (simp add: walkaddr_def walk_lookup umapped_def kapply pte_of_def)
  next
    case (Some b)
    then have "ent b (unat (PX 0 va)) \<noteq> 0"
      using pt_ok_page [OF ok node_in_pages [OF vpath_path_of Some]] by (simp add: ent_nonzero PX_less)
    with Some lt True show ?thesis
      by (simp add: walkaddr_def walk_lookup umapped_def kapply pte_of_def)
  qed
qed

text \<open>The offset in the page.\<close>

lemma unat_off: "unat (va - PGROUNDDOWN va) = unat va mod 4096"
  using PGROUNDDOWN_le [of va]
  by (simp add: unat_sub unat_PGROUNDDOWN minus_div_mult_eq_mod)

lemma same_page_off:
  assumes "unat dst mod 4096 + unat (va - dst) < 4096"
  shows "PGROUNDDOWN va = PGROUNDDOWN dst"
proof -
  have "unat (PGROUNDDOWN dst) + 4096 \<le> 2 ^ 64" by (rule page_end) simp
  then have "unat dst div 4096 * 4096 + 4096 \<le> 2 ^ 64" by (simp add: unat_PGROUNDDOWN)
  moreover have d: "unat dst = unat dst div 4096 * 4096 + unat dst mod 4096" by simp
  ultimately have "unat dst + unat (va - dst) < 2 ^ 64" using assms by linarith
  then have "unat va = unat dst + unat (va - dst)" using unat_add_lt64 [of dst "va - dst"] by simp
  then have "unat va = unat dst div 4096 * 4096 + (unat dst mod 4096 + unat (va - dst))" using d by linarith
  moreover have "(q * 4096 + r) div 4096 = q" if "r < 4096" for q r :: nat using that by simp
  ultimately have "unat va div 4096 = unat dst div 4096" using assms by metis
  then show ?thesis by (simp add: word_unat_eq_iff unat_PGROUNDDOWN)
qed

lemma page_plus:
  assumes "page_aligned p" "j < 4096"
  shows "PGROUNDDOWN (p + of_nat j) = p"
proof -
  have "unat (p + of_nat j) = unat p + j"
    using assms page_end [of p] by (subst unat_add_lt64) (simp_all add: unat_of_nat64)
  then show ?thesis
    using assms by (auto simp: word_unat_eq_iff unat_PGROUNDDOWN page_aligned_dvd elim!: dvdE)
qed

lemma page_uaddr: "PGROUNDDOWN (PTE2PA e + (va - PGROUNDDOWN va)) = PTE2PA e"
proof -
  have "unat (va - PGROUNDDOWN va) < 4096" by (simp add: unat_off)
  from page_plus [OF page_aligned_PTE2PA this] show ?thesis by simp
qed

section \<open>One round of \<^verbatim>\<open>copyout\<close>\<close>

text \<open>A write to the part of a user page from \<open>dst\<close> on.\<close>

lemma uwrite:
  assumes sep: "user_sep m pt" and dst: "umapped m pt dst" and len: "length bs \<le> 4096 - unat dst mod 4096"
  defines "m' \<equiv> writebytes m (uaddr m pt dst) bs"
  shows "pte_of m' pt va = pte_of m pt va" "pt_pages m' pt = pt_pages m pt" "pt_ok m' pt"
    "umapped m' pt va = umapped m pt va" "user_sep m' pt"
    "umapped m pt va \<Longrightarrow> ubyte m' pt va = (if unat (va - dst) < length bs then bs ! unat (va - dst) else ubyte m pt va)"
    "PGROUNDDOWN x \<noteq> PTE2PA (pte_of m pt dst) \<Longrightarrow> m' x = m x"
proof -
  let ?p = "PTE2PA (pte_of m pt dst)"
  let ?off = "dst - PGROUNDDOWN dst"
  have ok: "pt_ok m pt" and new: "?p \<notin> pt_pages m pt" using user_sepD [OF sep] dst by blast+
  have off: "unat ?off = unat dst mod 4096" by (rule unat_off)
  have inpage: "PGROUNDDOWN (uaddr m pt dst + of_nat k) = ?p" if "k < length bs" for k
  proof -
    have k: "unat ?off + k < 4096" using that len off by auto
    have e: "uaddr m pt dst + of_nat k = ?p + of_nat (unat ?off + k)" by (simp add: uaddr_def)
    show ?thesis unfolding e by (rule page_plus [OF page_aligned_PTE2PA k])
  qed
  show frame: "m' x = m x" if "PGROUNDDOWN x \<noteq> ?p" for x
  proof -
    have "\<not> unat (x - uaddr m pt dst) < length bs" using inpage [of "unat (x - uaddr m pt dst)"] that by auto
    then show ?thesis by (simp add: m'_def writebytes_apply)
  qed
  have pg: "m' x = m x" if "PGROUNDDOWN x \<in> pt_pages m pt" for x
    by (rule frame) (use that new in auto)
  have fr: "pt_pages m' pt = pt_pages m pt" "pt_ok m' pt" "pte_of m' pt va = pte_of m pt va" for va
    by (rule pt_frame [OF ok], erule pg)+
  show "pte_of m' pt va = pte_of m pt va" "pt_pages m' pt = pt_pages m pt" "pt_ok m' pt" using fr by auto
  show um: "umapped m' pt va = umapped m pt va" for va by (simp add: umapped_def fr)
  show "user_sep m' pt" using sep fr(2) unfolding user_sep_def um fr(1,3) by (elim conjE, intro conjI)
  assume va: "umapped m pt va"
  have ub: "ubyte m' pt va = m' (uaddr m pt va)" by (simp add: ubyte_def uaddr_def fr)
  have m': "m' y = (if unat (y - uaddr m pt dst) < length bs then bs ! unat (y - uaddr m pt dst) else m y)" for y
    by (simp add: m'_def writebytes_apply)
  show "ubyte m' pt va = (if unat (va - dst) < length bs then bs ! unat (va - dst) else ubyte m pt va)"
  proof (cases "PGROUNDDOWN va = PGROUNDDOWN dst")
    case True
    then have "uaddr m pt va - uaddr m pt dst = va - dst"
      using umapped_page(2) [OF True va] by (simp add: uaddr_def)
    then show ?thesis unfolding ub m' by (simp add: ubyte_def)
  next
    case False
    have "PTE2PA (pte_of m pt va) \<noteq> ?p" using user_sepD(4) [OF sep va dst] False by blast
    moreover have "PGROUNDDOWN (uaddr m pt va) = PTE2PA (pte_of m pt va)"
      unfolding uaddr_def by (rule page_uaddr)
    ultimately have "ubyte m' pt va = ubyte m pt va" unfolding ub using frame by (simp add: ubyte_def)
    moreover have "\<not> unat (va - dst) < length bs"
    proof
      assume "unat (va - dst) < length bs"
      then have "unat dst mod 4096 + unat (va - dst) < 4096" using len by linarith
      then show False using same_page_off False by blast
    qed
    ultimately show ?thesis by simp
  qed
qed

section \<open>\<^verbatim>\<open>copyout\<close>\<close>

definition wrote :: "kernel \<Rightarrow> kernel \<Rightarrow> addr \<Rightarrow> addr \<Rightarrow> byte list \<Rightarrow> bool" where
  "wrote s t pt dst bs \<longleftrightarrow> (\<exists>m. t = s\<lparr>pmem := m\<rparr>) \<and> user_sep (pmem t) pt \<and>
     pte_of (pmem t) pt = pte_of (pmem s) pt \<and>
     (\<forall>va. umapped (pmem s) pt va \<longrightarrow> ubyte (pmem t) pt va =
        (if unat (va - dst) < length bs then bs ! unat (va - dst) else ubyte (pmem s) pt va)) \<and>
     (\<forall>x. (\<forall>va. umapped (pmem s) pt va \<longrightarrow> PGROUNDDOWN x \<noteq> PTE2PA (pte_of (pmem s) pt va)) \<longrightarrow> pmem t x = pmem s x)"

lemma wrote_Nil: "user_sep (pmem s) pt \<Longrightarrow> wrote s s pt dst []"
  by (simp add: wrote_def exI [of _ "pmem s"])

lemma range_split:
  fixes va dst :: addr
  assumes "n + k < 2 ^ 64"
  shows "unat (va - dst) < n + k \<longleftrightarrow> unat (va - dst) < n \<or> unat (va - (dst + of_nat n)) < k"
    "unat (va - (dst + of_nat n)) < k \<Longrightarrow> unat (va - dst) = n + unat (va - (dst + of_nat n))"
proof -
  let ?d = "va - dst"
  have e: "va - (dst + of_nat n) = ?d - of_nat n" by simp
  have n: "unat (of_nat n :: addr) = n" using assms by (intro unat_of_nat64) simp
  have ge: "unat (?d - of_nat n) = unat ?d - n" if "n \<le> unat ?d"
    using that n by (simp add: unat_sub word_le_nat_alt)
  have lt: "unat (?d - of_nat n) = 2 ^ 64 + unat ?d - n" if "unat ?d < n"
    using that n unat_sub_if' [of ?d "of_nat n"] by simp
  show "unat ?d < n + k \<longleftrightarrow> unat ?d < n \<or> unat (va - (dst + of_nat n)) < k"
    unfolding e using ge by (cases "unat ?d < n") auto
  assume "unat (va - (dst + of_nat n)) < k"
  then show "unat ?d = n + unat (va - (dst + of_nat n))"
    unfolding e using ge lt assms by (cases "unat ?d < n") auto
qed

lemma wrote_trans:
  assumes a: "wrote s t pt dst bs" and b: "wrote t u pt (dst + of_nat (length bs)) cs"
    and len: "length bs + length cs < 2 ^ 64"
  shows "wrote s u pt dst (bs @ cs)"
proof -
  have um: "umapped (pmem t) pt va = umapped (pmem s) pt va" for va using a by (simp add: wrote_def umapped_def)
  note rs = range_split [OF len]
  have "ubyte (pmem u) pt va = (if unat (va - dst) < length (bs @ cs) then (bs @ cs) ! unat (va - dst)
      else ubyte (pmem s) pt va)" if "umapped (pmem s) pt va" for va
  proof (cases "unat (va - (dst + of_nat (length bs))) < length cs")
    case True
    then show ?thesis using b that um rs [of va dst] by (simp add: wrote_def nth_append)
  next
    case False
    then show ?thesis using a b that um rs(1) [of va dst] by (simp add: wrote_def nth_append)
  qed
  moreover have "\<exists>m. u = s\<lparr>pmem := m\<rparr>"
  proof -
    obtain m m' where "t = s\<lparr>pmem := m\<rparr>" "u = t\<lparr>pmem := m'\<rparr>" using a b unfolding wrote_def by blast
    then have "u = s\<lparr>pmem := m'\<rparr>" by simp
    then show ?thesis by (rule exI [where x = m'])
  qed
  moreover have "pmem u x = pmem s x"
    if "\<forall>va. umapped (pmem s) pt va \<longrightarrow> PGROUNDDOWN x \<noteq> PTE2PA (pte_of (pmem s) pt va)" for x
    using a b that um by (simp add: wrote_def)
  ultimately show ?thesis using a b by (simp add: wrote_def)
qed

text \<open>The part of a page that a round handles.\<close>

lemma chunk: "unat (PGSIZE - (va - PGROUNDDOWN va)) = 4096 - unat va mod 4096"
proof -
  have "unat (va - PGROUNDDOWN va) < 4096" by (simp add: unat_off)
  then have "va - PGROUNDDOWN va \<le> PGSIZE" by (simp add: word_le_nat_alt PGSIZE_def)
  then show ?thesis by (simp add: unat_sub unat_off PGSIZE_def)
qed

lemma next_page: "PGROUNDDOWN va + PGSIZE = va + of_nat (4096 - unat va mod 4096)"
proof -
  have "of_nat (4096 - unat va mod 4096) = PGSIZE - (va - PGROUNDDOWN va)"
    using unat_eq_of_nat [OF chunk [of va]] by simp
  then show ?thesis by simp
qed

lemma umapped_chunk:
  assumes "umapped m pt va" "i < 4096 - unat va mod 4096"
  shows "umapped m pt (va + of_nat i)"
proof -
  have "unat va mod 4096 + i < 4096" "unat (of_nat i :: addr) = i"
    using assms(2) by (auto intro: unat_of_nat64)
  then have "PGROUNDDOWN (va + of_nat i) = PGROUNDDOWN va"
    using same_page_off [of va "va + of_nat i"] by simp
  then show ?thesis using umapped_page(1) assms(1) by blast
qed

lemma umapped_chunks:
  assumes "\<forall>i < n. umapped m pt (va + of_nat i)" "\<forall>i < k. umapped m pt (va' + of_nat i)"
    and "k = 0 \<or> va' = va + of_nat n"
  shows "\<forall>i < n + k. umapped m pt (va + of_nat i)"
proof (intro allI impI)
  fix i assume i: "i < n + k"
  show "umapped m pt (va + of_nat i)"
  proof (cases "i < n")
    case False
    define j where "j = i - n"
    have "i = n + j" "j < k" using False i unfolding j_def by linarith+
    then show ?thesis using assms(2,3) by (auto simp: add.assoc)
  qed (use assms(1) in simp)
qed

lemma copyout_loop_spec:
  assumes "user_sep (pmem s) pt" "length src < fuel" "length src < 2 ^ 64"
  shows "\<exists>r t k. copyout_loop fuel pt dst src w s = Ret r t w \<and> wrote s t pt dst (take k src) \<and>
    (\<forall>i < k. umapped (pmem s) pt (dst + of_nat i)) \<and>
    (r = 0 \<and> k = length src \<or> r = -1 \<and> k < length src \<and> \<not> umapped (pmem s) pt (dst + of_nat k))"
  using assms
proof (induction fuel arbitrary: s dst src)
  case 0
  then show ?case by simp
next
  case (Suc fuel)
  let ?va0 = "PGROUNDDOWN dst"
  have ok: "pt_ok (pmem s) pt" using user_sepD(1) [OF Suc.prems(1)] .
  have same: "umapped (pmem s) pt ?va0 = umapped (pmem s) pt dst" by (rule umapped_page) simp
  show ?case
  proof (cases "src = [] \<or> \<not> umapped (pmem s) pt dst")
    case True
    then have "copyout_loop (Suc fuel) pt dst src w s = Ret (if src = [] then 0 else -1) s w"
      using walkaddr_spec [OF ok, of ?va0 w] same by (auto simp: kapply Let_def)
    then show ?thesis using wrote_Nil [OF Suc.prems(1)] True by (auto intro!: exI [of _ 0])
  next
    case False
    let ?n = "min (4096 - unat dst mod 4096) (length src)"
    let ?m = "writebytes (pmem s) (uaddr (pmem s) pt dst) (take ?n src)"
    let ?t = "s\<lparr>pmem := ?m\<rparr>"
    have dst: "umapped (pmem s) pt dst" and ne: "src \<noteq> []" using False by auto
    have len: "length (take ?n src) \<le> 4096 - unat dst mod 4096" by simp
    note uw = uwrite [OF Suc.prems(1) dst len]
    have pa: "PTE2PA (pte_of (pmem s) pt ?va0) \<noteq> 0" "PTE2PA (pte_of (pmem s) pt ?va0) + (dst - ?va0) = uaddr (pmem s) pt dst"
      using user_sepD(2) [OF Suc.prems(1), of ?va0] umapped_page(2) [of ?va0 dst "pmem s" pt] dst same
      by (auto simp: uaddr_def)
    have run: "copyout_loop (Suc fuel) pt dst src w s =
        copyout_loop fuel pt (?va0 + PGSIZE) (drop ?n src) w ?t"
      using walkaddr_spec [OF ok, of ?va0 w] same dst ne pa by (simp add: kapply Let_def chunk)
    have "length (drop ?n src) < length src" unfolding length_drop by (rule diff_less) (use ne in simp_all)
    then have sh: "length (drop ?n src) < fuel" "length (drop ?n src) < 2 ^ 64" using Suc.prems by auto
    have w1: "wrote s ?t pt dst (take ?n src)"
      using uw dst unfolding wrote_def by (auto intro: exI [of _ ?m])
    have sep': "user_sep (pmem ?t) pt" using uw(5) by simp
    from Suc.IH [OF sep' sh, of "?va0 + PGSIZE"] obtain r u k where
      run': "copyout_loop fuel pt (?va0 + PGSIZE) (drop ?n src) w ?t = Ret r u w" and
      w2: "wrote ?t u pt (?va0 + PGSIZE) (take k (drop ?n src))" and
      um: "\<forall>i < k. umapped (pmem ?t) pt (?va0 + PGSIZE + of_nat i)" and
      res: "r = 0 \<and> k = length (drop ?n src) \<or>
        r = -1 \<and> k < length (drop ?n src) \<and> \<not> umapped (pmem ?t) pt (?va0 + PGSIZE + of_nat k)"
      by blast
    have nx: "?va0 + PGSIZE = dst + of_nat (length (take ?n src))" if "drop ?n src \<noteq> []"
      using that by (simp add: next_page min_def split: if_splits)
    then have "wrote ?t u pt (dst + of_nat (length (take ?n src))) (take k (drop ?n src))"
      using w2 by (cases "drop ?n src = []") (simp_all add: wrote_def)
    moreover have "length (take ?n src @ take k (drop ?n src)) \<le> length src"
      unfolding take_add [symmetric] by simp
    then have "length (take ?n src) + length (take k (drop ?n src)) < 2 ^ 64" using Suc.prems(3) by simp
    ultimately have "wrote s u pt dst (take (?n + k) src)"
      unfolding take_add by (rule wrote_trans [OF w1])
    moreover have "\<forall>i < ?n + k. umapped (pmem s) pt (dst + of_nat i)"
    proof (rule umapped_chunks)
      show "\<forall>i < ?n. umapped (pmem s) pt (dst + of_nat i)" using umapped_chunk [OF dst] by simp
      show "\<forall>i < k. umapped (pmem s) pt (?va0 + PGSIZE + of_nat i)" using um uw(4) by simp
      show "k = 0 \<or> ?va0 + PGSIZE = dst + of_nat ?n"
        using res nx by (cases "drop ?n src = []") auto
    qed
    moreover have "r = 0 \<and> ?n + k = length src \<or>
        r = -1 \<and> ?n + k < length src \<and> \<not> umapped (pmem s) pt (dst + of_nat (?n + k))"
      using res
    proof
      assume "r = 0 \<and> k = length (drop ?n src)"
      then show ?thesis by simp
    next
      assume f: "r = -1 \<and> k < length (drop ?n src) \<and> \<not> umapped (pmem ?t) pt (?va0 + PGSIZE + of_nat k)"
      then have "drop ?n src \<noteq> []" by auto
      then have "?va0 + PGSIZE + of_nat k = dst + of_nat (?n + k)" using nx by (simp add: add.assoc)
      then have "\<not> umapped (pmem s) pt (dst + of_nat (?n + k))" using f uw(4) by (simp add: add.assoc)
      moreover have "?n + k < length src" using f unfolding length_drop by linarith
      ultimately show ?thesis using f by blast
    qed
    moreover have "copyout_loop (Suc fuel) pt dst src w s = Ret r u w" unfolding run by (rule run')
    ultimately show ?thesis by blast
  qed
qed

section \<open>\<^verbatim>\<open>copyin\<close>\<close>

definition ubytes :: "memory \<Rightarrow> addr \<Rightarrow> addr \<Rightarrow> nat \<Rightarrow> byte list" where
  "ubytes m pt va n = map (\<lambda>i. ubyte m pt (va + of_nat i)) [0..<n]"

lemma ubytes_0 [simp]: "ubytes m pt va 0 = []"
  by (simp add: ubytes_def)

lemma length_ubytes [simp]: "length (ubytes m pt va n) = n"
  by (simp add: ubytes_def)

lemma ubytes_add: "ubytes m pt va (n + k) = ubytes m pt va n @ ubytes m pt (va + of_nat n) k"
  by (rule nth_equalityI) (auto simp: ubytes_def nth_append algebra_simps)

text \<open>Within a page, user memory is memory.\<close>

lemma readbytes_page:
  assumes "umapped m pt va" "n \<le> 4096 - unat va mod 4096"
  shows "readbytes m (uaddr m pt va) n = ubytes m pt va n"
proof (rule nth_equalityI)
  fix i assume "i < length (readbytes m (uaddr m pt va) n)"
  then have i: "i < n" by simp
  then have u: "unat (of_nat i :: addr) = i" using assms(2) by (intro unat_of_nat64) simp
  have "unat va mod 4096 + i < 4096" using i assms(2) by linarith
  then have pg: "PGROUNDDOWN (va + of_nat i) = PGROUNDDOWN va"
    using same_page_off [of va "va + of_nat i"] u by simp
  have "uaddr m pt (va + of_nat i) = uaddr m pt va + of_nat i"
    using umapped_page(2) [OF pg [symmetric] assms(1)] pg by (simp add: uaddr_def)
  then show "readbytes m (uaddr m pt va) n ! i = ubytes m pt va n ! i"
    using i by (simp add: ubytes_def ubyte_def)
qed simp

lemma copyin_loop_spec:
  assumes sep: "user_sep (pmem s) pt"
  shows "len < fuel \<Longrightarrow>
    \<exists>r k. copyin_loop fuel pt va len dst w s = Ret (r, dst @ ubytes (pmem s) pt va k) s w \<and>
      (\<forall>i < k. umapped (pmem s) pt (va + of_nat i)) \<and>
      (r = 0 \<and> k = len \<or> r = -1 \<and> k < len \<and> \<not> umapped (pmem s) pt (va + of_nat k))"
proof (induction fuel arbitrary: va len dst)
  case 0
  then show ?case by simp
next
  case (Suc fuel)
  let ?va0 = "PGROUNDDOWN va"
  have ok: "pt_ok (pmem s) pt" using user_sepD(1) [OF sep] .
  have same: "umapped (pmem s) pt ?va0 = umapped (pmem s) pt va" by (rule umapped_page) simp
  show ?case
  proof (cases "len = 0 \<or> \<not> umapped (pmem s) pt va")
    case True
    then have "copyin_loop (Suc fuel) pt va len dst w s = Ret (if len = 0 then 0 else -1, dst) s w"
      using walkaddr_spec [OF ok, of ?va0 w] same by (auto simp: kapply Let_def)
    then show ?thesis using True by (auto intro!: exI [of _ 0])
  next
    case False
    let ?n = "min (4096 - unat va mod 4096) len"
    have va: "umapped (pmem s) pt va" and len: "len \<noteq> 0" using False by auto
    have pa: "PTE2PA (pte_of (pmem s) pt ?va0) \<noteq> 0" "PTE2PA (pte_of (pmem s) pt ?va0) + (va - ?va0) = uaddr (pmem s) pt va"
      using user_sepD(2) [OF sep, of ?va0] umapped_page(2) [of ?va0 va "pmem s" pt] va same
      by (auto simp: uaddr_def)
    have rd: "readbytes (pmem s) (uaddr (pmem s) pt va) ?n = ubytes (pmem s) pt va ?n"
      by (rule readbytes_page [OF va]) simp
    have run: "copyin_loop (Suc fuel) pt va len dst w s =
        copyin_loop fuel pt (?va0 + PGSIZE) (len - ?n) (dst @ ubytes (pmem s) pt va ?n) w s"
      using walkaddr_spec [OF ok, of ?va0 w] same va len pa rd by (simp add: kapply Let_def chunk)
    have "len - ?n < len" by (rule diff_less) (use len in simp_all)
    then have "len - ?n < fuel" using Suc.prems by simp
    from Suc.IH [OF this] obtain r k where
      run': "copyin_loop fuel pt (?va0 + PGSIZE) (len - ?n) (dst @ ubytes (pmem s) pt va ?n) w s =
        Ret (r, (dst @ ubytes (pmem s) pt va ?n) @ ubytes (pmem s) pt (?va0 + PGSIZE) k) s w" and
      um: "\<forall>i < k. umapped (pmem s) pt (?va0 + PGSIZE + of_nat i)" and
      res: "r = 0 \<and> k = len - ?n \<or> r = -1 \<and> k < len - ?n \<and> \<not> umapped (pmem s) pt (?va0 + PGSIZE + of_nat k)"
      by blast
    have nx: "?va0 + PGSIZE = va + of_nat ?n" if "len - ?n \<noteq> 0"
      using that by (simp add: next_page min_def split: if_splits)
    have k0: "k = 0" if "len - ?n = 0" using res that by auto
    have "copyin_loop (Suc fuel) pt va len dst w s = Ret (r, dst @ ubytes (pmem s) pt va (?n + k)) s w"
      unfolding run run' ubytes_add using nx k0 by (cases "len - ?n = 0") simp_all
    moreover have "\<forall>i < ?n + k. umapped (pmem s) pt (va + of_nat i)"
    proof (rule umapped_chunks [OF _ um])
      show "\<forall>i < ?n. umapped (pmem s) pt (va + of_nat i)" using umapped_chunk [OF va] by simp
      show "k = 0 \<or> ?va0 + PGSIZE = va + of_nat ?n" using k0 nx by blast
    qed
    moreover have "r = 0 \<and> ?n + k = len \<or> r = -1 \<and> ?n + k < len \<and> \<not> umapped (pmem s) pt (va + of_nat (?n + k))"
      using res
    proof
      assume f: "r = -1 \<and> k < len - ?n \<and> \<not> umapped (pmem s) pt (?va0 + PGSIZE + of_nat k)"
      then have "?va0 + PGSIZE = va + of_nat ?n" by (intro nx) linarith
      then have "?va0 + PGSIZE + of_nat k = va + of_nat (?n + k)" by (simp add: add.assoc)
      then have "\<not> umapped (pmem s) pt (va + of_nat (?n + k))" using f by metis
      moreover have "?n + k < len" using f by linarith
      ultimately show ?thesis using f by blast
    qed simp
    ultimately show ?thesis by blast
  qed
qed

section \<open>Properties\<close>

lemma copyout_spec:
  assumes "user_sep (pmem s) pt" "length src < 2 ^ 64"
  shows "\<exists>r t k. copyout pt dst src w s = Ret r t w \<and> wrote s t pt dst (take k src) \<and>
    (\<forall>i < k. umapped (pmem s) pt (dst + of_nat i)) \<and>
    (r = 0 \<and> k = length src \<or> r = -1 \<and> k < length src \<and> \<not> umapped (pmem s) pt (dst + of_nat k))"
  unfolding copyout_def using assms by (intro copyout_loop_spec) simp_all

text \<open>
  C11. \<^verbatim>\<open>copyout\<close> writes the bytes to user memory from the given address on, up to the first page that
  is not mapped for the user, and changes nothing else: no other byte of user memory, no entry of the
  page table, no memory outside the user's pages. It returns 0 when all bytes were written and -1
  otherwise.
\<close>

theorem copyout_writes:
  assumes "user_sep (pmem s) pt" "length src < 2 ^ 64"
  shows "\<exists>r t k. copyout pt dst src w s = Ret r t w \<and> wrote s t pt dst (take k src) \<and>
    (\<forall>i < k. umapped (pmem s) pt (dst + of_nat i)) \<and>
    (r = 0 \<and> k = length src \<or> r = -1 \<and> k < length src \<and> \<not> umapped (pmem s) pt (dst + of_nat k))"
  by (rule copyout_spec [OF assms])

lemma umem_user_sep:
  assumes mem: "umem s pt fs n" and mb: "mapped_below n (pmem s) pt" and n: "4096 * n \<le> 2 ^ 38"
  shows "user_sep (pmem s) pt"
proof -
  let ?f = "pte_of (pmem s) pt"
  let ?ps = "phys_pages ?f 0 n"
  have own: "owned s pt fs ?ps" and inv: "vm_inv s pt fs" using mem by (auto simp: umem_def)
  have page: "unat va div 4096 < n" "PTE2PA (?f va) = ?ps ! (unat va div 4096)" if "umapped (pmem s) pt va" for va
  proof -
    show k: "unat va div 4096 < n"
      using mb that MAXVA_SV39 [of va] unfolding mapped_below_def umapped_def by (meson not_le)
    have "PGROUNDDOWN va = of_nat (4096 * (unat va div 4096))"
      by (rule unat_eq_of_nat) (simp add: unat_PGROUNDDOWN)
    moreover have "?f va = ?f (PGROUNDDOWN va)" by (rule umapped_page(2) [OF _ that]) simp
    ultimately have "?f va = ?f (of_nat (4096 * (unat va div 4096)))" by (simp only:)
    then show "PTE2PA (?f va) = ?ps ! (unat va div 4096)" using k by (simp add: phys_pages_def)
  qed
  show ?thesis
    unfolding user_sep_def
  proof (intro conjI allI impI)
    show "pt_ok (pmem s) pt" using inv by (simp add: vm_inv_def)
    fix va assume va: "umapped (pmem s) pt va"
    then have "PTE2PA (?f va) \<in> set ?ps" using page [OF va] by simp
    then show "PTE2PA (?f va) \<noteq> 0" "PTE2PA (?f va) \<notin> pt_pages (pmem s) pt"
      using own inv usable_nonzero by (auto simp: owned_def vm_inv_def kmem_state_def kmem_inv_def kmem_ready_def)
    fix va' assume va': "umapped (pmem s) pt va'" and "PTE2PA (?f va) = PTE2PA (?f va')"
    then have "unat va div 4096 = unat va' div 4096"
      using page [OF va] page [OF va'] own by (simp add: owned_def nth_eq_iff_index_eq)
    then show "PGROUNDDOWN va = PGROUNDDOWN va'" by (simp add: word_unat_eq_iff unat_PGROUNDDOWN)
  qed
qed

lemma flags_31:
  assumes "PTE_FLAGS e = 31"
  shows "e AND PTE_V \<noteq> 0" "e AND PTE_U \<noteq> 0"
proof -
  have "bit (PTE_FLAGS e) 0" "bit (PTE_FLAGS e) 4" unfolding assms by simp_all
  then have "bit e 0" "bit e 4" by (simp_all add: PTE_FLAGS_def bit_and_iff)
  moreover have "e AND PTE_V \<noteq> 0 \<longleftrightarrow> bit e 0" "e AND PTE_U \<noteq> 0 \<longleftrightarrow> bit e 4"
    unfolding PTE_V_def PTE_U_def by (simp_all only: bit_iff_and_push_bit_not_eq_0)
  ultimately show "e AND PTE_V \<noteq> 0" "e AND PTE_U \<noteq> 0" by blast+
qed

text \<open>A user program whose memory is the two pages from 0 on.\<close>

lemma two_page_user:
  "\<exists>s :: kernel. user_sep (pmem s) pt8 \<and> (\<forall>va. umapped (pmem s) pt8 va \<longleftrightarrow> unat va < 8192)"
proof -
  obtain s fs where s: "umem s pt8 fs 2" "mapped_below 2 (pmem s) pt8" "new_pages s pt8 0 2"
    using two_page_process by blast
  have "umapped (pmem s) pt8 va \<longleftrightarrow> unat va < 8192" for va
  proof
    assume "umapped (pmem s) pt8 va"
    then have "\<not> 2 \<le> unat va div 4096"
      using s(2) MAXVA_SV39 [of va] unfolding mapped_below_def umapped_def by blast
    then show "unat va < 8192" by simp
  next
    assume lt: "unat va < 8192"
    have va: "va < MAXVA" using lt by (simp add: word_less_nat_alt unat_MAXVA)
    let ?k = "unat va div 4096"
    have k: "?k < 2" using lt by (simp add: div_less_iff_less_mult)
    have pg: "PGROUNDDOWN va = of_nat (4096 * ?k)"
      by (rule unat_eq_of_nat) (simp add: unat_PGROUNDDOWN)
    have "pte_of (pmem s) pt8 va = pte_of (pmem s) pt8 (PGROUNDDOWN va)"
      using va PGROUNDDOWN_MAXVA [of va] by (intro pte_of_page) auto
    then have "pte_of (pmem s) pt8 va = pte_of (pmem s) pt8 (of_nat (4096 * ?k))" unfolding pg .
    moreover have "PTE_FLAGS (pte_of (pmem s) pt8 (of_nat (4096 * ?k))) = 31"
      using s(3) k unfolding new_pages_def Let_def by blast
    ultimately show "umapped (pmem s) pt8 va" using va flags_31 by (simp add: umapped_def)
  qed
  moreover have "user_sep (pmem s) pt8" by (rule umem_user_sep [OF s(1,2)]) simp
  ultimately show ?thesis by blast
qed

theorem copyout_writes_witness:
  "\<exists>(s :: kernel) r t k. copyout pt8 8190 [1, 2, 3, 4] [] s = Ret r t [] \<and> r = -1 \<and> k = 2 \<and>
    wrote s t pt8 8190 (take k [1, 2, 3, 4])"
proof -
  obtain s :: kernel where s: "user_sep (pmem s) pt8" "\<And>va. umapped (pmem s) pt8 va \<longleftrightarrow> unat va < 8192"
    using two_page_user by blast
  obtain r t k where c: "copyout pt8 8190 [1, 2, 3, 4] [] s = Ret r t []" "wrote s t pt8 8190 (take k [1, 2, 3, 4])"
    "\<forall>i < k. umapped (pmem s) pt8 (8190 + of_nat i)"
    "r = 0 \<and> k = 4 \<or> r = -1 \<and> k < 4 \<and> \<not> umapped (pmem s) pt8 (8190 + of_nat k)"
    using copyout_writes [OF s(1), of "[1, 2, 3, 4]" 8190 "[]"] by auto
  have "\<not> umapped (pmem s) pt8 (8190 + of_nat 2)" "umapped (pmem s) pt8 (8190 + of_nat 0)"
    "umapped (pmem s) pt8 (8190 + of_nat 1)" by (simp_all add: s(2))
  moreover from this(1) have "\<not> 2 < k" using c(3) by blast
  moreover have "k < 4 \<Longrightarrow> k = 0 \<or> k = 1 \<or> k = 2 \<or> k = 3" by auto
  ultimately have "k = 2" "r = -1" using c(3,4) by auto
  with c show ?thesis by blast
qed

text \<open>
  C12. Bytes that \<^verbatim>\<open>copyout\<close> writes to memory of the user are the bytes that \<^verbatim>\<open>copyin\<close> then reads.
\<close>

theorem copyout_copyin:
  assumes sep: "user_sep (pmem s) pt" and len: "length src < 2 ^ 64"
    and um: "\<And>i. i < length src \<Longrightarrow> umapped (pmem s) pt (va + of_nat i)"
  shows "runs (copyout pt va src) w s (\<lambda>r t. r = 0 \<and>
    copyin pt va (of_nat (length src)) w t = Ret (0, src) t w)"
proof -
  obtain r t k where c: "copyout pt va src w s = Ret r t w" "wrote s t pt va (take k src)"
    "r = 0 \<and> k = length src \<or> r = -1 \<and> k < length src \<and> \<not> umapped (pmem s) pt (va + of_nat k)"
    using copyout_spec [OF sep len] by blast
  then have r: "r = 0" "wrote s t pt va src" using um by auto
  have umt: "umapped (pmem t) pt a = umapped (pmem s) pt a" for a using r(2) by (simp add: wrote_def umapped_def)
  have "user_sep (pmem t) pt" using r(2) by (simp add: wrote_def)
  from copyin_loop_spec [OF this, of "length src" "length src + 1" va "[]" w]
  obtain q j where d: "copyin_loop (length src + 1) pt va (length src) [] w t = Ret (q, ubytes (pmem t) pt va j) t w"
    "q = 0 \<and> j = length src \<or> q = -1 \<and> j < length src \<and> \<not> umapped (pmem t) pt (va + of_nat j)"
    by auto
  then have q: "q = 0" "j = length src" using um umt by auto
  have "ubytes (pmem t) pt va (length src) = src"
  proof (rule nth_equalityI)
    fix i assume "i < length (ubytes (pmem t) pt va (length src))"
    then have i: "i < length src" by simp
    then have "unat (va + of_nat i - va) = i" using len by (simp add: unat_of_nat64)
    then show "ubytes (pmem t) pt va (length src) ! i = src ! i"
      using r(2) um [OF i] i by (simp add: ubytes_def wrote_def)
  qed simp
  then have "copyin pt va (of_nat (length src)) w t = Ret (0, src) t w"
    using d(1) q len by (simp add: copyin_def unat_of_nat64)
  with c(1) r(1) show ?thesis by (auto simp: runs_def)
qed

theorem copyout_copyin_witness:
  "\<exists>s :: kernel. runs (copyout pt8 4094 [1, 2, 3, 4]) [] s (\<lambda>r t. r = 0 \<and>
    copyin pt8 4094 4 [] t = Ret (0, [1, 2, 3, 4]) t [])"
proof -
  obtain s :: kernel where s: "user_sep (pmem s) pt8" "\<And>va. umapped (pmem s) pt8 va \<longleftrightarrow> unat va < 8192"
    using two_page_user by blast
  have "umapped (pmem s) pt8 (4094 + of_nat i)" if "i < 4" for i
  proof -
    have "unat (4094 + of_nat i :: addr) = 4094 + i"
      using that by (subst unat_add_lt64) (simp_all add: unat_of_nat64)
    then show ?thesis using that by (simp add: s(2))
  qed
  then show ?thesis using copyout_copyin [OF s(1), of "[1, 2, 3, 4]" 4094 "[]"] by auto
qed

end
