(* ===== verification/Sched.thy ===== *)
theory Sched
  imports Proc
begin

text \<open>
  What the functions of \<^verbatim>\<open>kernel/proc.c\<close> do to the process table: \<^verbatim>\<open>wakeup\<close> and \<^verbatim>\<open>sleep\<close>,
  run on a hart that finds the locks it takes free.
\<close>

section \<open>The current process\<close>

lemma cpu_proc_pushed [simp]: "cpu_proc (cpus (pushed h) i) = cpu_proc (cpus h i)"
  by (simp add: pushed_def)

lemma cpu_proc_enter [simp]: "cpu_proc (cpus (enter lk h) i) = cpu_proc (cpus h i)"
  by (simp add: enter_def)

lemma myproc_run [kapply]:
  assumes "calm (hw s)" shows "myproc w s = Ret (cpu_proc (me (hw s))) s w"
proof -
  have "popped (pushed (hw s)) = hw s" using assms by (rule popped_pushed)
  moreover have "1 \<le> noff (cpus (pushed (hw s)) (tp (hw s)))" using assms by (simp add: calm_def)
  ultimately show ?thesis by (simp add: myproc_def kapply)
qed

lemma curproc_run [kapply]:
  "calm (hw s) \<Longrightarrow> cpu_proc (me (hw s)) = Some p \<Longrightarrow> curproc w s = Ret p s w"
  by (simp add: curproc_def kapply)

section \<open>\<^verbatim>\<open>wakeup\<close>\<close>

definition woken :: "chan \<Rightarrow> proc \<Rightarrow> proc" where
  "woken ch p = (if p_state p = SLEEPING \<and> p_chan p = ch then p\<lparr>p_state := RUNNABLE\<rparr> else p)"

definition procs_free :: "hwstate \<Rightarrow> bool" where
  "procs_free h \<longleftrightarrow> calm h \<and> (\<forall>p < NPROC. lock_free (ProcLock p) h)"

lemma procs_free_enter:
  assumes "procs_free h" "\<And>p. ProcLock p \<noteq> lk" shows "procs_free (enter lk h)"
  using assms by (simp add: procs_free_def)

lemma wakeup_one_run:
  assumes "calm (hw s)" "lock_free (ProcLock p) (hw s)"
  shows "wakeup_one ch p w s = Ret () (s\<lparr>procs := (procs s)[p := woken ch (procs s ! p)]\<rparr>) w"
  using assms by (simp add: wakeup_one_def wakeup_body_def wake_test_def kapply acquire_free release_enter woken_def)

lemma kfor_procs:
  assumes body: "\<And>p t. p < NPROC \<Longrightarrow> hw t = hw s \<Longrightarrow>
      body p w t = Ret () (t\<lparr>procs := (procs t)[p := f (procs t ! p)]\<rparr>) w"
    and "length (procs s) = NPROC"
  shows "kfor [0..<NPROC] body w s = Ret () (s\<lparr>procs := map f (procs s)\<rparr>) w"
proof -
  have "kfor [0..<n] body w s = Ret () (s\<lparr>procs := map f (take n (procs s)) @ drop n (procs s)\<rparr>) w"
    if "n \<le> NPROC" for n
    using that
  proof (induction n)
    case 0
    then show ?case by (simp add: kapply)
  next
    case (Suc n)
    let ?ps = "map f (take n (procs s)) @ drop n (procs s)"
    have n: "n < length (procs s)" using Suc.prems assms(2) by simp
    have "?ps[n := f (?ps ! n)] = map f (take (Suc n) (procs s)) @ drop (Suc n) (procs s)"
      using n by (simp add: nth_append list_update_append take_Suc_conv_app_nth Cons_nth_drop_Suc [symmetric])
    then show ?case
      using Suc body [of n "s\<lparr>procs := ?ps\<rparr>"] by (simp add: kfor_append kapply)
  qed
  from this [of NPROC] show ?thesis using assms(2) by simp
qed

lemma wakeup_run:
  assumes "procs_free (hw s)" "length (procs s) = NPROC"
  shows "wakeup ch w s = Ret () (s\<lparr>procs := map (woken ch) (procs s)\<rparr>) w"
  unfolding wakeup_def
  by (rule kfor_procs) (use assms in \<open>auto simp: wakeup_one_run procs_free_def\<close>)

text \<open>
  C13. \<^verbatim>\<open>wakeup\<close> makes exactly the processes that sleep on the channel runnable. It changes nothing else
  of them, nothing of any other process, and leaves every lock and the interrupt state as it found
  them.
\<close>

theorem wakeup_exact:
  assumes "procs_free (hw s)" "length (procs s) = NPROC"
  shows "\<exists>t. wakeup ch w s = Ret () t w \<and> hw t = hw s \<and> length (procs t) = NPROC \<and>
    (\<forall>p < NPROC. procs t ! p =
       (if p_state (procs s ! p) = SLEEPING \<and> p_chan (procs s ! p) = ch
        then (procs s ! p)\<lparr>p_state := RUNNABLE\<rparr> else procs s ! p)) \<and>
    t = s\<lparr>procs := procs t\<rparr>"
  using wakeup_run [OF assms] assms(2) by (auto simp: woken_def)

lemma kernel0_procs: "procs_free (hw kernel0)" "length (procs kernel0) = NPROC"
  using calm_kernel0 free_kernel0 by (simp_all add: procs_free_def kernel0_def bss_def)

theorem wakeup_exact_witness:
  "\<exists>s t. p_state (procs s ! 3) = SLEEPING \<and> p_chan (procs s ! 3) = ChanTicks \<and>
     p_state (procs s ! 4) = SLEEPING \<and> p_chan (procs s ! 4) = ChanLog \<and> wakeup ChanTicks [] s = Ret () t [] \<and>
     p_state (procs t ! 3) = RUNNABLE \<and> p_state (procs t ! 4) = SLEEPING"
proof -
  let ?ps = "(procs kernel0)[3 := (procs kernel0 ! 3)\<lparr>p_state := SLEEPING, p_chan := ChanTicks\<rparr>,
    4 := (procs kernel0 ! 4)\<lparr>p_state := SLEEPING, p_chan := ChanLog\<rparr>]"
  let ?s = "kernel0\<lparr>procs := ?ps\<rparr>"
  have n: "3 < NPROC" "4 < NPROC" "length ?ps = NPROC" using kernel0_procs(2) by (simp_all add: NPROC_def)
  then have p: "?ps ! 3 = (procs kernel0 ! 3)\<lparr>p_state := SLEEPING, p_chan := ChanTicks\<rparr>"
    "?ps ! 4 = (procs kernel0 ! 4)\<lparr>p_state := SLEEPING, p_chan := ChanLog\<rparr>" by simp_all
  have "procs_free (hw ?s)" "length (procs ?s) = NPROC" using kernel0_procs(1) n(3) by simp_all
  from wakeup_exact [OF this, of ChanTicks "[]"] obtain t where t: "wakeup ChanTicks [] ?s = Ret () t []"
    "\<forall>q < NPROC. procs t ! q = (if p_state (?ps ! q) = SLEEPING \<and> p_chan (?ps ! q) = ChanTicks
       then (?ps ! q)\<lparr>p_state := RUNNABLE\<rparr> else ?ps ! q)" by auto
  have "p_state (procs t ! 3) = RUNNABLE" "p_state (procs t ! 4) = SLEEPING"
    using t(2) n(1,2) unfolding p by (simp_all add: p)
  then show ?thesis using t(1) p by (intro exI [of _ ?s] exI [of _ t]) simp
qed

section \<open>\<^verbatim>\<open>sleep\<close>\<close>

text \<open>The state in which a sleeping process gives up the hart.\<close>

definition asleep :: "chan \<Rightarrow> nat \<Rightarrow> hwstate \<Rightarrow> kernel \<Rightarrow> kernel" where
  "asleep ch p h s = s\<lparr>hw := enter (ProcLock p) h,
     procs := (procs s)[p := (procs s ! p)\<lparr>p_chan := ch, p_state := SLEEPING\<rparr>]\<rparr>"

definition sleep_rest :: "nat \<Rightarrow> lockid \<Rightarrow> bool \<Rightarrow> unit kcode" where
  "sleep_rest p lk ie =
     kdo [upd_mycpu (\<lambda>c. c\<lparr>intena := ie\<rparr>),
          upd_proc p (\<lambda>r. r\<lparr>p_chan := NoChan\<rparr>),
          release (ProcLock p), acquire lk] (kret ())"

lemma sleep_run:
  assumes h: "hw s = enter lk h" "calm h" "noff (me h) = 0" "lock_free lk h"
    and p: "lock_free (ProcLock p) h" "lk \<noteq> ProcLock p" "cpu_proc (me h) = Some p" "p < length (procs s)"
  shows "sleep ch lk w s =
    kdo [kwait] (sleep_rest p lk (intena (me (enter (ProcLock p) h)))) w (asleep ch p h s)"
proof -
  have cp: "cpu_proc (me (hw s)) = Some p" "calm (hw s)" using h p by simp_all
  have acq: "acquire (ProcLock p) w s = Ret () (s\<lparr>hw := enter (ProcLock p) (enter lk h)\<rparr>) w"
    using acquire_free [of "ProcLock p" s w] h p by simp
  have rel: "release lk w (s\<lparr>hw := enter (ProcLock p) (enter lk h)\<rparr>) = Ret () (s\<lparr>hw := enter (ProcLock p) h\<rparr>) w"
    using release_held [of lk "s\<lparr>hw := enter (ProcLock p) (enter lk h)\<rparr>" w] h p leave_under [of h lk "ProcLock p"]
      noff_enter [of "ProcLock p" "enter lk h"] noff_enter [of lk h]
    by (simp add: sie_enter calm_def)
  show ?thesis
    using cp acq rel h p
    by (simp add: sleep_def sleep_body_def sched_def swtch_def kapply asleep_def sleep_rest_def sie_enter noff_enter
        split: outcome.splits)
qed

lemma sleep_resume:
  assumes h: "calm h" "lock_free lk h" "lock_free (ProcLock p) h" "lk \<noteq> ProcLock p"
    and t: "hw t = enter (ProcLock p) h" "p < length (procs t)"
  shows "sleep_rest p lk (intena (me (enter (ProcLock p) h))) w t =
    Ret () (t\<lparr>hw := enter lk h, procs := (procs t)[p := (procs t ! p)\<lparr>p_chan := NoChan\<rparr>]\<rparr>) w"
proof -
  have id: "set_mycpu (\<lambda>c. c\<lparr>intena := intena (cpus (enter (ProcLock p) h) (tp h))\<rparr>) (enter (ProcLock p) h) =
      enter (ProcLock p) h"
    by (rule set_mycpu_id) simp
  let ?t = "t\<lparr>procs := (procs t)[p := (procs t ! p)\<lparr>p_chan := NoChan\<rparr>]\<rparr>"
  have rel: "release (ProcLock p) w ?t = Ret () (?t\<lparr>hw := h\<rparr>) w"
    by (rule release_enter) (use h t in simp_all)
  have acq: "acquire lk w (?t\<lparr>hw := h\<rparr>) = Ret () (?t\<lparr>hw := enter lk h\<rparr>) w"
    using acquire_free [of lk "?t\<lparr>hw := h\<rparr>" w] h by simp
  have ie: "upd_mycpu (\<lambda>c. c\<lparr>intena := intena (me (enter (ProcLock p) h))\<rparr>) w t = Ret () t w"
    unfolding upd_mycpu_run t(1) tp_upd id by (simp add: t(1) [symmetric])
  show ?thesis
    unfolding sleep_rest_def
    by (simp add: kbind_apply ie [unfolded tp_upd] upd_proc_apply rel acq kret_apply)
qed

text \<open>
  A process that calls \<^verbatim>\<open>sleep\<close> with one spinlock held gives up the hart asleep; when the hart comes back to
  it with the registers as it left them, \<^verbatim>\<open>sleep\<close> returns with the spinlock held.
\<close>

lemma sleep_returns:
  assumes "hw s = enter lk h" "calm h" "noff (me h) = 0" "lock_free lk h"
    and "lock_free (ProcLock p) h" "lk \<noteq> ProcLock p" "cpu_proc (me h) = Some p"
    and "p < NPROC" "length (procs s) = NPROC"
    and e: "hw (e (asleep ch p h s)) = hw (asleep ch p h s)" "length (procs (e (asleep ch p h s))) = NPROC"
  shows "\<exists>t. sleep ch lk (e # w) s = Ret () t w \<and> hw t = hw s"
proof -
  let ?x = "asleep ch p h s"
  have run: "sleep ch lk (e # w) s = kdo [kwait] (sleep_rest p lk (intena (me (enter (ProcLock p) h)))) (e # w) ?x"
    by (rule sleep_run) (use assms in simp_all)
  have "hw (e ?x) = enter (ProcLock p) h" using e by (simp add: asleep_def)
  from sleep_resume [OF assms(2,4,5,6) this, of w] e(2) assms show ?thesis using run by (simp add: kapply)
qed

end
