(* ===== verification/Ring.thy ===== *)
theory Ring
  imports Prelude
begin

text \<open>
  Rings as queues. The pipe and the UART each keep bytes in an array with a read and a write position;
  the first lets 32-bit counters run on and wrap around, the second keeps indices.
  \<open>bounded_queue\<close> is the contract they share, and the order in which elements leave is proved from it
  once.
\<close>

section \<open>Bounded queues\<close>

datatype 'a qop = Put 'a | Take

primrec qrun :: "('a \<Rightarrow> 'q \<Rightarrow> 'q) \<Rightarrow> ('q \<Rightarrow> 'a) \<Rightarrow> ('q \<Rightarrow> 'q) \<Rightarrow> 'a qop list \<Rightarrow> 'q \<Rightarrow> 'a list \<times> 'q" where
  "qrun put peek pop [] q = ([], q)"
| "qrun put peek pop (x # xs) q = (case x of
       Put a \<Rightarrow> qrun put peek pop xs (put a q)
     | Take \<Rightarrow> let (out, q') = qrun put peek pop xs (pop q) in (peek q # out, q'))"

primrec puts :: "'a qop list \<Rightarrow> 'a list" where
  "puts [] = []"
| "puts (x # xs) = (case x of Put a \<Rightarrow> a # puts xs | Take \<Rightarrow> puts xs)"

text \<open>A sequence that never puts into a full queue and never takes from an empty one.\<close>

primrec legal :: "nat \<Rightarrow> 'a qop list \<Rightarrow> nat \<Rightarrow> bool" where
  "legal cap [] n \<longleftrightarrow> n \<le> cap"
| "legal cap (x # xs) n \<longleftrightarrow> (case x of
       Put a \<Rightarrow> n < cap \<and> legal cap xs (Suc n)
     | Take \<Rightarrow> 0 < n \<and> legal cap xs (n - 1))"

locale bounded_queue =
  fixes ok :: "'q \<Rightarrow> bool" and contents :: "'q \<Rightarrow> 'a list"
    and put :: "'a \<Rightarrow> 'q \<Rightarrow> 'q" and peek :: "'q \<Rightarrow> 'a" and pop :: "'q \<Rightarrow> 'q" and cap :: nat
  assumes put_ok: "ok q \<Longrightarrow> length (contents q) < cap \<Longrightarrow> ok (put x q) \<and> contents (put x q) = contents q @ [x]"
    and pop_ok: "ok q \<Longrightarrow> contents q \<noteq> [] \<Longrightarrow> ok (pop q) \<and> contents q = peek q # contents (pop q)"
begin

lemma qrun_fifo:
  "ok q \<Longrightarrow> legal cap xs (length (contents q)) \<Longrightarrow> qrun put peek pop xs q = (out, q') \<Longrightarrow>
   ok q' \<and> out @ contents q' = contents q @ puts xs"
proof (induction xs arbitrary: q out q')
  case Nil
  then show ?case by simp
next
  case (Cons x xs)
  show ?case
  proof (cases x)
    case (Put a)
    then show ?thesis using Cons put_ok [of q a] by fastforce
  next
    case Take
    then obtain out' where o: "qrun put peek pop xs (pop q) = (out', q')" "out = peek q # out'"
      using Cons.prems(3) by (auto split: prod.splits)
    have "contents q \<noteq> []" using Cons.prems(2) Take by auto
    then have p: "ok (pop q)" "contents q = peek q # contents (pop q)" using pop_ok [OF Cons.prems(1)] by auto
    have "length (contents q) = Suc (length (contents (pop q)))" using arg_cong [OF p(2), of length] by simp
    then have "legal cap xs (length (contents (pop q)))" using Cons.prems(2) Take by simp
    from Cons.IH [OF p(1) this o(1)] have "out' @ contents q' = contents (pop q) @ puts xs" "ok q'" by auto
    then show ?thesis unfolding o(2) p(2) by (simp add: Take)
  qed
qed

end

section \<open>Rings with free-running counters\<close>

definition ring :: "'a list \<Rightarrow> uint \<Rightarrow> uint \<Rightarrow> 'a list" where
  "ring buf r w = map (\<lambda>k. buf ! (unat (r + of_nat k) mod length buf)) [0..<unat (w - r)]"

lemma length_ring [simp]: "length (ring buf r w) = unat (w - r)"
  by (simp add: ring_def)

lemma ring_index:
  assumes "n dvd 2 ^ 32" "k < 2 ^ 32"
  shows "unat (r + of_nat k :: uint) mod n = (unat r + k) mod n"
proof -
  have "unat (r + of_nat k :: uint) = (unat r + k) mod 2 ^ 32"
    using assms(2) by (simp add: unat_word_ariths unat_of_nat32)
  then show ?thesis using assms(1) by (simp add: mod_mod_cancel)
qed

lemma mod_offset_neq:
  fixes a k d n :: nat
  assumes "k < d" "d < n" shows "(a + k) mod n \<noteq> (a + d) mod n"
proof
  assume "(a + k) mod n = (a + d) mod n"
  then have "n dvd (a + d) - (a + k)" using mod_eq_dvd_iff_nat [of "a + k" "a + d" n] assms(1) by simp
  then show False using assms by (auto dest: dvd_imp_le)
qed

lemma ring_put:
  assumes n: "length buf dvd 2 ^ 32" "length buf < 2 ^ 32" and room: "unat (w - r) < length buf"
  shows "ring (buf[unat w mod length buf := x]) r (w + 1) = ring buf r w @ [x]"
proof -
  let ?d = "unat (w - r)" and ?n = "length buf"
  have "w + 1 \<noteq> r"
  proof
    assume "w + 1 = r"
    then have "w - r = - 1" by (simp add: algebra_simps)
    moreover have "unat (- 1 :: uint) = 2 ^ 32 - 1" by (simp add: unsigned_minus_1_eq_mask mask_eq_exp_minus_1)
    ultimately show False using room n(2) by simp
  qed
  then have d: "unat (w + 1 - r) = Suc ?d" using unat_diff_Suc [of "w + 1" r] by simp
  have w: "w = r + of_nat ?d" by simp
  have wi: "unat w mod ?n = (unat r + ?d) mod ?n"
    using ring_index [OF n(1), of ?d r] room n(2) by simp
  have "buf[unat w mod ?n := x] ! (unat (r + of_nat k) mod ?n) = buf ! (unat (r + of_nat k) mod ?n)" if "k < ?d" for k
    using ring_index [OF n(1), of k r] mod_offset_neq [of k ?d ?n "unat r"] that room n(2) wi by simp
  moreover have "buf[unat w mod ?n := x] ! (unat (r + of_nat ?d) mod ?n) = x"
    using mod_less_divisor [of ?n "unat w", OF le_less_trans [OF le0 room]] by simp
  ultimately show ?thesis unfolding ring_def d by simp
qed

lemma ring_pop:
  assumes "r \<noteq> w"
  shows "ring buf r w = buf ! (unat r mod length buf) # ring buf (r + 1) w"
proof -
  have d: "unat (w - r) = Suc (unat (w - (r + 1)))" by (rule unat_diff_Suc) (use assms in simp)
  show ?thesis
    unfolding ring_def d by (simp add: upt_conv_Cons map_Suc_upt [symmetric] add.assoc del: upt_Suc map_Suc_upt)
qed

end
