(* ===== verification/Pipe.thy ===== *)
theory Pipe
  imports File Copy Sched Ring
begin

text \<open>
  Pipes are bounded queues of bytes: the ring of \<^verbatim>\<open>struct pipe\<close> under the
  statements of \<^verbatim>\<open>kernel/pipe.c\<close> that store and fetch a byte.
\<close>

section \<open>The ring of a pipe\<close>

definition pipe_contents :: "pipe \<Rightarrow> byte list" where
  "pipe_contents r = ring (pi_data r) (pi_nread r) (pi_nwrite r)"

definition pipe_ok :: "pipe \<Rightarrow> bool" where
  "pipe_ok r \<longleftrightarrow> length (pi_data r) = 512 \<and> length (pipe_contents r) \<le> 512"

lemma pipe_index: "unat (x mod PIPESIZE) = unat x mod 512"
  by (simp add: PIPESIZE_def unat_mod_distrib)

lemma pipe_put_ok:
  assumes "pipe_ok r" "length (pipe_contents r) < 512"
  shows "pipe_ok (pipe_put b r) \<and> pipe_contents (pipe_put b r) = pipe_contents r @ [b]"
proof -
  have "pipe_contents (pipe_put b r) = pipe_contents r @ [b]"
    using ring_put [of "pi_data r" "pi_nwrite r" "pi_nread r" b] assms
    by (simp add: pipe_ok_def pipe_contents_def pipe_put_def pipe_index)
  then show ?thesis using assms by (simp add: pipe_ok_def pipe_put_def del: length_ring)
qed

lemma pipe_contents_Nil: "pipe_contents r = [] \<longleftrightarrow> pi_nread r = pi_nwrite r"
  by (auto simp: pipe_contents_def ring_def unat_eq_0)

lemma pipe_take_ok:
  assumes "pipe_ok r" "pipe_contents r \<noteq> []"
  shows "pipe_ok (pipe_take r) \<and> pipe_contents r = pipe_peek r # pipe_contents (pipe_take r)"
proof -
  have "pi_nread r \<noteq> pi_nwrite r" using assms(2) by (simp add: pipe_contents_Nil)
  from ring_pop [OF this, of "pi_data r"]
  have c: "pipe_contents r = pipe_peek r # pipe_contents (pipe_take r)"
    using assms(1) by (simp add: pipe_contents_def pipe_peek_def pipe_take_def pipe_index pipe_ok_def)
  then have "length (pipe_contents r) = Suc (length (pipe_contents (pipe_take r)))" by (metis length_Cons)
  then show ?thesis using c assms(1) by (simp add: pipe_ok_def pipe_take_def)
qed

interpretation pq: bounded_queue pipe_ok pipe_contents pipe_put pipe_peek pipe_take 512
  by unfold_locales (use pipe_put_ok pipe_take_ok in auto)

text \<open>
  C15. The ring of a pipe is a first-in first-out queue of at most 512 bytes, whatever the values of
  its 32-bit counters, their wrap-around included: over any sequence of the write and read statements
  that never writes when 512 bytes are in and never reads when none is, the bytes read, followed by
  those still in, are the bytes that were in followed by those written.
\<close>

theorem pipe_fifo:
  assumes "pipe_ok r" "legal 512 xs (length (pipe_contents r))"
    and "qrun pipe_put pipe_peek pipe_take xs r = (out, r')"
  shows "pipe_ok r' \<and> out @ pipe_contents r' = pipe_contents r @ puts xs"
  using assms by (rule pq.qrun_fifo)

definition wrapping_pipe :: pipe where
  "wrapping_pipe = \<lparr>pi_data = replicate 512 0, pi_nread = - 1, pi_nwrite = - 1,
     pi_readopen = True, pi_writeopen = True\<rparr>"

lemma wrapping_pipe_ok: "pipe_ok wrapping_pipe" "pipe_contents wrapping_pipe = []"
  by (simp_all add: pipe_ok_def pipe_contents_def wrapping_pipe_def ring_def)

theorem pipe_fifo_witness:
  "fst (qrun pipe_put pipe_peek pipe_take [Put 7, Put 9, Take, Take] wrapping_pipe) @
   pipe_contents (snd (qrun pipe_put pipe_peek pipe_take [Put 7, Put 9, Take, Take] wrapping_pipe)) = [7, 9]"
proof -
  let ?xs = "[Put 7, Put 9, Take, Take] :: byte qop list"
  obtain out r' where q: "qrun pipe_put pipe_peek pipe_take ?xs wrapping_pipe = (out, r')" by fastforce
  have "legal 512 ?xs (length (pipe_contents wrapping_pipe))" by (simp add: wrapping_pipe_ok)
  from pipe_fifo [OF wrapping_pipe_ok(1) this q] show ?thesis unfolding q by (simp add: wrapping_pipe_ok)
qed

end
