(* ===== verification/Pipeio.thy ===== *)
theory Pipeio
  imports Pipe
begin

text \<open>
  \<^verbatim>\<open>pipewrite\<close> and \<^verbatim>\<open>piperead\<close> of \<^verbatim>\<open>kernel/pipe.c\<close> as operations on the queue of a pipe and on the memory
  of the calling process, when they need not wait.
\<close>

section \<open>Writing\<close>

lemma pipe_full: "pi_nwrite r = pi_nread r + PIPESIZE \<longleftrightarrow> length (pipe_contents r) = 512"
proof -
  have "pi_nwrite r = pi_nread r + PIPESIZE \<longleftrightarrow> pi_nwrite r - pi_nread r = 512"
    by (auto simp: PIPESIZE_def algebra_simps)
  then show ?thesis by (simp add: pipe_contents_def word_unat_eq_iff)
qed

lemma pipewrite_wait_room:
  assumes "pipe_ok (pipes s pi)" "length (pipe_contents (pipes s pi)) < 512"
  shows "pipewrite_wait pi pr w s = Ret True s w"
  unfolding pipewrite_wait_def
  by (rule kwaitloop_Ret) (use assms in \<open>simp add: kapply pipe_full\<close>)

lemma copyin_byte:
  assumes "user_sep (pmem s) pt"
  shows "copyin pt va 1 w s =
    (if umapped (pmem s) pt va then Ret (0, [ubyte (pmem s) pt va]) s w else Ret (-1, []) s w)"
proof -
  obtain r k where c: "copyin_loop 2 pt va 1 [] w s = Ret (r, ubytes (pmem s) pt va k) s w"
    "\<forall>i < k. umapped (pmem s) pt (va + of_nat i)"
    "r = 0 \<and> k = 1 \<or> r = -1 \<and> k < 1 \<and> \<not> umapped (pmem s) pt (va + of_nat k)"
    using copyin_loop_spec [OF assms, of 1 2 va "[]" w] by auto
  then show ?thesis by (auto simp: copyin_def ubytes_def numeral_2_eq_2)
qed

lemma pipewrite_loop_room:
  assumes sep: "user_sep (pmem s) (p_pagetable (procs s ! pr))"
  shows "pipe_ok (pipes s pi) \<Longrightarrow> length (pipe_contents (pipes s pi)) + n \<le> 512 \<Longrightarrow>
    \<exists>k q. pipewrite_loop n pi pr addr i w s = Ret (Some (i + int k)) (s\<lparr>pipes := (pipes s)(pi := q)\<rparr>) w \<and>
      pipe_ok q \<and> pi_readopen q = pi_readopen (pipes s pi) \<and> pi_writeopen q = pi_writeopen (pipes s pi) \<and>
      pipe_contents q = pipe_contents (pipes s pi) @ ubytes (pmem s) (p_pagetable (procs s ! pr)) (addr + of_int i) k \<and>
      (\<forall>j < k. umapped (pmem s) (p_pagetable (procs s ! pr)) (addr + of_int i + of_nat j)) \<and>
      (k = n \<or> k < n \<and> \<not> umapped (pmem s) (p_pagetable (procs s ! pr)) (addr + of_int i + of_nat k))"
  using sep
proof (induction n arbitrary: s i)
  case 0
  then show ?case by (intro exI [of _ "0 :: nat"] exI [of _ "pipes s pi"]) (simp add: kapply)
next
  case (Suc n)
  let ?pt = "p_pagetable (procs s ! pr)" and ?va = "addr + of_int i"
  have wait: "pipewrite_wait pi pr w s = Ret True s w" using Suc.prems by (intro pipewrite_wait_room) auto
  show ?case
  proof (cases "umapped (pmem s) ?pt ?va")
    case False
    then show ?thesis
      using Suc.prems by (intro exI [of _ "0 :: nat"] exI [of _ "pipes s pi"]) (simp add: kapply wait copyin_byte)
  next
    case True
    let ?b = "ubyte (pmem s) ?pt ?va"
    let ?q = "pipe_put ?b (pipes s pi)"
    let ?t = "s\<lparr>pipes := (pipes s)(pi := ?q)\<rparr>"
    have q: "pipe_ok ?q" "pipe_contents ?q = pipe_contents (pipes s pi) @ [?b]"
      using pipe_put_ok [of "pipes s pi" ?b] Suc.prems by auto
    have step: "pipewrite_loop (Suc n) pi pr addr i w s = pipewrite_loop n pi pr addr (i + 1) w ?t"
      using True Suc.prems(3) by (simp add: kapply wait copyin_byte)
    have pre: "pipe_ok (pipes ?t pi)" "length (pipe_contents (pipes ?t pi)) + n \<le> 512"
      "user_sep (pmem ?t) (p_pagetable (procs ?t ! pr))"
      using Suc.prems q by simp_all
    obtain k r where k: "pipewrite_loop n pi pr addr (i + 1) w ?t = Ret (Some (i + 1 + int k)) (?t\<lparr>pipes := (pipes ?t)(pi := r)\<rparr>) w"
      and r: "pipe_ok r" "pi_readopen r = pi_readopen (pipes ?t pi)" "pi_writeopen r = pi_writeopen (pipes ?t pi)"
        "pipe_contents r = pipe_contents (pipes ?t pi) @ ubytes (pmem ?t) (p_pagetable (procs ?t ! pr)) (addr + of_int (i + 1)) k"
      and um: "\<forall>j < k. umapped (pmem ?t) (p_pagetable (procs ?t ! pr)) (addr + of_int (i + 1) + of_nat j)"
      and e: "k = n \<or> k < n \<and> \<not> umapped (pmem ?t) (p_pagetable (procs ?t ! pr)) (addr + of_int (i + 1) + of_nat k)"
      using Suc.IH [OF pre, of "i + 1"] by (elim exE conjE) (rule that)
    have va: "addr + of_int (i + 1) + of_nat k = ?va + of_nat (Suc k)" by (simp add: algebra_simps)
    have "ubytes (pmem s) ?pt ?va (1 + k) = [?b] @ ubytes (pmem s) ?pt (addr + of_int (i + 1)) k"
      unfolding ubytes_add by (simp add: ubytes_def add.assoc)
    then have "pipe_contents r = pipe_contents (pipes s pi) @ ubytes (pmem s) ?pt ?va (Suc k)"
      using r(4) q(2) by simp
    moreover have "Suc k = Suc n \<or> Suc k < Suc n \<and> \<not> umapped (pmem s) ?pt (?va + of_nat (Suc k))"
      using e unfolding va by simp
    moreover have "pipewrite_loop (Suc n) pi pr addr i w s = Ret (Some (i + int (Suc k))) (s\<lparr>pipes := (pipes s)(pi := r)\<rparr>) w"
      unfolding step k by simp
    moreover have "pi_readopen r = pi_readopen (pipes s pi)" "pi_writeopen r = pi_writeopen (pipes s pi)"
      using r(2,3) by (simp_all add: pipe_put_def)
    moreover have "\<forall>j < Suc k. umapped (pmem s) ?pt (?va + of_nat j)"
      unfolding plus_1_eq_Suc [symmetric]
      by (rule umapped_chunks [where va' = "addr + of_int (i + 1)"]) (use um True in \<open>simp_all add: add.assoc\<close>)
    ultimately show ?thesis using r(1) by blast
  qed
qed

text \<open>
  C16. \<^verbatim>\<open>pipewrite\<close> of bytes for which there is room appends them, in order, to the bytes in the pipe, up
  to the first address that the process may not read; it returns how many it has appended, makes the
  processes that wait to read runnable, and changes nothing else: both ends of the pipe stay open or
  closed as they were, and all locks are free again.
\<close>

theorem pipewrite_appends:
  fixes s :: kernel and pr :: nat
  defines "pt \<equiv> p_pagetable (procs s ! pr)"
  assumes free: "procs_free (hw s)" "lock_free (PipeLock pi) (hw s)" "length (procs s) = NPROC"
    and cur: "cpu_proc (me (hw s)) = Some pr" and sep: "user_sep (pmem s) pt"
    and room: "pipe_ok (pipes s pi)" "length (pipe_contents (pipes s pi)) + nat n \<le> 512"
  shows "\<exists>k q. pipewrite pi addr n w s =
      Ret (int k) (s\<lparr>pipes := (pipes s)(pi := q), procs := map (woken (ChanPipeRead pi)) (procs s)\<rparr>) w \<and>
    pipe_ok q \<and> pi_readopen q = pi_readopen (pipes s pi) \<and> pi_writeopen q = pi_writeopen (pipes s pi) \<and>
    pipe_contents q = pipe_contents (pipes s pi) @ ubytes (pmem s) pt addr k \<and>
    (\<forall>j < k. umapped (pmem s) pt (addr + of_nat j)) \<and>
    (k = nat n \<or> k < nat n \<and> \<not> umapped (pmem s) pt (addr + of_nat k))"
proof -
  let ?h = "enter (PipeLock pi) (hw s)"
  let ?a = "s\<lparr>hw := ?h\<rparr>"
  have calm: "calm (hw s)" using free(1) by (simp add: procs_free_def)
  have acq: "acquire (PipeLock pi) w s = Ret () ?a w" by (rule acquire_free) (rule free(2))
  have pre: "user_sep (pmem ?a) (p_pagetable (procs ?a ! pr))" "pipe_ok (pipes ?a pi)"
    "length (pipe_contents (pipes ?a pi)) + nat n \<le> 512" using sep room by (simp_all add: pt_def)
  obtain k q where k: "pipewrite_loop (nat n) pi pr addr 0 w ?a = Ret (Some (0 + int k)) (?a\<lparr>pipes := (pipes ?a)(pi := q)\<rparr>) w"
    and q: "pipe_ok q" "pi_readopen q = pi_readopen (pipes ?a pi)" "pi_writeopen q = pi_writeopen (pipes ?a pi)"
      "pipe_contents q = pipe_contents (pipes ?a pi) @ ubytes (pmem ?a) (p_pagetable (procs ?a ! pr)) (addr + of_int 0) k"
    and um: "\<forall>j < k. umapped (pmem ?a) (p_pagetable (procs ?a ! pr)) (addr + of_int 0 + of_nat j)"
    and e: "k = nat n \<or> k < nat n \<and> \<not> umapped (pmem ?a) (p_pagetable (procs ?a ! pr)) (addr + of_int 0 + of_nat k)"
    using pipewrite_loop_room [OF pre, of addr 0 w] by (elim exE conjE) (rule that)
  let ?b = "?a\<lparr>pipes := (pipes s)(pi := q)\<rparr>"
  have wake: "wakeup (ChanPipeRead pi) w ?b = Ret () (?b\<lparr>procs := map (woken (ChanPipeRead pi)) (procs s)\<rparr>) w"
    using wakeup_run [of ?b "ChanPipeRead pi" w] free procs_free_enter [OF free(1), of "PipeLock pi"] by simp
  let ?c = "?b\<lparr>procs := map (woken (ChanPipeRead pi)) (procs s)\<rparr>"
  have rel: "release (PipeLock pi) w ?c = Ret () (?c\<lparr>hw := hw s\<rparr>) w"
    by (rule release_enter) (use calm free(2) in simp_all)
  have "pipewrite pi addr n w s = Ret (int k) (?c\<lparr>hw := hw s\<rparr>) w"
    using k by (simp add: pipewrite_def kbind_apply curproc_run [OF calm cur] acq wake rel kret_apply)
  moreover have "?c\<lparr>hw := hw s\<rparr> = s\<lparr>pipes := (pipes s)(pi := q), procs := map (woken (ChanPipeRead pi)) (procs s)\<rparr>"
    by simp
  ultimately show ?thesis using q um e unfolding pt_def by (intro exI [of _ k] exI [of _ q]) simp
qed

text \<open>A process with two pages of memory and an empty pipe whose counters are about to wrap around.\<close>

lemma pipe_user:
  "\<exists>s :: kernel. procs_free (hw s) \<and> lock_free (PipeLock 0) (hw s) \<and> length (procs s) = NPROC \<and>
    cpu_proc (me (hw s)) = Some 0 \<and> user_sep (pmem s) (p_pagetable (procs s ! 0)) \<and> pipes s 0 = wrapping_pipe \<and>
    (\<forall>va. umapped (pmem s) (p_pagetable (procs s ! 0)) va \<longleftrightarrow> unat va < 8192)"
proof -
  obtain s :: kernel where s: "user_sep (pmem s) pt8" "\<And>va. umapped (pmem s) pt8 va \<longleftrightarrow> unat va < 8192"
    using two_page_user by blast
  let ?h = "set_mycpu (\<lambda>c. c\<lparr>cpu_proc := Some 0\<rparr>) (hw kernel0)"
  let ?s = "s\<lparr>hw := ?h, pipes := \<lambda>_. wrapping_pipe,
    procs := (procs kernel0)[0 := (procs kernel0 ! 0)\<lparr>p_pagetable := pt8\<rparr>]\<rparr>"
  have "procs_free ?h"
    using calm_kernel0 free_kernel0
    by (simp add: procs_free_def calm_def lock_free_def kernel0_def bss_def hw0_def cpu0_def)
  moreover have "lock_free (PipeLock 0) ?h" using free_kernel0 by (simp add: lock_free_def)
  moreover have "0 < length (procs kernel0)" using kernel0_procs(2) by (simp add: NPROC_def)
  ultimately show ?thesis
    using s kernel0_procs(2) by (intro exI [of _ ?s]) simp
qed

theorem pipewrite_appends_witness:
  "\<exists>(s :: kernel) t. pipewrite 0 8190 4 [] s = Ret 2 t [] \<and>
     pipe_contents (pipes t 0) = ubytes (pmem s) (p_pagetable (procs s ! 0)) 8190 2"
proof -
  obtain s :: kernel where s: "procs_free (hw s)" "lock_free (PipeLock 0) (hw s)" "length (procs s) = NPROC"
    "cpu_proc (me (hw s)) = Some 0" "user_sep (pmem s) (p_pagetable (procs s ! 0))" "pipes s 0 = wrapping_pipe"
    and um: "\<And>va. umapped (pmem s) (p_pagetable (procs s ! 0)) va \<longleftrightarrow> unat va < 8192"
    using pipe_user by blast
  obtain k q where k: "pipewrite 0 8190 4 [] s =
      Ret (int k) (s\<lparr>pipes := (pipes s)(0 := q), procs := map (woken (ChanPipeRead 0)) (procs s)\<rparr>) []"
    "pipe_contents q = pipe_contents (pipes s 0) @ ubytes (pmem s) (p_pagetable (procs s ! 0)) 8190 k"
    "\<forall>j < k. umapped (pmem s) (p_pagetable (procs s ! 0)) (8190 + of_nat j)"
    "k = nat 4 \<or> k < nat 4 \<and> \<not> umapped (pmem s) (p_pagetable (procs s ! 0)) (8190 + of_nat k)"
    using pipewrite_appends [of s 0 0 4 8190 "[]"] s wrapping_pipe_ok by auto
  have "\<not> 2 < k" using k(3) um [of "8190 + of_nat 2"] by auto
  moreover have "k \<noteq> 0" "k \<noteq> 1" using k(4) um [of "8190 + of_nat 0"] um [of "8190 + of_nat 1"] by (intro notI, simp)+
  ultimately have "k = 2" by simp
  then show ?thesis using k(1,2) s(6) wrapping_pipe_ok(2) by (intro exI) auto
qed

section \<open>Reading\<close>

lemma wrote_pipes:
  assumes "wrote s t pt dst bs" shows "wrote (s\<lparr>pipes := x\<rparr>) (t\<lparr>pipes := x\<rparr>) pt dst bs"
proof -
  obtain m where "t = s\<lparr>pmem := m\<rparr>" using assms unfolding wrote_def by blast
  then have "t\<lparr>pipes := x\<rparr> = s\<lparr>pipes := x\<rparr>\<lparr>pmem := m\<rparr>" by simp
  then have "\<exists>m. t\<lparr>pipes := x\<rparr> = s\<lparr>pipes := x\<rparr>\<lparr>pmem := m\<rparr>" by (rule exI [where x = m])
  then show ?thesis using assms by (simp add: wrote_def)
qed

lemma copyout_byte:
  assumes "user_sep (pmem s) pt"
  shows "\<exists>t. copyout pt va [b] w s = Ret (if umapped (pmem s) pt va then 0 else -1) t w \<and>
    wrote s t pt va (if umapped (pmem s) pt va then [b] else [])"
proof -
  obtain r t k where c: "copyout pt va [b] w s = Ret r t w" "wrote s t pt va (take k [b])"
    "\<forall>i < k. umapped (pmem s) pt (va + of_nat i)"
    "r = 0 \<and> k = 1 \<or> r = -1 \<and> k < 1 \<and> \<not> umapped (pmem s) pt (va + of_nat k)"
    using copyout_spec [OF assms, of "[b]" va w] by auto
  then have "r = (if umapped (pmem s) pt va then 0 else -1)" "take k [b] = (if umapped (pmem s) pt va then [b] else [])"
    by auto
  with c(1,2) show ?thesis by auto
qed

text \<open>
  What reading leaves: \<open>k\<close> bytes \<open>cs\<close> of the pipe are in user memory. If the next address may not be
  written, one more byte has left the pipe.
\<close>

definition pipe_read :: "kernel \<Rightarrow> kernel \<Rightarrow> addr \<Rightarrow> addr \<Rightarrow> addr \<Rightarrow> nat \<Rightarrow> nat \<Rightarrow> bool" where
  "pipe_read s t pt pi va n k \<longleftrightarrow> (let cs = pipe_contents (pipes s pi) in
     wrote (s\<lparr>pipes := pipes t\<rparr>) t pt va (take k cs) \<and>
     (\<forall>q. q \<noteq> pi \<longrightarrow> pipes t q = pipes s q) \<and> pipe_ok (pipes t pi) \<and>
     (\<forall>j < k. umapped (pmem s) pt (va + of_nat j)) \<and>
     (k = min n (length cs) \<and> pipe_contents (pipes t pi) = drop k cs \<or>
      k < min n (length cs) \<and> \<not> umapped (pmem s) pt (va + of_nat k) \<and>
      pipe_contents (pipes t pi) = drop (Suc k) cs))"

lemma pipe_read_none:
  assumes "user_sep (pmem s) pt" "pipe_ok (pipes s pi)" "n = 0 \<or> pipe_contents (pipes s pi) = []"
  shows "pipe_read s s pt pi va n 0"
  using assms wrote_Nil [of s pt va] by (auto simp: pipe_read_def Let_def)

lemma pipe_read_fault:
  assumes ok: "pipe_ok (pipes s pi)" "pipe_contents (pipes s pi) \<noteq> []" and "\<not> umapped (pmem s) pt va"
    and w: "wrote (s\<lparr>pipes := (pipes s)(pi := pipe_take (pipes s pi))\<rparr>) t pt va []"
  shows "pipe_read s t pt pi va (Suc n) 0"
proof -
  have p: "pipes t = (pipes s)(pi := pipe_take (pipes s pi))" using w by (auto simp: wrote_def)
  have "pipe_contents (pipe_take (pipes s pi)) = drop (Suc 0) (pipe_contents (pipes s pi))" "pipe_ok (pipe_take (pipes s pi))"
    using pipe_take_ok [OF ok] by (metis drop0 drop_Suc_Cons, blast)
  then show ?thesis using assms by (simp add: pipe_read_def Let_def p)
qed

lemma pipe_read_step:
  assumes ok: "pipe_ok (pipes s pi)" "pipe_contents (pipes s pi) \<noteq> []" and um: "umapped (pmem s) pt va"
    and w: "wrote (s\<lparr>pipes := (pipes s)(pi := pipe_take (pipes s pi))\<rparr>) u pt va [pipe_peek (pipes s pi)]"
    and r: "pipe_read u t pt pi (va + 1) n k"
  shows "pipe_read s t pt pi va (Suc n) (Suc k)"
proof -
  let ?cs = "pipe_contents (pipes s pi)" and ?ds = "pipe_contents (pipe_take (pipes s pi))"
  have p: "pipes u = (pipes s)(pi := pipe_take (pipes s pi))" and ums: "umapped (pmem u) pt = umapped (pmem s) pt"
    using w by (auto simp: wrote_def umapped_def fun_eq_iff)
  have cs: "?cs = pipe_peek (pipes s pi) # ?ds" using pipe_take_ok [OF ok] by blast
  have len: "length ?ds < 512" using cs ok(1) by (simp add: pipe_ok_def)
  have r': "wrote (u\<lparr>pipes := pipes t\<rparr>) t pt (va + 1) (take k ?ds)" "\<forall>q. q \<noteq> pi \<longrightarrow> pipes t q = pipes u q"
    "pipe_ok (pipes t pi)" "\<forall>j < k. umapped (pmem s) pt (va + 1 + of_nat j)"
    "k = min n (length ?ds) \<and> pipe_contents (pipes t pi) = drop k ?ds \<or>
     k < min n (length ?ds) \<and> \<not> umapped (pmem s) pt (va + 1 + of_nat k) \<and> pipe_contents (pipes t pi) = drop (Suc k) ?ds"
    using r unfolding pipe_read_def Let_def ums by (simp_all add: p)
  have "wrote (s\<lparr>pipes := pipes t\<rparr>) (u\<lparr>pipes := pipes t\<rparr>) pt va [pipe_peek (pipes s pi)]"
    using wrote_pipes [OF w, of "pipes t"] by simp
  then have "wrote (s\<lparr>pipes := pipes t\<rparr>) t pt va ([pipe_peek (pipes s pi)] @ take k ?ds)"
    by (rule wrote_trans) (use r'(1) len in simp_all)
  moreover have "\<forall>j < Suc k. umapped (pmem s) pt (va + of_nat j)"
    unfolding plus_1_eq_Suc [symmetric]
    by (rule umapped_chunks [where va' = "va + 1"]) (use r'(4) um in simp_all)
  moreover have "va + 1 + of_nat k = va + of_nat (Suc k)" by simp
  ultimately show ?thesis using r'(2,3,5) unfolding pipe_read_def Let_def cs by (auto simp: p add.assoc)
qed

lemma piperead_loop_run:
  "user_sep (pmem s) (p_pagetable (procs s ! pr)) \<Longrightarrow> pipe_ok (pipes s pi) \<Longrightarrow>
   \<exists>k t. piperead_loop n pi pr addr i w s = Ret (i + int k) t w \<and>
     pipe_read s t (p_pagetable (procs s ! pr)) pi (addr + of_int i) n k"
proof (induction n arbitrary: s i)
  case 0
  then show ?case using pipe_read_none by (intro exI [of _ "0 :: nat"] exI [of _ s]) (simp add: kapply)
next
  case (Suc n)
  let ?pt = "p_pagetable (procs s ! pr)" and ?va = "addr + of_int i" and ?r = "pipes s pi"
  let ?s = "s\<lparr>pipes := (pipes s)(pi := pipe_take ?r)\<rparr>"
  show ?case
  proof (cases "pipe_contents ?r = []")
    case True
    then show ?thesis
      using Suc.prems pipe_read_none [of s ?pt pi "Suc n" ?va]
      by (intro exI [of _ "0 :: nat"] exI [of _ s]) (simp add: kapply pipe_contents_Nil)
  next
    case False
    then have ne: "pi_nread ?r \<noteq> pi_nwrite ?r" by (simp add: pipe_contents_Nil)
    obtain u where u: "copyout ?pt ?va [pipe_peek ?r] w ?s = Ret (if umapped (pmem s) ?pt ?va then 0 else -1) u w"
      "wrote ?s u ?pt ?va (if umapped (pmem s) ?pt ?va then [pipe_peek ?r] else [])"
      using copyout_byte [of ?s ?pt ?va "pipe_peek ?r" w] Suc.prems(1) by auto
    show ?thesis
    proof (cases "umapped (pmem s) ?pt ?va")
      case um: False
      then have "pipe_read s u ?pt pi ?va (Suc n) 0" using pipe_read_fault [OF Suc.prems(2) False um] u(2) by simp
      moreover have "piperead_loop (Suc n) pi pr addr i w s = Ret i u w" using ne um u(1) by (simp add: kapply)
      ultimately show ?thesis by (intro exI [of _ "0 :: nat"] exI [of _ u]) simp
    next
      case um: True
      have pu: "procs u = procs s" "pipes u pi = pipe_take ?r" "user_sep (pmem u) ?pt" using u(2) um by (auto simp: wrote_def)
      have pre: "user_sep (pmem u) (p_pagetable (procs u ! pr))" "pipe_ok (pipes u pi)"
        using pu pipe_take_ok [OF Suc.prems(2) False] by simp_all
      obtain k t where k: "piperead_loop n pi pr addr (i + 1) w u = Ret (i + 1 + int k) t w"
        "pipe_read u t (p_pagetable (procs u ! pr)) pi (addr + of_int (i + 1)) n k"
        using Suc.IH [OF pre, of "i + 1"] by blast
      have "pipe_read s t ?pt pi ?va (Suc n) (Suc k)"
        by (rule pipe_read_step [OF Suc.prems(2) False um]) (use u(2) um k(2) pu(1) in \<open>simp_all add: add.assoc\<close>)
      moreover have "piperead_loop (Suc n) pi pr addr i w s = Ret (i + int (Suc k)) t w"
        using ne um u(1) k(1) by (simp add: kapply)
      ultimately show ?thesis by blast
    qed
  qed
qed

lemma pipe_read_hw:
  assumes "pipe_read (s\<lparr>hw := h\<rparr>) t pt pi va n k"
  shows "pipe_read s (t\<lparr>hw := hw s\<rparr>) pt pi va n k" "procs t = procs s" "hw t = h"
proof -
  have w: "wrote (s\<lparr>hw := h, pipes := pipes t\<rparr>) t pt va (take k (pipe_contents (pipes s pi)))"
    using assms by (simp add: pipe_read_def Let_def)
  then obtain m where m: "t = s\<lparr>hw := h, pipes := pipes t\<rparr>\<lparr>pmem := m\<rparr>" unfolding wrote_def by blast
  show "procs t = procs s" "hw t = h" by (subst m, simp)+
  have "t\<lparr>hw := hw s\<rparr> = s\<lparr>pipes := pipes t\<rparr>\<lparr>pmem := m\<rparr>" by (subst m) simp
  then have "\<exists>m. t\<lparr>hw := hw s\<rparr> = s\<lparr>pipes := pipes t\<rparr>\<lparr>pmem := m\<rparr>" by (rule exI [where x = m])
  then have "wrote (s\<lparr>pipes := pipes t\<rparr>) (t\<lparr>hw := hw s\<rparr>) pt va (take k (pipe_contents (pipes s pi)))"
    using w by (simp add: wrote_def)
  then show "pipe_read s (t\<lparr>hw := hw s\<rparr>) pt pi va n k" using assms by (simp add: pipe_read_def Let_def)
qed

text \<open>
  C17. \<^verbatim>\<open>piperead\<close> of a pipe that holds bytes, or whose write end is closed, takes bytes off its front
  and writes them to the memory of the process in order, as many as were asked for and are there; it
  returns their number, makes the processes that wait to write runnable, and leaves all locks free.
  It stops at the first address that the process may not write; then the byte that was to go there
  is lost, for it has left the pipe already.
\<close>

theorem piperead_takes:
  fixes s :: kernel and pr :: nat and pi :: addr
  defines "pt \<equiv> p_pagetable (procs s ! pr)" and "cs \<equiv> pipe_contents (pipes s pi)"
  assumes free: "procs_free (hw s)" "lock_free (PipeLock pi) (hw s)" "length (procs s) = NPROC"
    and cur: "cpu_proc (me (hw s)) = Some pr" and sep: "user_sep (pmem s) pt"
    and ok: "pipe_ok (pipes s pi)" and ready: "cs \<noteq> [] \<or> \<not> pi_writeopen (pipes s pi)"
  shows "\<exists>k t. piperead pi addr n w s = Ret (int k) (t\<lparr>procs := map (woken (ChanPipeWrite pi)) (procs s)\<rparr>) w \<and>
    wrote (s\<lparr>pipes := pipes t\<rparr>) t pt addr (take k cs) \<and>
    (\<forall>q. q \<noteq> pi \<longrightarrow> pipes t q = pipes s q) \<and> pipe_ok (pipes t pi) \<and>
    (\<forall>j < k. umapped (pmem s) pt (addr + of_nat j)) \<and>
    (k = min (nat n) (length cs) \<and> pipe_contents (pipes t pi) = drop k cs \<or>
     k < min (nat n) (length cs) \<and> \<not> umapped (pmem s) pt (addr + of_nat k) \<and>
     pipe_contents (pipes t pi) = drop (Suc k) cs)"
proof -
  let ?a = "s\<lparr>hw := enter (PipeLock pi) (hw s)\<rparr>"
  have calm: "calm (hw s)" using free(1) by (simp add: procs_free_def)
  have acq: "acquire (PipeLock pi) w s = Ret () ?a w" by (rule acquire_free) (rule free(2))
  have wait: "piperead_wait pi pr w ?a = Ret True ?a w"
    unfolding piperead_wait_def
    by (rule kwaitloop_Ret) (use ready in \<open>auto simp: kapply cs_def pipe_contents_Nil\<close>)
  obtain k u where k: "piperead_loop (nat n) pi pr addr 0 w ?a = Ret (int k) u w"
    and u: "pipe_read ?a u pt pi addr (nat n) k"
    using piperead_loop_run [of ?a pr pi "nat n" addr 0 w] sep ok by (auto simp: pt_def)
  note r = pipe_read_hw [OF u]
  have wake: "wakeup (ChanPipeWrite pi) w u = Ret () (u\<lparr>procs := map (woken (ChanPipeWrite pi)) (procs s)\<rparr>) w"
    using wakeup_run [of u "ChanPipeWrite pi" w] free procs_free_enter [OF free(1), of "PipeLock pi"] r(2,3) by simp
  let ?c = "u\<lparr>procs := map (woken (ChanPipeWrite pi)) (procs s)\<rparr>"
  have rel: "release (PipeLock pi) w ?c = Ret () (?c\<lparr>hw := hw s\<rparr>) w"
    by (rule release_enter) (use calm free(2) r(3) in simp_all)
  have "piperead pi addr n w s = Ret (int k) (?c\<lparr>hw := hw s\<rparr>) w"
    by (simp add: piperead_def kbind_apply curproc_run [OF calm cur] acq wait k wake rel kret_apply)
  moreover have "?c\<lparr>hw := hw s\<rparr> = (u\<lparr>hw := hw s\<rparr>)\<lparr>procs := map (woken (ChanPipeWrite pi)) (procs s)\<rparr>" by simp
  ultimately have "piperead pi addr n w s = Ret (int k) ((u\<lparr>hw := hw s\<rparr>)\<lparr>procs := map (woken (ChanPipeWrite pi)) (procs s)\<rparr>) w"
    by (simp only:)
  then show ?thesis using r(1) unfolding pipe_read_def Let_def cs_def [symmetric] by blast
qed

lemma three_bytes:
  fixes r :: pipe
  defines "r \<equiv> pipe_put 11 (pipe_put 9 (pipe_put 7 wrapping_pipe))"
  shows "pipe_ok r" "pipe_contents r = [7, 9, 11]"
proof -
  have a: "pipe_ok (pipe_put 7 wrapping_pipe)" "pipe_contents (pipe_put 7 wrapping_pipe) = [7]"
    using pipe_put_ok [of wrapping_pipe 7] wrapping_pipe_ok by simp_all
  have b: "pipe_ok (pipe_put 9 (pipe_put 7 wrapping_pipe))" "pipe_contents (pipe_put 9 (pipe_put 7 wrapping_pipe)) = [7, 9]"
    using pipe_put_ok [OF a(1), of 9] a(2) by simp_all
  show "pipe_ok r" "pipe_contents r = [7, 9, 11]" using pipe_put_ok [OF b(1), of 11] b(2) by (simp_all add: r_def)
qed

theorem piperead_takes_witness:
  "\<exists>(s :: kernel) t. pipe_contents (pipes s 0) = [7, 9, 11] \<and> piperead 0 8191 3 [] s = Ret 1 t [] \<and>
     pipe_contents (pipes t 0) = [11]"
proof -
  obtain s0 :: kernel where s0: "procs_free (hw s0)" "lock_free (PipeLock 0) (hw s0)" "length (procs s0) = NPROC"
    "cpu_proc (me (hw s0)) = Some 0" "user_sep (pmem s0) (p_pagetable (procs s0 ! 0))"
    and um0: "\<And>va. umapped (pmem s0) (p_pagetable (procs s0 ! 0)) va \<longleftrightarrow> unat va < 8192"
    using pipe_user by blast
  define s where "s = s0\<lparr>pipes := (pipes s0)(0 := pipe_put 11 (pipe_put 9 (pipe_put 7 wrapping_pipe)))\<rparr>"
  let ?pt = "p_pagetable (procs s ! 0)"
  have s: "procs_free (hw s)" "lock_free (PipeLock 0) (hw s)" "length (procs s) = NPROC"
    "cpu_proc (me (hw s)) = Some 0" "user_sep (pmem s) ?pt" "pipe_ok (pipes s 0)" "pipe_contents (pipes s 0) = [7, 9, 11]"
    and um: "\<And>va. umapped (pmem s) ?pt va \<longleftrightarrow> unat va < 8192"
    using s0 um0 three_bytes by (simp_all add: s_def)
  have ready: "pipe_contents (pipes s 0) \<noteq> [] \<or> \<not> pi_writeopen (pipes s 0)" using s(7) by simp
  obtain k t where k: "piperead 0 8191 3 [] s = Ret (int k) (t\<lparr>procs := map (woken (ChanPipeWrite 0)) (procs s)\<rparr>) []"
    "\<forall>j < k. umapped (pmem s) ?pt (8191 + of_nat j)"
    "k = 3 \<and> pipe_contents (pipes t 0) = [] \<or>
     k < 3 \<and> \<not> umapped (pmem s) ?pt (8191 + of_nat k) \<and> pipe_contents (pipes t 0) = drop (Suc k) [7, 9, 11]"
    using piperead_takes [OF s(1-6) ready, of 8191 3 "[]"] unfolding s(7) by auto
  have "\<not> 1 < k" using k(2) um [of "8191 + of_nat 1"] by auto
  moreover have "k \<noteq> 0" using k(3) um [of "8191 + of_nat 0"] by (intro notI) simp
  ultimately have "k = 1" by simp
  with k s(7) show ?thesis by (intro exI [of _ s] exI) auto
qed

end
