(* ===== verification/Uartq.thy ===== *)
theory Uartq
  imports Uart Sched Ring
begin

text \<open>
  The transmit ring of \<^verbatim>\<open>kernel/uart.c\<close>, whose indices stay below its size, is a bounded queue of 31
  bytes, and \<^verbatim>\<open>uartstart\<close> sends its front.
\<close>

unbundle bit_operations_syntax

section \<open>The ring\<close>

definition uart_count :: "uart \<Rightarrow> nat" where
  "uart_count u = nat ((uart_tx_w u - uart_tx_r u) mod 32)"

definition uart_contents :: "uart \<Rightarrow> byte list" where
  "uart_contents u = map (\<lambda>k. uart_tx_buf u ! nat ((uart_tx_r u + int k) mod 32)) [0..<uart_count u]"

definition uart_ok :: "uart \<Rightarrow> bool" where
  "uart_ok u \<longleftrightarrow> length (uart_tx_buf u) = 32 \<and> 0 \<le> uart_tx_w u \<and> uart_tx_w u < 32 \<and>
     0 \<le> uart_tx_r u \<and> uart_tx_r u < 32"

text \<open>The assignments of \<^verbatim>\<open>uartputc\<close> and \<^verbatim>\<open>uartstart\<close> to the ring.\<close>

definition tx_put :: "byte \<Rightarrow> uart \<Rightarrow> uart" where
  "tx_put c u = (u\<lparr>uart_tx_buf := (uart_tx_buf u)[nat (uart_tx_w u) := c]\<rparr>)
     \<lparr>uart_tx_w := (uart_tx_w u + 1) mod UART_TX_BUF_SIZE\<rparr>"

definition tx_peek :: "uart \<Rightarrow> byte" where
  "tx_peek u = uart_tx_buf u ! nat (uart_tx_r u)"

definition tx_pop :: "uart \<Rightarrow> uart" where
  "tx_pop u = u\<lparr>uart_tx_r := (uart_tx_r u + 1) mod UART_TX_BUF_SIZE\<rparr>"

lemma length_uart_contents [simp]: "length (uart_contents u) = uart_count u"
  by (simp add: uart_contents_def)

lemma uart_count_less: "uart_count u < 32"
  using pos_mod_bound [of 32 "uart_tx_w u - uart_tx_r u"] by (simp add: uart_count_def nat_less_iff)

lemma uart_empty:
  assumes "uart_ok u" shows "uart_contents u = [] \<longleftrightarrow> uart_tx_w u = uart_tx_r u"
proof -
  have "uart_contents u = [] \<longleftrightarrow> uart_count u = 0" by (simp add: uart_contents_def)
  also have "\<dots> \<longleftrightarrow> (uart_tx_w u - uart_tx_r u) mod 32 = 0"
    by (simp add: uart_count_def order_antisym_conv)
  also have "\<dots> \<longleftrightarrow> uart_tx_w u = uart_tx_r u" using assms by (simp add: uart_ok_def) presburger
  finally show ?thesis .
qed

lemma tx_put_ok:
  assumes "uart_ok u" "length (uart_contents u) < 31"
  shows "uart_ok (tx_put c u) \<and> uart_contents (tx_put c u) = uart_contents u @ [c]"
proof -
  let ?n = "uart_count u" and ?r = "uart_tx_r u" and ?w = "uart_tx_w u"
  have n: "(?w - ?r) mod 32 = int ?n" by (simp add: uart_count_def)
  have w: "(?r + int ?n) mod 32 = ?w"
    using assms(1) unfolding n [symmetric] uart_ok_def by (simp add: mod_add_right_eq)
  have cnt: "uart_count (tx_put c u) = Suc ?n"
  proof -
    have "((?w + 1) mod 32 - ?r) mod 32 = ((?w - ?r) mod 32 + 1) mod 32"
      by (simp add: mod_simps algebra_simps)
    also have "\<dots> = int ?n + 1" unfolding n using assms(2) by simp
    finally have "((?w + 1) mod 32 - ?r) mod 32 = int ?n + 1" .
    then show ?thesis by (simp add: uart_count_def tx_put_def UART_TX_BUF_SIZE_def)
  qed
  have other: "nat ((?r + int k) mod 32) \<noteq> nat ?w" if "k < ?n" for k
  proof
    assume "nat ((?r + int k) mod 32) = nat ?w"
    then have "(?r + int k) mod 32 = (?r + int ?n) mod 32" using assms(1) w by (simp add: uart_ok_def)
    then have "32 dvd (?r + int ?n) - (?r + int k)" by (metis mod_eq_dvd_iff)
    then show False using that assms(2) by (auto dest!: zdvd_imp_le)
  qed
  have "\<forall>k \<in> {0..<?n}. (uart_tx_buf u)[nat ?w := c] ! nat ((?r + int k) mod 32) = uart_tx_buf u ! nat ((?r + int k) mod 32)"
    using other by (auto intro!: nth_list_update_neq dest: sym)
  then have "uart_contents (tx_put c u) = uart_contents u @ [c]"
    unfolding uart_contents_def cnt using w assms(1) by (simp add: tx_put_def uart_ok_def)
  then show ?thesis using assms(1) by (simp add: uart_ok_def tx_put_def UART_TX_BUF_SIZE_def)
qed

lemma tx_pop_ok:
  assumes "uart_ok u" "uart_contents u \<noteq> []"
  shows "uart_ok (tx_pop u) \<and> uart_contents u = tx_peek u # uart_contents (tx_pop u)"
proof -
  let ?n = "uart_count u" and ?r = "uart_tx_r u" and ?w = "uart_tx_w u"
  have n: "(?w - ?r) mod 32 = int ?n" by (simp add: uart_count_def)
  have "0 < ?n" using assms(2) by (simp add: uart_contents_def)
  have "(?w - (?r + 1) mod 32) mod 32 = ((?w - ?r) mod 32 - 1) mod 32" by (simp add: mod_simps algebra_simps)
  also have "\<dots> = int ?n - 1" unfolding n using \<open>0 < ?n\<close> uart_count_less [of u] by simp
  finally have "(?w - (?r + 1) mod 32) mod 32 = int ?n - 1" .
  then have cnt: "?n = Suc (uart_count (tx_pop u))"
    using \<open>0 < ?n\<close> by (simp add: uart_count_def tx_pop_def UART_TX_BUF_SIZE_def)
  have "(?r + int (Suc k)) mod 32 = ((?r + 1) mod 32 + int k) mod 32" for k by (simp add: mod_simps algebra_simps)
  then have "uart_contents u = tx_peek u # uart_contents (tx_pop u)"
    unfolding uart_contents_def cnt using assms(1)
    by (simp add: upt_conv_Cons map_Suc_upt [symmetric] tx_pop_def tx_peek_def uart_ok_def UART_TX_BUF_SIZE_def
        del: upt_Suc map_Suc_upt of_nat_Suc)
  then show ?thesis using assms(1) by (simp add: uart_ok_def tx_pop_def UART_TX_BUF_SIZE_def)
qed

interpretation uq: bounded_queue uart_ok uart_contents tx_put tx_peek tx_pop 31
  by unfold_locales (use tx_put_ok tx_pop_ok in auto)

section \<open>Sending\<close>

definition idle :: "byte \<Rightarrow> bool" where
  "idle x \<longleftrightarrow> x AND LSR_TX_IDLE \<noteq> 0"

text \<open>The number of bytes sent when the status register reads \<open>ls\<close> and \<open>n\<close> bytes are in the ring.\<close>

definition sendable :: "nat \<Rightarrow> byte list \<Rightarrow> nat" where
  "sendable n ls = length (takeWhile idle (take n ls))"

lemma sendable_simps [simp]:
  "sendable 0 ls = 0"
  "sendable (Suc n) (x # ls) = (if idle x then Suc (sendable n ls) else 0)"
  by (simp_all add: sendable_def)

text \<open>The state after \<open>k\<close> bytes have gone out.\<close>

definition sent :: "nat \<Rightarrow> kernel \<Rightarrow> kernel \<Rightarrow> bool" where
  "sent k s t \<longleftrightarrow> uart_ok (kuart t) \<and> uart_contents (kuart t) = drop k (uart_contents (kuart s)) \<and>
     uart_out (kuart t) = uart_out (kuart s) @ map (\<lambda>c. (THR, c)) (take k (uart_contents (kuart s))) \<and>
     t = s\<lparr>kuart := kuart t, procs := (if k = 0 then procs s else map (woken ChanUartTx) (procs s))\<rparr>"

lemma woken_woken [simp]: "woken ch (woken ch p) = woken ch p"
  by (simp add: woken_def)

lemma uart_contents_cong [simp]:
  "uart_contents (u\<lparr>uart_lsr := x\<rparr>) = uart_contents u" "uart_contents (u\<lparr>uart_out := y\<rparr>) = uart_contents u"
  "uart_ok (u\<lparr>uart_lsr := x\<rparr>) = uart_ok u" "uart_ok (u\<lparr>uart_out := y\<rparr>) = uart_ok u"
  by (simp_all add: uart_contents_def uart_count_def uart_ok_def)

lemma sent_0:
  "uart_ok (kuart s) \<Longrightarrow> sent 0 s s" "uart_ok (kuart s) \<Longrightarrow> sent 0 s (s\<lparr>kuart := (kuart s)\<lparr>uart_lsr := ls\<rparr>\<rparr>)"
  by (simp_all add: sent_def)

lemma sent_Suc:
  fixes s :: kernel
  defines "u \<equiv> kuart s"
  assumes ok: "uart_ok u" "uart_contents u \<noteq> []"
    and x: "x = s\<lparr>procs := map (woken ChanUartTx) (procs s),
                  kuart := (tx_pop u)\<lparr>uart_lsr := ls, uart_out := uart_out u @ [(THR, tx_peek u)]\<rparr>\<rparr>"
    and t: "sent k x t"
  shows "sent (Suc k) s t"
proof -
  have c: "uart_contents u = tx_peek u # uart_contents (tx_pop u)" using tx_pop_ok [OF ok] by blast
  have "t = x\<lparr>kuart := kuart t, procs := (if k = 0 then procs x else map (woken ChanUartTx) (procs x))\<rparr>"
    using t by (simp add: sent_def)
  then have "t = s\<lparr>kuart := kuart t, procs := map (woken ChanUartTx) (procs s)\<rparr>"
    unfolding x by (auto simp: comp_def split: if_splits)
  then show ?thesis using t unfolding sent_def x u_def [symmetric] c by simp
qed

lemma uart_upd_swap: "u\<lparr>uart_lsr := x, uart_tx_r := y\<rparr> = u\<lparr>uart_tx_r := y, uart_lsr := x\<rparr>"
  for u :: uart
  by (cases u) simp

lemma uartstart_loop_run:
  "procs_free (hw s) \<Longrightarrow> length (procs s) = NPROC \<Longrightarrow> uart_ok (kuart s) \<Longrightarrow>
   length (uart_contents (kuart s)) < fuel \<Longrightarrow> length (uart_contents (kuart s)) \<le> length (uart_lsr (kuart s)) \<Longrightarrow>
   \<exists>t. uartstart_loop fuel w s = Ret () t w \<and>
     sent (sendable (length (uart_contents (kuart s))) (uart_lsr (kuart s))) s t"
proof (induction fuel arbitrary: s)
  case 0
  then show ?case by simp
next
  case (Suc fuel)
  let ?u = "kuart s"
  show ?case
  proof (cases "uart_contents ?u = []")
    case True
    then have "uart_tx_w ?u = uart_tx_r ?u" using uart_empty [OF Suc.prems(3)] by simp
    then show ?thesis using sent_0(1) [OF Suc.prems(3)] True
      by (intro exI [of _ s]) (simp add: kapply del: length_uart_contents)
  next
    case False
    have c: "uart_contents ?u = tx_peek ?u # uart_contents (tx_pop ?u)" "uart_ok (tx_pop ?u)"
      using tx_pop_ok [OF Suc.prems(3) False] by auto
    have ne: "uart_tx_w ?u \<noteq> uart_tx_r ?u" using uart_empty [OF Suc.prems(3)] False by simp
    obtain l ls where l: "uart_lsr ?u = l # ls" using Suc.prems(5) c(1) by (cases "uart_lsr ?u") auto
    show ?thesis
    proof (cases "idle l")
      case False
      then show ?thesis using sent_0(2) [OF Suc.prems(3), of ls] ne
        by (intro exI [of _ "s\<lparr>kuart := ?u\<lparr>uart_lsr := ls\<rparr>\<rparr>"]) (simp add: kapply l c(1) idle_def del: length_uart_contents)
    next
      case True
      define x where "x = s\<lparr>procs := map (woken ChanUartTx) (procs s),
                            kuart := (tx_pop ?u)\<lparr>uart_lsr := ls, uart_out := uart_out ?u @ [(THR, tx_peek ?u)]\<rparr>\<rparr>"
      let ?y = "s\<lparr>kuart := (tx_pop ?u)\<lparr>uart_lsr := ls\<rparr>\<rparr>"
      have wake: "wakeup ChanUartTx w ?y = Ret () (?y\<lparr>procs := map (woken ChanUartTx) (procs s)\<rparr>) w"
        using wakeup_run [of ?y ChanUartTx w] Suc.prems(1,2) by simp
      have step: "uartstart_loop (Suc fuel) w s = uartstart_loop fuel w x"
        using ne True wake by (simp add: kapply l idle_def x_def tx_pop_def tx_peek_def uart_upd_swap)
      have "length (uart_contents (kuart x)) < fuel" "length (uart_contents (kuart x)) \<le> length (uart_lsr (kuart x))"
        using Suc.prems(4,5) c(1) l by (simp_all add: x_def del: length_uart_contents)
      then obtain t where t: "uartstart_loop fuel w x = Ret () t w"
        "sent (sendable (length (uart_contents (kuart x))) (uart_lsr (kuart x))) x t"
        using Suc.IH [of x] Suc.prems(1,2) c(2) by (auto simp: x_def)
      have "sent (Suc (sendable (length (uart_contents (kuart x))) (uart_lsr (kuart x)))) s t"
        by (rule sent_Suc [OF Suc.prems(3) \<open>uart_contents ?u \<noteq> []\<close> x_def t(2)])
      then show ?thesis using t(1) step True c(1) l by (simp add: x_def del: length_uart_contents)
    qed
  qed
qed

text \<open>
  C20. \<^verbatim>\<open>uartstart\<close> returns: with at most 31 bytes in the ring its loop ends. It has then sent bytes from
  the front of the ring, in order, one for each time the device reported to be idle, until the ring
  was empty or the device busy; the others are still in the ring. Processes that wait for room are
  made runnable if a byte was sent, and nothing else has changed.
\<close>

theorem uartstart_sends:
  assumes "procs_free (hw s)" "length (procs s) = NPROC" "uart_ok (kuart s)"
    and "length (uart_contents (kuart s)) \<le> length (uart_lsr (kuart s))"
  shows "\<exists>t. uartstart w s = Ret () t w \<and>
    sent (length (takeWhile idle (take (length (uart_contents (kuart s))) (uart_lsr (kuart s))))) s t"
  using uartstart_loop_run [of s 32 w] assms uart_count_less [of "kuart s"]
  by (simp add: uartstart_def UART_TX_BUF_SIZE_def sendable_def)

theorem uartstart_sends_witness:
  "\<exists>(s :: kernel) t. uart_contents (kuart s) = [65, 66, 67] \<and> uartstart [] s = Ret () t [] \<and>
     uart_out (kuart t) = [(THR, 65), (THR, 66)] \<and> uart_contents (kuart t) = [67]"
proof -
  define u where "u = (kuart kernel0)\<lparr>uart_tx_buf := (replicate 32 0)[31 := 65, 0 := 66, 1 := 67],
     uart_tx_r := 31, uart_tx_w := 2, uart_lsr := [32, 32, 0], uart_out := []\<rparr>"
  define s :: kernel where "s = kernel0\<lparr>kuart := u\<rparr>"
  have u: "uart_ok u" by (simp add: u_def uart_ok_def)
  have c: "uart_contents u = [65, 66, 67]" by (simp add: u_def uart_contents_def uart_count_def upt_rec)
  have ls: "uart_lsr u = [32, 32, 0]" "uart_out u = []" by (simp_all add: u_def)
  have "idle 32" "\<not> idle 0" by (simp_all add: idle_def LSR_TX_IDLE_def)
  then have k: "length (takeWhile idle (take (length (uart_contents (kuart s))) (uart_lsr (kuart s)))) = 2"
    by (simp add: s_def c ls del: length_uart_contents)
  obtain t where "uartstart [] s = Ret () t []" "sent 2 s t"
    using uartstart_sends [of s "[]"] u c ls kernel0_procs unfolding k
    by (auto simp: s_def simp del: length_uart_contents)
  then show ?thesis using c ls by (intro exI [of _ s] exI [of _ t]) (simp add: sent_def s_def)
qed

end
