(* ===== verification/Strcheck.thy ===== *)
theory Strcheck
  imports Strings
begin

text \<open>
  What the callers of \<^verbatim>\<open>kernel/string.c\<close> rely on: \<^verbatim>\<open>memmove\<close> between overlapping ranges, and strings that
  \<^verbatim>\<open>safestrcpy\<close> leaves within their bound.
\<close>

text \<open>
  C21. \<^verbatim>\<open>memmove\<close> copies the bytes that the source range held before the call to the destination,
  whether or not the ranges overlap and in whichever direction, and changes no byte outside the
  destination, as long as neither range runs past the end of the address space.
\<close>

theorem memmove_copies:
  assumes "unat src + unat n < 2 ^ 64" "unat dst + unat n < 2 ^ 64"
  shows "readbytes (memmove m dst src n) dst (unat n) = readbytes m src (unat n) \<and>
    (\<forall>x. unat n \<le> unat (x - dst) \<longrightarrow> memmove m dst src n x = m x)"
proof -
  have "length (readbytes m src (unat n)) \<le> 2 ^ 64" using assms(1) by simp
  then have "readbytes (writebytes m dst (readbytes m src (unat n))) dst (unat n) = readbytes m src (unat n)"
    using readbytes_writebytes [of "readbytes m src (unat n)" m dst] by simp
  then show ?thesis unfolding memmove_eq [OF assms] by (simp add: writebytes_outside)
qed

theorem memmove_copies_witness:
  "readbytes (memmove (\<lambda>a. ucast a) 102 100 5) 102 5 = [100, 101, 102, 103, 104 :: byte]"
proof -
  have "readbytes (memmove (\<lambda>a. ucast a :: byte) 102 100 5) 102 (unat (5 :: uint)) = readbytes (\<lambda>a. ucast a) 100 (unat (5 :: uint))"
    using memmove_copies [of 100 5 102 "\<lambda>a. ucast a"] by simp
  then show ?thesis by (simp add: readbytes_def upt_rec)
qed

lemma cstr_write:
  assumes "length (ds @ 0 # rest) \<le> 2 ^ 64" "0 \<notin> set ds"
  shows "cstr (writebytes m s (ds @ 0 # rest)) s ds"
proof -
  have u: "unat (of_nat i :: addr) = i" if "i \<le> length ds" for i using that assms(1) by (intro unat_of_nat64) simp
  have "readbytes (writebytes m s (ds @ 0 # rest)) s (length ds) = ds"
    by (rule nth_equalityI) (simp_all add: writebytes_apply u nth_append)
  then show ?thesis using assms(2) by (simp add: cstr_def writebytes_apply u)
qed

text \<open>
  C22. \<^verbatim>\<open>safestrcpy\<close> with a positive bound leaves a terminated string, the source or as much of it as
  fits next to the zero, and writes no byte at or beyond the bound.
\<close>

theorem safestrcpy_terminates_string:
  assumes "cstr m t cs" "src_apart t (length cs) s (nat n)" "0 < n" "n < 2 ^ 32"
  shows "cstr (safestrcpy m s t n) s (take (nat n - 1) cs) \<and>
    (\<forall>x. nat n \<le> unat (x - s) \<longrightarrow> safestrcpy m s t n x = m x)"
proof -
  let ?k = "nat n - 1"
  have e: "safestrcpy m s t n = writebytes m s (safe_image ?k cs)" by (rule safestrcpy_eq [OF assms])
  have len: "length (safe_image ?k cs) \<le> nat n" using length_safe_image [of ?k cs] assms(3) by simp
  have nz: "0 \<notin> set (take ?k cs)" using assms(1) by (auto simp: cstr_def dest: in_set_takeD)
  have "safe_image ?k cs = take ?k cs @ 0 # (if length cs < ?k then [0] else [])" by (simp add: safe_image_def)
  moreover have "length (safe_image ?k cs) \<le> 2 ^ 64" using len assms(4) by simp
  ultimately have "cstr (writebytes m s (safe_image ?k cs)) s (take ?k cs)" using cstr_write [OF _ nz] by metis
  then show ?thesis unfolding e using len by (auto intro: writebytes_outside)
qed

theorem safestrcpy_terminates_string_witness:
  "cstr (safestrcpy (\<lambda>a. if unat a < 5 then 7 else 0) 100 0 4) 100 [7, 7, 7]"
proof -
  let ?m = "\<lambda>a :: addr. if unat a < 5 then 7 else 0 :: byte"
  have "cstr ?m 0 [7, 7, 7, 7, 7]" by (simp add: cstr_def readbytes_def upt_rec)
  moreover have "src_apart 0 (length [7, 7, 7, 7, 7 :: byte]) 100 (nat 4)"
    unfolding src_apart_def
  proof (intro allI impI)
    fix i j :: nat assume "i \<le> length [7, 7, 7, 7, 7 :: byte]" "j < nat 4"
    then have "unat (0 + of_nat i :: addr) = i" "unat (100 + of_nat j :: addr) = 100 + j" "i \<le> 5"
      by (simp_all add: unat_word_ariths unat_of_nat64)
    then show "(0 :: addr) + of_nat i \<noteq> 100 + of_nat j" by (intro notI) simp
  qed
  ultimately show ?thesis using safestrcpy_terminates_string [of ?m 0 "[7, 7, 7, 7, 7]" 100 4] by simp
qed

end
