(* ===== verification/Filetab.thy ===== *)
theory Filetab
  imports File Sched
begin

text \<open>
  Reference counts of the file table of \<^verbatim>\<open>kernel/file.c\<close>, on a hart that finds the table's lock free.
\<close>

text \<open>
  C33. \<^verbatim>\<open>filealloc\<close> hands out an entry that nobody refers to, with one reference, and reports a full table
  without changing anything. \<^verbatim>\<open>filedup\<close> counts one reference more and \<^verbatim>\<open>fileclose\<close> one less, as long as another
  remains (closing the last one is not the subject here); neither touches another entry. Both panic on an entry without references.
\<close>

theorem file_references:
  fixes s :: kernel
  assumes hw: "calm (hw s)" "lock_free FtableLock (hw s)" and f: "f < length (ftable s)"
  shows "((\<forall>g < length (ftable s). f_ref (ftable s ! g) \<noteq> 0) \<longrightarrow> filealloc w s = Ret None s w) \<and>
    (f_ref (ftable s ! f) = 0 \<longrightarrow> (\<exists>g. g < length (ftable s) \<and> f_ref (ftable s ! g) = 0 \<and>
      filealloc w s = Ret (Some g) (s\<lparr>ftable := (ftable s)[g := (ftable s ! g)\<lparr>f_ref := 1\<rparr>]\<rparr>) w)) \<and>
    filedup f w s = (if f_ref (ftable s ! f) < 1 then Panic ''filedup''
      else Ret f (s\<lparr>ftable := (ftable s)[f := (ftable s ! f)\<lparr>f_ref := f_ref (ftable s ! f) + 1\<rparr>]\<rparr>) w) \<and>
    (f_ref (ftable s ! f) < 1 \<longrightarrow> fileclose f w s = Panic ''fileclose'') \<and>
    (1 < f_ref (ftable s ! f) \<longrightarrow>
      fileclose f w s = Ret () (s\<lparr>ftable := (ftable s)[f := (ftable s ! f)\<lparr>f_ref := f_ref (ftable s ! f) - 1\<rparr>]\<rparr>) w)"
proof (intro conjI impI)
  let ?h = "enter FtableLock (hw s)"
  have acq: "acquire FtableLock w s = Ret () (s\<lparr>hw := ?h\<rparr>) w" by (rule acquire_free) (rule hw(2))
  have rel: "release FtableLock w u = Ret () (u\<lparr>hw := hw s\<rparr>) w" if "hw u = ?h" for u :: kernel
    by (rule release_enter) (use that hw in simp_all)
  show "filealloc w s = Ret None s w" if "\<forall>g < length (ftable s). f_ref (ftable s ! g) \<noteq> 0"
  proof -
    have "find_idx (\<lambda>f. f_ref f = 0) (ftable s) = None" using that by (auto simp: find_idx_None in_set_conv_nth)
    then show ?thesis by (simp add: filealloc_def kbind_apply acq kget_apply rel kret_apply)
  qed
  show "\<exists>g. g < length (ftable s) \<and> f_ref (ftable s ! g) = 0 \<and>
      filealloc w s = Ret (Some g) (s\<lparr>ftable := (ftable s)[g := (ftable s ! g)\<lparr>f_ref := 1\<rparr>]\<rparr>) w"
    if z: "f_ref (ftable s ! f) = 0"
  proof -
    obtain g where g: "find_idx (\<lambda>f. f_ref f = 0) (ftable s) = Some g"
      using z nth_mem [OF f] by (cases "find_idx (\<lambda>f. f_ref f = 0) (ftable s)") (auto simp: find_idx_None)
    then show ?thesis
      using g [unfolded find_idx_Some] by (intro exI [of _ g]) (simp add: filealloc_def kbind_apply acq kget_apply upd_file_apply rel kret_apply)
  qed
  show "filedup f w s = (if f_ref (ftable s ! f) < 1 then Panic ''filedup''
      else Ret f (s\<lparr>ftable := (ftable s)[f := (ftable s ! f)\<lparr>f_ref := f_ref (ftable s ! f) + 1\<rparr>]\<rparr>) w)"
    by (simp add: filedup_def kbind_apply acq get_file_apply upd_file_apply rel kret_apply kpanic_apply)
  show "fileclose f w s = Panic ''fileclose''" if "f_ref (ftable s ! f) < 1"
    using that by (simp add: fileclose_def kbind_apply acq get_file_apply kpanic_apply)
  show "fileclose f w s = Ret () (s\<lparr>ftable := (ftable s)[f := (ftable s ! f)\<lparr>f_ref := f_ref (ftable s ! f) - 1\<rparr>]\<rparr>) w"
    if "1 < f_ref (ftable s ! f)"
    using that f by (simp add: fileclose_def kbind_apply acq get_file_apply upd_file_apply rel)
qed

theorem file_references_witness:
  "\<exists>(s :: kernel) t. f_ref (ftable s ! 3) = 2 \<and> fileclose 3 [] s = Ret () t [] \<and> f_ref (ftable t ! 3) = 1"
proof -
  define s where "s = kernel0\<lparr>ftable := (ftable kernel0)[3 := (ftable kernel0 ! 3)\<lparr>f_ref := 2\<rparr>]\<rparr>"
  have n: "3 < length (ftable kernel0)" by (simp add: kernel0_def bss_def NFILE_def)
  have s: "hw s = hw kernel0" "f_ref (ftable s ! 3) = 2" "3 < length (ftable s)" using n by (simp_all add: s_def)
  let ?t = "s\<lparr>ftable := (ftable s)[3 := (ftable s ! 3)\<lparr>f_ref := 1\<rparr>]\<rparr>"
  have "fileclose 3 [] s = Ret () ?t []"
    using file_references [of s 3 "[]"] s calm_kernel0 free_kernel0 by simp
  then show ?thesis using s by (intro exI [of _ s] exI [of _ ?t]) simp
qed

end
