(* ===== verification/Wakeup.thy ===== *)
theory Wakeup
  imports Sched
begin

text \<open>
  \<^verbatim>\<open>sleep()\<close> on one hart against \<^verbatim>\<open>wakeup()\<close> on another, statement by statement. Each hart has the list of the
  statements that it still has to run, taken from the lists that make up \<^const>\<open>sleep\<close>, \<^const>\<open>wakeup\<close> and the
  scheduler, and the harts take turns in any order. A statement that takes a lock runs only when the lock
  is free.
\<close>

section \<open>Interleaving\<close>

text \<open>What the scheduler does after a process has switched back to it.\<close>

definition switched_back :: "nat \<Rightarrow> unit kcode list" where
  "switched_back p = [upd_mycpu (\<lambda>c. c\<lparr>cpu_proc := None\<rparr>), release (ProcLock p)]"

lemma scheduler_pick_switches:
  "scheduler_pick p =
     kdo [acquire (ProcLock p)] (
     kbind (get_proc p) (\<lambda>pr.
     if p_state pr = RUNNABLE
     then kdo ([upd_proc p (\<lambda>r. r\<lparr>p_state := RUNNING\<rparr>), upd_mycpu (\<lambda>c. c\<lparr>cpu_proc := Some p\<rparr>), swtch] @ switched_back p)
       (kret True)
     else kdo [release (ProcLock p)] (kret False)))"
  unfolding scheduler_pick_def switched_back_def
  by (rule ext, rule ext) (auto simp: kapply split: outcome.splits)

text \<open>
  One hart runs its next statement. \<^verbatim>\<open>sched()\<close> ends in \<^verbatim>\<open>swtch()\<close>, and the hart goes on in the scheduler,
  which had switched to the process.
\<close>

type_synonym threads = "nat \<Rightarrow> unit kcode list"

inductive istep :: "threads \<times> kernel \<Rightarrow> threads \<times> kernel \<Rightarrow> bool" where
  istep_run: "T i = c # cs \<Longrightarrow> c [] (on_hart i s) = Ret () t [] \<Longrightarrow> istep (T, s) (T(i := cs), t)"
| istep_switch: "T i = sched # cs \<Longrightarrow> sched [] (on_hart i s) = Blocked t \<Longrightarrow> cpu_proc (cpus (hw t) i) = Some p \<Longrightarrow>
    istep (T, s) (T(i := switched_back p), t)"

text \<open>A hart that changes something under \<open>lk\<close> and wakes up those who wait for the change.\<close>

definition wakes :: "chan \<Rightarrow> lockid \<Rightarrow> nat list \<Rightarrow> unit kcode list" where
  "wakes ch lk qs = concat (map (wakeup_body ch) qs) @ [release lk]"

definition waker :: "chan \<Rightarrow> lockid \<Rightarrow> unit kcode list" where
  "waker ch lk = acquire lk # wakes ch lk [0..<NPROC]"

lemma kdo_append: "kdo (xs @ ys) m = kdo xs (kdo ys m)"
  by (induction xs) simp_all

lemma waker_wakeup: "kdo (waker ch lk) (kret ()) = kdo [acquire lk, wakeup ch, release lk] (kret ())"
proof -
  have "kdo (concat (map (wakeup_body ch) qs)) m = kdo [kfor qs (wakeup_one ch)] m" for qs and m :: "unit kcode"
    by (induction qs) (simp_all add: kdo_append wakeup_one_def wakeup_body_def kbind_assoc)
  then show ?thesis by (simp add: waker_def wakes_def kdo_append wakeup_def)
qed

section \<open>Locks of two harts\<close>

text \<open>Hart \<open>i\<close> holds the spinlocks \<open>A\<close>, hart \<open>j\<close> holds \<open>B\<close>, and no other lock is held.\<close>

definition owner_ok :: "nat \<Rightarrow> lockid set \<Rightarrow> nat \<Rightarrow> lockid set \<Rightarrow> lockid \<Rightarrow> spinlock \<Rightarrow> bool" where
  "owner_ok i A j B l r \<longleftrightarrow>
     (if l \<in> A then locked r \<noteq> 0 \<and> lcpu r = Some i
      else if l \<in> B then locked r \<noteq> 0 \<and> lcpu r = Some j
      else locked r = 0 \<and> lcpu r = None)"

definition locks_at :: "nat \<Rightarrow> lockid set \<Rightarrow> nat \<Rightarrow> lockid set \<Rightarrow> hwstate \<Rightarrow> bool" where
  "locks_at i A j B h \<longleftrightarrow> i \<noteq> j \<and> A \<inter> B = {} \<and> finite A \<and> finite B \<and>
     (\<forall>l. owner_ok i A j B l (locks h l)) \<and>
     noff (cpus h i) = int (card A) \<and> noff (cpus h j) = int (card B) \<and>
     (A \<noteq> {} \<longrightarrow> \<not> sie_at i h) \<and> (B \<noteq> {} \<longrightarrow> \<not> sie_at j h)"

lemma locks_at_sym: "locks_at i A j B h \<Longrightarrow> locks_at j B i A h"
proof -
  assume a: "locks_at i A j B h"
  then have "owner_ok j B i A l (locks h l)" for l
    by (auto simp: locks_at_def owner_ok_def dest!: spec [of _ l] split: if_splits)
  then show ?thesis using a by (auto simp: locks_at_def)
qed

lemma locks_at_tp [simp]: "locks_at i A j B (h\<lparr>tp := k\<rparr>) = locks_at i A j B h"
  by (simp add: locks_at_def)

lemma locks_at_owner: "locks_at i A j B h \<Longrightarrow> owner_ok i A j B l (locks h l)"
  by (simp add: locks_at_def)

lemma locks_at_disjoint: "locks_at i A j B h \<Longrightarrow> l \<in> A \<Longrightarrow> l \<notin> B"
  by (auto simp: locks_at_def)

lemma locks_at_acquire:
  assumes a: "locks_at i A j B (hw s)"
  shows "acquire l [] (on_hart i s) = Ret () t [] \<Longrightarrow>
      l \<notin> A \<union> B \<and> locks_at i (insert l A) j B (hw t) \<and> procs t = procs s \<and>
      (\<forall>k. cpu_proc (cpus (hw t) k) = cpu_proc (cpus (hw s) k))"
    "l \<notin> A \<union> B \<Longrightarrow> \<exists>t. acquire l [] (on_hart i s) = Ret () t []"
proof -
  have ij: "i \<noteq> j" "finite A" using a by (simp_all add: locks_at_def)
  show "\<exists>t. acquire l [] (on_hart i s) = Ret () t []" if "l \<notin> A \<union> B"
    using acquire_free [of l "on_hart i s" "[]"] locks_at_owner [OF a, of l] that by (simp add: owner_ok_def lock_free_def)
  assume "acquire l [] (on_hart i s) = Ret () t []"
  then have t: "locked (locks (hw s) l) = 0" "t = s\<lparr>hw := enter l ((hw s)\<lparr>tp := i\<rparr>)\<rparr>"
    by (auto dest!: acquire_RetD simp: on_hart_hw)
  have n: "l \<notin> A \<union> B" using locks_at_owner [OF a, of l] t(1) by (auto simp: owner_ok_def split: if_splits)
  have "owner_ok i (insert l A) j B l' (locks (hw t) l')" for l'
    using locks_at_owner [OF a, of l'] n by (simp add: t(2) enter_def owner_ok_def)
  moreover have "noff (cpus (hw t) i) = int (card (insert l A))" "noff (cpus (hw t) j) = int (card B)"
    using a n ij by (simp_all add: t(2) enter_def noff_pushed_at locks_at_def)
  moreover have "\<not> sie_at i (hw t)" "B \<noteq> {} \<longrightarrow> \<not> sie_at j (hw t)"
    using a by (auto simp: t(2) enter_def sie_at_pushed locks_at_def)
  ultimately have "locks_at i (insert l A) j B (hw t)" using a n by (simp add: locks_at_def)
  then show "l \<notin> A \<union> B \<and> locks_at i (insert l A) j B (hw t) \<and> procs t = procs s \<and>
      (\<forall>k. cpu_proc (cpus (hw t) k) = cpu_proc (cpus (hw s) k))"
    using n by (simp add: t(2))
qed

lemma cpu_proc_leave: "cpu_proc (cpus (leave l h) k) = cpu_proc (cpus h k)"
  by (simp add: leave_def popped_def Let_def)

lemma locks_at_release:
  assumes a: "locks_at i A j B (hw s)" and l: "l \<in> A"
  shows "release l [] (on_hart i s) = Ret () t [] \<Longrightarrow>
      locks_at i (A - {l}) j B (hw t) \<and> procs t = procs s \<and>
      (\<forall>k. cpu_proc (cpus (hw t) k) = cpu_proc (cpus (hw s) k))"
    "\<exists>t. release l [] (on_hart i s) = Ret () t []"
proof -
  have ij: "i \<noteq> j" "finite A" "l \<notin> B" using a l by (auto simp: locks_at_def)
  have c: "card (A - {l}) = card A - 1" "0 < card A" using l ij(2) by (auto simp: card_gt_0_iff)
  have "held l (hw (on_hart i s))" "\<not> sie (hw (on_hart i s))" "1 \<le> noff (me (hw (on_hart i s)))"
    using locks_at_owner [OF a, of l] a l c by (auto simp: owner_ok_def held_def locks_at_def sie_def sie_at_def)
  then show "\<exists>t. release l [] (on_hart i s) = Ret () t []" using release_held by blast
  assume "release l [] (on_hart i s) = Ret () t []"
  then have t: "t = s\<lparr>hw := leave l ((hw s)\<lparr>tp := i\<rparr>)\<rparr>" by (auto dest!: release_RetD simp: on_hart_hw)
  have "owner_ok i (A - {l}) j B l' (locks (hw t) l')" for l'
    using locks_at_owner [OF a, of l'] ij(3) by (simp add: t leave_def owner_ok_def)
  moreover have "noff (cpus (hw t) i) = int (card (A - {l}))" "noff (cpus (hw t) j) = int (card B)"
    using a ij c by (simp_all add: t leave_def noff_popped_at locks_at_def of_nat_diff)
  moreover have "A - {l} \<noteq> {} \<longrightarrow> \<not> sie_at i (hw t)"
  proof
    assume "A - {l} \<noteq> {}"
    then have "card (A - {l}) \<noteq> 0" using ij(2) by simp
    then have "noff (cpus (hw s) i) \<noteq> 1" using a c by (simp add: locks_at_def)
    then show "\<not> sie_at i (hw t)" using a l by (auto simp: t leave_def locks_at_def dest!: sie_at_popped)
  qed
  moreover have "B \<noteq> {} \<longrightarrow> \<not> sie_at j (hw t)"
    using a ij by (auto simp: t leave_def locks_at_def dest!: sie_at_popped)
  ultimately have "locks_at i (A - {l}) j B (hw t)" using a by (auto simp: locks_at_def)
  then show "locks_at i (A - {l}) j B (hw t) \<and> procs t = procs s \<and>
      (\<forall>k. cpu_proc (cpus (hw t) k) = cpu_proc (cpus (hw s) k))"
    by (simp add: t cpu_proc_leave)
qed

lemma locks_at_set_mycpu:
  assumes "locks_at i A j B h" "\<And>c. noff (f c) = noff c"
  shows "locks_at i A j B (set_mycpu f h)"
  using assms by (auto simp: locks_at_def)

lemma sched_blocks:
  assumes "locks_at i {ProcLock p} j B (hw s)" "cpu_proc (cpus (hw s) i) = Some p" "p_state (procs s ! p) \<noteq> RUNNING"
  shows "sched [] (on_hart i s) = Blocked (on_hart i s)"
proof -
  let ?h = "(hw s)\<lparr>tp := i\<rparr>"
  have c: "calm ?h" "held (ProcLock p) ?h" "\<not> sie ?h" "noff (cpus ?h i) = 1"
    using assms(1) locks_at_owner [OF assms(1), of "ProcLock p"]
    by (auto simp: locks_at_def calm_def held_def owner_ok_def sie_def sie_at_def)
  have "curproc [] (on_hart i s) = Ret p (on_hart i s) []" by (rule curproc_run) (use c assms(2) in simp_all)
  moreover have "procs (on_hart i s) = procs s" by (simp add: on_hart_def)
  ultimately show ?thesis using c assms(3) by (simp add: sched_def kbind_apply holding_run mycpu_run get_proc_apply intr_get_run swtch_def kwait_def)
qed

section \<open>The invariant\<close>

text \<open>The sleeper after \<open>a\<close> statements: five of \<^verbatim>\<open>sleep()\<close>, then those of the scheduler.\<close>

definition sleeper_at :: "chan \<Rightarrow> lockid \<Rightarrow> nat \<Rightarrow> nat \<Rightarrow> unit kcode list" where
  "sleeper_at ch lk p a = (if a < 5 then drop a (sleep_body ch lk p) else drop (a - 5) (switched_back p))"

definition sleeper_locks :: "lockid \<Rightarrow> nat \<Rightarrow> nat \<Rightarrow> lockid set" where
  "sleeper_locks lk p a = (if a = 0 then {lk} else if a = 1 then {lk, ProcLock p} else if a < 7 then {ProcLock p} else {})"

text \<open>The waker, the locks it holds, and whether it has dealt with \<open>p\<close>.\<close>

inductive waker_at :: "chan \<Rightarrow> lockid \<Rightarrow> nat \<Rightarrow> unit kcode list \<Rightarrow> lockid set \<Rightarrow> bool \<Rightarrow> bool" for ch lk p where
  waker_start: "waker_at ch lk p (waker ch lk) {} False"
| waker_next: "distinct qs \<Longrightarrow> set qs \<subseteq> {0..<NPROC} \<Longrightarrow> waker_at ch lk p (wakes ch lk qs) {lk} (p \<notin> set qs)"
| waker_test: "distinct (q # qs) \<Longrightarrow> set (q # qs) \<subseteq> {0..<NPROC} \<Longrightarrow>
    waker_at ch lk p (wake_test ch q # release (ProcLock q) # wakes ch lk qs) {lk, ProcLock q} (p \<notin> set (q # qs))"
| waker_drop: "distinct (q # qs) \<Longrightarrow> set (q # qs) \<subseteq> {0..<NPROC} \<Longrightarrow>
    waker_at ch lk p (release (ProcLock q) # wakes ch lk qs) {lk, ProcLock q} (p \<notin> set qs)"
| waker_end: "waker_at ch lk p [] {} True"

definition sleeper_ok :: "chan \<Rightarrow> nat \<Rightarrow> nat \<Rightarrow> bool \<Rightarrow> proc \<Rightarrow> bool" where
  "sleeper_ok ch p a woke r \<longleftrightarrow> (3 \<le> a \<longrightarrow> p_chan r = ch) \<and> (4 \<le> a \<and> \<not> woke \<longrightarrow> p_state r = SLEEPING) \<and>
     (woke \<longrightarrow> a = 7 \<and> p_state r = RUNNABLE)"

definition duo :: "nat \<Rightarrow> nat \<Rightarrow> chan \<Rightarrow> lockid \<Rightarrow> nat \<Rightarrow> nat \<Rightarrow> lockid set \<Rightarrow> bool \<Rightarrow> threads \<times> kernel \<Rightarrow> bool" where
  "duo i j ch lk p a B woke c \<longleftrightarrow> (\<forall>q. lk \<noteq> ProcLock q) \<and> p < NPROC \<and> length (procs (snd c)) = NPROC \<and>
     (\<forall>k. k \<noteq> i \<and> k \<noteq> j \<longrightarrow> fst c k = []) \<and>
     a \<le> 7 \<and> fst c i = sleeper_at ch lk p a \<and> waker_at ch lk p (fst c j) B woke \<and>
     locks_at i (sleeper_locks lk p a) j B (hw (snd c)) \<and>
     (a \<le> 5 \<longrightarrow> cpu_proc (cpus (hw (snd c)) i) = Some p) \<and> sleeper_ok ch p a woke (procs (snd c) ! p)"

definition duo_inv :: "nat \<Rightarrow> nat \<Rightarrow> chan \<Rightarrow> lockid \<Rightarrow> nat \<Rightarrow> threads \<times> kernel \<Rightarrow> bool" where
  "duo_inv i j ch lk p c \<longleftrightarrow> (\<exists>a B woke. duo i j ch lk p a B woke c)"

lemma sleeper_code:
  assumes "lk \<noteq> ProcLock p"
  shows "sleeper_at ch lk p 0 = acquire (ProcLock p) # sleeper_at ch lk p 1"
    "sleeper_at ch lk p 1 = release lk # sleeper_at ch lk p 2"
    "sleeper_at ch lk p 2 = upd_proc p (\<lambda>r. r\<lparr>p_chan := ch\<rparr>) # sleeper_at ch lk p 3"
    "sleeper_at ch lk p 3 = upd_proc p (\<lambda>r. r\<lparr>p_state := SLEEPING\<rparr>) # sleeper_at ch lk p 4"
    "\<exists>cs. sleeper_at ch lk p 4 = sched # cs \<and> length cs = 3" "switched_back p = sleeper_at ch lk p 5"
    "sleeper_at ch lk p 5 = upd_mycpu (\<lambda>c. c\<lparr>cpu_proc := None\<rparr>) # sleeper_at ch lk p 6"
    "sleeper_at ch lk p 6 = release (ProcLock p) # sleeper_at ch lk p 7" "sleeper_at ch lk p 7 = []"
  using assms by (simp_all add: sleeper_at_def sleep_body_def switched_back_def)

lemma wakes_Nil: "wakes ch lk [] = [release lk]"
  by (simp add: wakes_def)

lemma wakes_Cons: "wakes ch lk (q # qs) = acquire (ProcLock q) # wake_test ch q # release (ProcLock q) # wakes ch lk qs"
  by (simp add: wakes_def wakeup_body_def)

lemma phases:
  assumes "a \<le> (7 :: nat)"
  obtains "a = 0" | "a = 1" | "a = 2" | "a = 3" | "a = 4" | "a = 5" | "a = 6" | "a = 7"
  using assms by linarith

lemma duoD:
  assumes "duo i j ch lk p a B woke (T, s)"
  shows "lk \<noteq> ProcLock q" "p < NPROC" "length (procs s) = NPROC" "k \<noteq> i \<Longrightarrow> k \<noteq> j \<Longrightarrow> T k = []" "a \<le> 7"
    "T i = sleeper_at ch lk p a" "waker_at ch lk p (T j) B woke" "locks_at i (sleeper_locks lk p a) j B (hw s)"
    "a \<le> 5 \<Longrightarrow> cpu_proc (cpus (hw s) i) = Some p" "sleeper_ok ch p a woke (procs s ! p)" "i \<noteq> j"
  using assms by (auto simp: duo_def locks_at_def)

section \<open>Steps\<close>

lemma procs_on_hart [simp]: "procs (on_hart i s) = procs s"
  by (simp add: on_hart_def)

text \<open>The sleeper always has a next statement that it can run, except at \<^verbatim>\<open>sched()\<close>.\<close>

lemma sleeper_ready:
  assumes d: "duo i j ch lk p a B woke (T, s)" and c: "T i = c # cs" and n: "a \<noteq> 4"
  shows "\<exists>t. c [] (on_hart i s) = Ret () t []"
proof -
  note code = sleeper_code [OF duoD(1) [OF d, of p], of ch] and T = duoD(6) [OF d] and la = duoD(8) [OF d]
  show ?thesis using duoD(5) [OF d]
  proof (cases rule: phases)
    case 1
    have "ProcLock p \<notin> B"
    proof
      assume pl: "ProcLock p \<in> B"
      have "lk \<in> B" using duoD(7) [OF d] pl duoD(1) [OF d] by (cases rule: waker_at.cases) auto
      then show False using locks_at_disjoint [OF la, of lk] 1 by (simp add: sleeper_locks_def)
    qed
    then show ?thesis using locks_at_acquire(2) [OF la, of "ProcLock p"] 1 c T code(1) duoD(1) [OF d, of p]
      by (auto simp: sleeper_locks_def)
  next
    case 2
    then show ?thesis using locks_at_release(2) [OF la, of lk] c T code(2) by (simp add: sleeper_locks_def)
  next
    case 3
    then show ?thesis using c T code(3) by (auto simp: upd_proc_apply)
  next
    case 4
    then show ?thesis using c T code(4) by (auto simp: upd_proc_apply)
  next
    case 6
    then show ?thesis using c T code(7) by (auto simp: upd_mycpu_run)
  next
    case 7
    then show ?thesis using locks_at_release(2) [OF la, of "ProcLock p"] c T code(8) by (simp add: sleeper_locks_def)
  qed (use n c T code(9) in simp_all)
qed

lemma duoI:
  assumes d: "duo i j ch lk p a B woke (T, s)" and a: "a' \<le> 7" "cs = sleeper_at ch lk p a'"
    and la: "locks_at i (sleeper_locks lk p a') j B (hw t)" and l: "length (procs t) = NPROC"
    and cp: "a' \<le> 5 \<longrightarrow> cpu_proc (cpus (hw t) i) = Some p" and ok: "sleeper_ok ch p a' woke (procs t ! p)"
  shows "duo i j ch lk p a' B woke (T(i := cs), t)"
  using assms duoD [OF d] by (auto simp: duo_def)

lemma sleeper_moves:
  assumes d: "duo i j ch lk p a B woke (T, s)" and c: "T i = c # cs" and e: "c [] (on_hart i s) = Ret () t []"
  shows "duo i j ch lk p (a + 1) B woke (T(i := cs), t)"
proof -
  note lk = duoD(1) [OF d, of p]
  note code = sleeper_code [OF lk, of ch] and T = duoD(6) [OF d] and la = duoD(8) [OF d] and ok = duoD(10) [OF d]
  have sl: "sleeper_locks lk p 0 = {lk}" "sleeper_locks lk p 1 = {lk, ProcLock p}" "sleeper_locks lk p 2 = {ProcLock p}"
    "sleeper_locks lk p 3 = {ProcLock p}" "sleeper_locks lk p 4 = {ProcLock p}" "sleeper_locks lk p 5 = {ProcLock p}"
    "sleeper_locks lk p 6 = {ProcLock p}" "sleeper_locks lk p 7 = {}" by (simp_all add: sleeper_locks_def)
  show ?thesis using duoD(5) [OF d]
  proof (cases rule: phases)
    case 1
    then have e: "acquire (ProcLock p) [] (on_hart i s) = Ret () t []" "cs = sleeper_at ch lk p 1" using c T code(1) e by simp_all
    from locks_at_acquire(1) [OF la e(1)] have "locks_at i {ProcLock p, lk} j B (hw t)" "procs t = procs s"
      "cpu_proc (cpus (hw t) i) = cpu_proc (cpus (hw s) i)" using 1 sl by simp_all
    then show ?thesis using duoI [OF d, of 1 cs t] 1 e(2) duoD(3,9) [OF d] ok
      by (simp add: sleeper_locks_def insert_commute sleeper_ok_def)
  next
    case 2
    then have e: "release lk [] (on_hart i s) = Ret () t []" "cs = sleeper_at ch lk p 2" using c T code(2) e by simp_all
    have "lk \<in> sleeper_locks lk p a" using 2 by (simp add: sleeper_locks_def)
    from locks_at_release(1) [OF la this e(1)] have "locks_at i ({lk, ProcLock p} - {lk}) j B (hw t)" "procs t = procs s"
      "cpu_proc (cpus (hw t) i) = cpu_proc (cpus (hw s) i)" using 2 by (simp_all add: sleeper_locks_def)
    moreover have "{lk, ProcLock p} - {lk} = {ProcLock p}" using lk by auto
    ultimately show ?thesis using duoI [OF d, of 2 cs t] 2 e(2) duoD(3,9) [OF d] ok
      by (simp add: sl sleeper_ok_def numeral_2_eq_2 [symmetric])
  next
    case 3
    then have t: "t = (on_hart i s)\<lparr>procs := (procs s)[p := (procs s ! p)\<lparr>p_chan := ch\<rparr>]\<rparr>" and cs: "cs = sleeper_at ch lk p 3"
      using c T code(3) e by (auto simp: upd_proc_apply)
    show ?thesis using duoI [OF d, of 3 cs t] 3 cs duoD(2,3,9) [OF d] ok la by (simp add: sl sleeper_ok_def t)
  next
    case 4
    then have t: "t = (on_hart i s)\<lparr>procs := (procs s)[p := (procs s ! p)\<lparr>p_state := SLEEPING\<rparr>]\<rparr>" and cs: "cs = sleeper_at ch lk p 4"
      using c T code(4) e by (auto simp: upd_proc_apply)
    show ?thesis using duoI [OF d, of 4 cs t] 4 cs duoD(2,3,9) [OF d] ok la by (simp add: sl sleeper_ok_def t)
  next
    case 5
    obtain cs' where "sleeper_at ch lk p 4 = sched # cs'" using code(5) by blast
    then have "sched [] (on_hart i s) = Ret () t []" using c T e 5 by simp
    moreover have "p_state (procs s ! p) \<noteq> RUNNING" using ok 5 by (auto simp: sleeper_ok_def)
    ultimately show ?thesis using sched_blocks [of i p j B s] la duoD(9) [OF d] 5 by (simp add: sl)
  next
    case 6
    then have t: "t = (on_hart i s)\<lparr>hw := set_mycpu (\<lambda>c. c\<lparr>cpu_proc := None\<rparr>) ((hw s)\<lparr>tp := i\<rparr>)\<rparr>" and cs: "cs = sleeper_at ch lk p 6"
      using c T code(7) e by (auto simp: upd_mycpu_run)
    have "locks_at i {ProcLock p} j B (hw t)" unfolding t using la 6 by (simp add: sl locks_at_set_mycpu)
    then show ?thesis using duoI [OF d, of 6 cs t] 6 cs duoD(2,3) [OF d] ok by (simp add: sl sleeper_ok_def t)
  next
    case 7
    then have e: "release (ProcLock p) [] (on_hart i s) = Ret () t []" "cs = sleeper_at ch lk p 7" using c T code(8) e by simp_all
    have "ProcLock p \<in> sleeper_locks lk p a" using 7 by (simp add: sl)
    from locks_at_release(1) [OF la this e(1)] have "locks_at i {} j B (hw t)" "procs t = procs s" using 7 by (simp_all add: sl)
    then show ?thesis using duoI [OF d, of 7 cs t] 7 e(2) duoD(3) [OF d] ok by (simp add: sl sleeper_ok_def)
  qed (use c T code(9) in simp)
qed

text \<open>No statement but \<^verbatim>\<open>sched()\<close> is \<^verbatim>\<open>sched()\<close>.\<close>

lemma sched_no_Ret: "sched [] s \<noteq> Ret () t w"
  by (auto simp: sched_def curproc_def kderef_def myproc_def kapply swtch_def split: if_splits option.splits)

lemma not_sched: "acquire l \<noteq> sched" "release l \<noteq> sched" "wake_test ch q \<noteq> sched"
proof -
  have a: "acquire l [] kernel0 = Ret () (kernel0\<lparr>hw := enter l (hw kernel0)\<rparr>) []" by (rule acquire_free [OF free_kernel0])
  then show "acquire l \<noteq> sched" using sched_no_Ret by metis
  have "release l [] (kernel0\<lparr>hw := enter l (hw kernel0)\<rparr>) = Ret () kernel0 []"
    using release_enter [of "kernel0\<lparr>hw := enter l (hw kernel0)\<rparr>" l "hw kernel0" "[]"] calm_kernel0 free_kernel0 by simp
  then show "release l \<noteq> sched" using sched_no_Ret by metis
  have "\<exists>t. wake_test ch q [] kernel0 = Ret () t []" by (simp add: wake_test_def kapply)
  then show "wake_test ch q \<noteq> sched" using sched_no_Ret by metis
qed

lemma sleeper_switches:
  assumes d: "duo i j ch lk p a B woke (T, s)" and c: "T i = sched # cs" and e: "sched [] (on_hart i s) = Blocked t"
    and q: "cpu_proc (cpus (hw t) i) = Some q"
  shows "a = 4" "duo i j ch lk p 5 B woke (T(i := switched_back q), t)"
proof -
  note la = duoD(8) [OF d] and ok = duoD(10) [OF d]
  show a: "a = 4" using sleeper_ready [OF d c] e by auto
  have "p_state (procs s ! p) \<noteq> RUNNING" using ok a by (auto simp: sleeper_ok_def)
  then have t: "t = on_hart i s" using sched_blocks [of i p j B s] la duoD(9) [OF d] a e by (simp add: sleeper_locks_def)
  then have "q = p" using q duoD(9) [OF d] a by simp
  then show "duo i j ch lk p 5 B woke (T(i := switched_back q), t)"
    using duoI [OF d, of 5 "switched_back q" t] a duoD(3,9) [OF d] la ok sleeper_code(6) [OF duoD(1) [OF d, of p], of ch]
    by (simp add: t sleeper_locks_def sleeper_ok_def)
qed

lemma duoJ:
  assumes d: "duo i j ch lk p a B woke (T, s)" and w: "waker_at ch lk p cs B' woke'"
    and la: "locks_at j B' i (sleeper_locks lk p a) (hw t)" and l: "length (procs t) = NPROC"
    and cp: "cpu_proc (cpus (hw t) i) = cpu_proc (cpus (hw s) i)" and ok: "sleeper_ok ch p a woke' (procs t ! p)"
  shows "duo i j ch lk p a B' woke' (T(j := cs), t)"
  using assms duoD [OF d] locks_at_sym [OF la] by (auto simp: duo_def)

lemma waker_moves:
  assumes d: "duo i j ch lk p a B woke (T, s)" and c: "T j = c # cs" and e: "c [] (on_hart j s) = Ret () t []"
  shows "\<exists>B' woke'. duo i j ch lk p a B' woke' (T(j := cs), t)"
proof -
  note la = locks_at_sym [OF duoD(8) [OF d]] and ok = duoD(10) [OF d] and np = duoD(3) [OF d]
  show ?thesis using duoD(7) [OF d]
  proof (cases rule: waker_at.cases)
    case waker_start
    then have e: "acquire lk [] (on_hart j s) = Ret () t []" "cs = wakes ch lk [0..<NPROC]" using c e by (simp_all add: waker_def)
    have w: "waker_at ch lk p cs {lk} False" using waker_next [of "[0..<NPROC]" ch lk p] duoD(2) [OF d] by (simp add: e(2))
    from locks_at_acquire(1) [OF la e(1)] waker_start have "duo i j ch lk p a {lk} False (T(j := cs), t)"
      by (intro duoJ [OF d w]) (use np ok in simp_all)
    then show ?thesis by blast
  next
    case (waker_next qs)
    show ?thesis
    proof (cases qs)
      case Nil
      then have e: "release lk [] (on_hart j s) = Ret () t []" "cs = []" using c e waker_next(1) by (simp_all add: wakes_Nil)
      have "lk \<in> B" using waker_next by simp
      from locks_at_release(1) [OF la this e(1)] waker_next have "duo i j ch lk p a {} True (T(j := cs), t)"
        by (intro duoJ [OF d]) (use np ok e(2) Nil in \<open>simp_all add: waker_end\<close>)
      then show ?thesis by blast
    next
      case (Cons q qs')
      then have e: "acquire (ProcLock q) [] (on_hart j s) = Ret () t []" "cs = wake_test ch q # release (ProcLock q) # wakes ch lk qs'"
        using c e waker_next(1) by (simp_all add: wakes_Cons)
      have w: "waker_at ch lk p cs {lk, ProcLock q} (p \<notin> set (q # qs'))" unfolding e(2)
        by (rule waker_test) (use waker_next Cons in simp_all)
      from locks_at_acquire(1) [OF la e(1)] waker_next have "duo i j ch lk p a {lk, ProcLock q} (p \<notin> set (q # qs')) (T(j := cs), t)"
        by (intro duoJ [OF d w]) (use np ok Cons in \<open>simp_all add: insert_commute\<close>)
      then show ?thesis by blast
    qed
  next
    case (waker_test q qs)
    then have cs: "cs = release (ProcLock q) # wakes ch lk qs" and t: "t = (on_hart j s)\<lparr>procs := (procs s)[q := woken ch (procs s ! q)]\<rparr>"
      using c e by (auto simp: wake_test_def kapply woken_def on_hart_def split: if_splits)
    have w: "waker_at ch lk p cs B (p \<notin> set qs)" unfolding cs waker_test(2) by (rule waker_drop) (use waker_test in simp_all)
    have "sleeper_ok ch p a (p \<notin> set qs) (procs t ! p)"
    proof (cases "q = p")
      case True
      have "lk \<in> B" "ProcLock p \<in> B" using waker_test(2) True by simp_all
      then have "lk \<notin> sleeper_locks lk p a" "ProcLock p \<notin> sleeper_locks lk p a" using locks_at_disjoint [OF la] by blast+
      then have "a = 7" using duoD(5) [OF d] by (auto simp: sleeper_locks_def split: if_splits)
      then show ?thesis using ok True waker_test np duoD(2) [OF d] by (auto simp: sleeper_ok_def t woken_def)
    next
      case False
      then show ?thesis using ok waker_test by (auto simp: t)
    qed
    then have "duo i j ch lk p a B (p \<notin> set qs) (T(j := cs), t)"
      by (intro duoJ [OF d w]) (use np la in \<open>simp_all add: t\<close>)
    then show ?thesis by blast
  next
    case (waker_drop q qs)
    then have e: "release (ProcLock q) [] (on_hart j s) = Ret () t []" "cs = wakes ch lk qs" using c e by simp_all
    have w: "waker_at ch lk p cs {lk} (p \<notin> set qs)" unfolding e(2) by (rule waker_next) (use waker_drop in simp_all)
    have q: "ProcLock q \<in> B" "B - {ProcLock q} = {lk}" using waker_drop(2) duoD(1) [OF d] by auto
    from locks_at_release(1) [OF la q(1) e(1)] have "duo i j ch lk p a {lk} (p \<notin> set qs) (T(j := cs), t)"
      by (intro duoJ [OF d w]) (use np ok waker_drop q(2) in simp_all)
    then show ?thesis by blast
  next
    case waker_end
    then show ?thesis using c by simp
  qed
qed

lemma waker_not_sched:
  assumes "waker_at ch lk p (sched # cs) B woke"
  shows False
  using assms
proof (cases rule: waker_at.cases)
  case (waker_next qs)
  then show ?thesis using not_sched [symmetric] by (cases qs) (auto simp: wakes_Nil wakes_Cons)
qed (use not_sched [symmetric] in \<open>auto simp: waker_def\<close>)

lemma duo_step:
  assumes "duo_inv i j ch lk p c" "istep c c'"
  shows "duo_inv i j ch lk p c' \<and> length (fst c' i) + length (fst c' j) < length (fst c i) + length (fst c j)"
  using assms(2,1)
proof (cases rule: istep.cases)
  case (istep_run T k e cs s t)
  obtain a B woke where d: "duo i j ch lk p a B woke (T, s)" using assms(1) istep_run by (auto simp: duo_inv_def)
  note ij = duoD(11) [OF d]
  consider "k = i" | "k = j" using duoD(4) [OF d, of k] istep_run(3) by fastforce
  then show ?thesis
  proof cases
    case 1
    then show ?thesis using sleeper_moves [OF d, of e cs t] istep_run ij by (auto simp: duo_inv_def)
  next
    case 2
    then show ?thesis using waker_moves [OF d, of e cs t] istep_run ij by (auto simp: duo_inv_def)
  qed
next
  case (istep_switch T k cs s t q)
  obtain a B woke where d: "duo i j ch lk p a B woke (T, s)" using assms(1) istep_switch by (auto simp: duo_inv_def)
  note ij = duoD(11) [OF d]
  have "k \<noteq> j" using waker_not_sched [of ch lk p cs B woke] duoD(7) [OF d] istep_switch(3) by auto
  then have k: "k = i" using duoD(4) [OF d, of k] istep_switch(3) by fastforce
  note sw = sleeper_switches [OF d, of cs t q]
  have "length cs = 3" using sleeper_code(5) [OF duoD(1) [OF d, of p], of ch] duoD(6) [OF d] sw(1) istep_switch k by auto
  then show ?thesis using sw(2) istep_switch k ij by (auto simp: duo_inv_def switched_back_def)
qed

definition duo_start :: "nat \<Rightarrow> nat \<Rightarrow> chan \<Rightarrow> lockid \<Rightarrow> nat \<Rightarrow> threads \<times> kernel \<Rightarrow> bool" where
  "duo_start i j ch lk p c \<longleftrightarrow> fst c = (\<lambda>_. [])(i := sleep_body ch lk p, j := waker ch lk) \<and>
     locks_at i {lk} j {} (hw (snd c)) \<and> (\<forall>q. lk \<noteq> ProcLock q) \<and> cpu_proc (cpus (hw (snd c)) i) = Some p \<and>
     p < NPROC \<and> length (procs (snd c)) = NPROC"

lemma duo_inv_start:
  assumes "duo_start i j ch lk p c" shows "duo_inv i j ch lk p c"
proof -
  have "i \<noteq> j" using assms by (simp add: duo_start_def locks_at_def)
  then have "duo i j ch lk p 0 {} False c"
    using assms by (auto simp: duo_start_def duo_def sleeper_at_def sleeper_locks_def sleeper_ok_def waker_start)
  then show ?thesis by (auto simp: duo_inv_def)
qed

interpretation duos: step_system "duo_start i j ch lk p" istep "duo_inv i j ch lk p" for i j ch lk p
  by unfold_locales (blast intro: duo_inv_start dest: duo_step)+

lemma waker_ready:
  assumes la: "locks_at j B i {} (hw s)" and w: "waker_at ch lk p (c # cs) B woke" and lk: "\<And>q. lk \<noteq> ProcLock q"
  shows "\<exists>t. c [] (on_hart j s) = Ret () t []"
  using w
proof (cases rule: waker_at.cases)
  case waker_start
  then show ?thesis using locks_at_acquire(2) [OF la, of lk] by (simp add: waker_def)
next
  case (waker_next qs)
  show ?thesis
  proof (cases qs)
    case Nil
    then show ?thesis using waker_next locks_at_release(2) [OF la, of lk] by (simp add: wakes_Nil)
  next
    case (Cons q qs')
    have "ProcLock q \<notin> B \<union> {}" using waker_next(2) lk [of q] by auto
    then show ?thesis using waker_next(1) Cons locks_at_acquire(2) [OF la] by (simp add: wakes_Cons)
  qed
next
  case (waker_test q qs)
  then show ?thesis by (simp add: wake_test_def kapply)
next
  case (waker_drop q qs)
  then show ?thesis using locks_at_release(2) [OF la, of "ProcLock q"] by simp
qed

lemma duo_progress:
  assumes "duo_inv i j ch lk p (T, s)" "T i \<noteq> [] \<or> T j \<noteq> []"
  shows "\<exists>c. istep (T, s) c"
proof -
  obtain a B woke where d: "duo i j ch lk p a B woke (T, s)" using assms(1) by (auto simp: duo_inv_def)
  note code = sleeper_code [OF duoD(1) [OF d, of p], of ch] and la = duoD(8) [OF d]
  consider (sleeper) "a < 7" "a \<noteq> 4" | (sched) "a = 4" | (waker) "a = 7" using duoD(5) [OF d] by linarith
  then show ?thesis
  proof cases
    case sleeper
    then have "T i \<noteq> []" using duoD(6) [OF d] by (auto simp: sleeper_at_def sleep_body_def switched_back_def)
    then obtain c cs where "T i = c # cs" by (cases "T i") auto
    then show ?thesis using sleeper_ready [OF d _ sleeper(2)] istep_run by blast
  next
    case sched
    then obtain cs where "T i = sched # cs" using code(5) duoD(6) [OF d] by auto
    moreover have "p_state (procs s ! p) \<noteq> RUNNING" using duoD(10) [OF d] sched by (auto simp: sleeper_ok_def)
    then have "sched [] (on_hart i s) = Blocked (on_hart i s)"
      using sched_blocks [of i p j B s] la duoD(9) [OF d] sched by (simp add: sleeper_locks_def)
    moreover have "cpu_proc (cpus (hw (on_hart i s)) i) = Some p" using duoD(9) [OF d] sched by simp
    ultimately show ?thesis using istep_switch by blast
  next
    case waker
    then have "T i = []" using duoD(6) [OF d] code(9) by simp
    then obtain c cs where c: "T j = c # cs" using assms(2) by (cases "T j") auto
    have "locks_at j B i {} (hw s)" using locks_at_sym [OF la] waker by (simp add: sleeper_locks_def)
    moreover have "waker_at ch lk p (c # cs) B woke" using duoD(7) [OF d] c by simp
    ultimately obtain t where "c [] (on_hart j s) = Ret () t []" using waker_ready [of j B i s ch lk p c cs woke] duoD(1) [OF d] by blast
    then show ?thesis using istep_run [of T j c cs s t] c by blast
  qed
qed

section \<open>Property\<close>

text \<open>
  C14. No wakeup is lost between \<^verbatim>\<open>sleep(chan, lk)\<close> and \<^verbatim>\<open>wakeup(chan)\<close>. Process \<open>p\<close> holds \<open>lk\<close> on hart \<open>i\<close> and
  goes to sleep; hart \<open>j\<close> takes \<open>lk\<close>, which it can only do after \<open>p\<close> has let go of it, calls \<^verbatim>\<open>wakeup\<close> and
  releases \<open>lk\<close>. \<^verbatim>\<open>sleep\<close> releases \<open>lk\<close> before it marks the process as sleeping, but it holds the lock of the
  process from before that until the scheduler has switched away from it. So, however the statements of
  the two harts are interleaved, the harts never get stuck, every step brings them nearer to the end, and
  when both are done the process is runnable and all locks are free.
\<close>

theorem sleep_no_lost_wakeup:
  assumes "locks_at i {lk} j {} (hw s)" "\<forall>q. lk \<noteq> ProcLock q" "cpu_proc (cpus (hw s) i) = Some p"
    and "p < NPROC" "length (procs s) = NPROC"
    and "istep\<^sup>*\<^sup>* ((\<lambda>_. [])(i := sleep_body ch lk p, j := waker ch lk), s) (T, t)"
  shows "(T i = [] \<and> T j = [] \<longrightarrow> p_state (procs t ! p) = RUNNABLE \<and> (\<forall>l. lock_free l (hw t))) \<and>
    (T i \<noteq> [] \<or> T j \<noteq> [] \<longrightarrow> (\<exists>c. istep (T, t) c)) \<and>
    (\<forall>c. istep (T, t) c \<longrightarrow> length (fst c i) + length (fst c j) < length (T i) + length (T j))"
proof -
  have "duo_start i j ch lk p ((\<lambda>_. [])(i := sleep_body ch lk p, j := waker ch lk), s)"
    using assms(1-5) by (simp add: duo_start_def)
  then have inv: "duo_inv i j ch lk p (T, t)" using assms(6) by (rule duos.inv_reachable)
  then obtain a B woke where d: "duo i j ch lk p a B woke (T, t)" by (auto simp: duo_inv_def)
  have "p_state (procs t ! p) = RUNNABLE \<and> (\<forall>l. lock_free l (hw t))" if e: "T j = []"
  proof -
    have w: "B = {} \<and> woke"
      using duoD(7) [OF d] unfolding e
    proof (cases rule: waker_at.cases)
      case (waker_next qs)
      then show ?thesis by (cases qs) (simp_all add: wakes_Nil wakes_Cons)
    qed (simp_all add: waker_def)
    then have a: "a = 7" "p_state (procs t ! p) = RUNNABLE" using duoD(10) [OF d] by (simp_all add: sleeper_ok_def)
    have "locks_at i {} j {} (hw t)" using duoD(8) [OF d] a w by (simp add: sleeper_locks_def)
    then show ?thesis using a(2) by (simp add: locks_at_def owner_ok_def lock_free_def)
  qed
  then show ?thesis using duo_progress [OF inv] duo_step [OF inv] by auto
qed

text \<open>The first process at work on hart 0, holding the lock of the clock ticks, and hart 1 without a process.\<close>

definition one_running :: kernel where
  "one_running = kernel0\<lparr>hw := enter TicksLock (set_mycpu (\<lambda>c. c\<lparr>cpu_proc := Some 0\<rparr>) (hw kernel0))\<rparr>"

lemma one_running: "locks_at 0 {TicksLock} 1 {} (hw one_running)" "cpu_proc (cpus (hw one_running) 0) = Some 0"
  "length (procs one_running) = NPROC"
proof -
  have t: "tp (hw kernel0) = 0" by (simp add: kernel0_def bss_def hw0_def)
  have n: "noff (cpus (hw kernel0) k) = 0" for k by (simp add: kernel0_def bss_def hw0_def cpu0_def)
  have "owner_ok 0 {TicksLock} 1 {} l (locks (hw one_running) l)" for l
    using free_kernel0 [of l] by (simp add: owner_ok_def one_running_def enter_def lock_free_def t)
  moreover have "noff (cpus (hw one_running) 0) = 1" "noff (cpus (hw one_running) 1) = 0" "\<not> sie_at 0 (hw one_running)"
    by (simp_all add: one_running_def enter_def noff_pushed_at sie_at_pushed n t)
  ultimately show "locks_at 0 {TicksLock} 1 {} (hw one_running)" by (simp add: locks_at_def)
  show "cpu_proc (cpus (hw one_running) 0) = Some 0" by (simp add: one_running_def t)
  show "length (procs one_running) = NPROC" using kernel0_procs(2) by (simp add: one_running_def)
qed

theorem sleep_no_lost_wakeup_witness:
  "\<exists>T t. istep\<^sup>*\<^sup>* ((\<lambda>_. [])(0 := sleep_body ChanTicks TicksLock 0, 1 := waker ChanTicks TicksLock), one_running) (T, t) \<and>
     T 0 = [] \<and> T 1 = [] \<and> p_state (procs t ! 0) = RUNNABLE"
proof -
  let ?c = "((\<lambda>_. [])(0 := sleep_body ChanTicks TicksLock 0, 1 := waker ChanTicks TicksLock), one_running)"
  have tk: "\<forall>q. TicksLock \<noteq> ProcLock q" and z: "0 < NPROC" by (simp_all add: NPROC_def)
  note run = sleep_no_lost_wakeup [OF one_running(1) tk one_running(2) z one_running(3)]
  have "istep\<^sup>*\<^sup>* ?c (T, t) \<Longrightarrow> \<exists>T' t'. istep\<^sup>*\<^sup>* ?c (T', t') \<and> T' 0 = [] \<and> T' 1 = []" for T t
  proof (induction "length (T 0) + length (T 1)" arbitrary: T t rule: less_induct)
    case less
    show ?case
    proof (cases "T 0 = [] \<and> T 1 = []")
      case True
      then show ?thesis using less.prems by blast
    next
      case False
      then obtain T' t' where s: "istep (T, t) (T', t')" using run [OF less.prems] by auto
      then have "length (T' 0) + length (T' 1) < length (T 0) + length (T 1)" using run [OF less.prems] by fastforce
      then show ?thesis using less.hyps less.prems s by (meson rtranclp.rtrancl_into_rtrancl)
    qed
  qed
  then obtain T t where "istep\<^sup>*\<^sup>* ?c (T, t)" "T 0 = []" "T 1 = []" by blast
  then show ?thesis using run [of ChanTicks T t] by blast
qed

end
