(* ===== verification/Sleepcheck.thy ===== *)
theory Sleepcheck
  imports Sleeplock Sched
begin

text \<open>
  Sleep locks exclude: who finds the lock free takes it, who finds it taken sleeps on it, and letting go
  of it makes the sleepers runnable.
\<close>

definition taken_by :: "int \<Rightarrow> sleeplock \<Rightarrow> sleeplock" where
  "taken_by pid l = l\<lparr>sl_locked := 1, sl_pid := pid\<rparr>"

section \<open>The operations\<close>

text \<open>A hart that runs process \<open>p\<close> and finds the locks of processes and of the sleep lock free.\<close>

definition runs_proc :: "nat \<Rightarrow> slockid \<Rightarrow> kernel \<Rightarrow> bool" where
  "runs_proc p lk s \<longleftrightarrow> procs_free (hw s) \<and> lock_free (SleepSpin lk) (hw s) \<and> cpu_proc (me (hw s)) = Some p \<and>
     p < NPROC \<and> length (procs s) = NPROC"

lemma sleepspin:
  assumes "runs_proc p lk s"
  shows "hw u = hw s \<Longrightarrow> acquire (SleepSpin lk) w u = Ret () (u\<lparr>hw := enter (SleepSpin lk) (hw s)\<rparr>) w"
    and "hw u = enter (SleepSpin lk) (hw s) \<Longrightarrow> release (SleepSpin lk) w u = Ret () (u\<lparr>hw := hw s\<rparr>) w"
    and "hw u = enter (SleepSpin lk) (hw s) \<Longrightarrow> curproc w u = Ret p u w"
    and "hw u = enter (SleepSpin lk) (hw s) \<Longrightarrow> length (procs u) = NPROC \<Longrightarrow>
      wakeup ch w u = Ret () (u\<lparr>procs := map (woken ch) (procs u)\<rparr>) w"
proof -
  have h: "procs_free (hw s)" "calm (hw s)" "lock_free (SleepSpin lk) (hw s)" "cpu_proc (me (hw s)) = Some p"
    using assms by (simp_all add: runs_proc_def procs_free_def)
  show "acquire (SleepSpin lk) w u = Ret () (u\<lparr>hw := enter (SleepSpin lk) (hw s)\<rparr>) w" if "hw u = hw s"
    using acquire_free [of "SleepSpin lk" u w] h that by simp
  show "release (SleepSpin lk) w u = Ret () (u\<lparr>hw := hw s\<rparr>) w" if "hw u = enter (SleepSpin lk) (hw s)"
    by (rule release_enter) (use that h in simp_all)
  show "curproc w u = Ret p u w" if "hw u = enter (SleepSpin lk) (hw s)"
    by (rule curproc_run) (use that h in simp_all)
  show "wakeup ch w u = Ret () (u\<lparr>procs := map (woken ch) (procs u)\<rparr>) w"
    if "hw u = enter (SleepSpin lk) (hw s)" "length (procs u) = NPROC"
    using wakeup_run [of u] procs_free_enter [OF h(1), of "SleepSpin lk"] that by simp
qed

lemma acquiresleep_free:
  assumes "runs_proc p lk s" "sl_locked (sleeplocks s lk) = 0"
  shows "acquiresleep lk w s =
    Ret () (s\<lparr>sleeplocks := (sleeplocks s)(lk := taken_by (p_pid (procs s ! p)) (sleeplocks s lk))\<rparr>) w"
  using assms(2)
  by (simp add: acquiresleep_def kbind_apply sleepspin [OF assms(1)] kwaitloop_def kloop.simps kapply taken_by_def)

lemma holdingsleep_run:
  assumes "runs_proc p lk s"
  shows "holdingsleep lk w s =
    Ret (sl_locked (sleeplocks s lk) \<noteq> 0 \<and> sl_pid (sleeplocks s lk) = p_pid (procs s ! p)) s w"
  by (simp add: holdingsleep_def kbind_apply sleepspin [OF assms] kapply)

lemma releasesleep_run:
  assumes "runs_proc p lk s"
  shows "releasesleep lk w s = Ret () (s\<lparr>sleeplocks := (sleeplocks s)(lk := (sleeplocks s lk)\<lparr>sl_locked := 0, sl_pid := 0\<rparr>),
    procs := map (woken (ChanSL lk)) (procs s)\<rparr>) w"
  using assms
  by (simp add: releasesleep_def kbind_apply sleepspin [OF assms] upd_sl_apply kret_apply runs_proc_def)

lemma acquiresleep_taken:
  assumes r: "runs_proc p lk s" and n: "noff (me (hw s)) = 0" and l: "sl_locked (sleeplocks s lk) \<noteq> 0"
  shows "acquiresleep lk [] s = Blocked (asleep (ChanSL lk) p (hw s) (s\<lparr>hw := enter (SleepSpin lk) (hw s)\<rparr>))"
proof -
  let ?L = "SleepSpin lk" and ?h = "enter (SleepSpin lk) (hw s)"
  let ?x = "asleep (ChanSL lk) p (hw s) (s\<lparr>hw := ?h\<rparr>)"
  have "sleep (ChanSL lk) ?L [] (s\<lparr>hw := ?h\<rparr>) = Blocked ?x"
    using sleep_run [of "s\<lparr>hw := ?h\<rparr>" ?L "hw s" p "ChanSL lk" "[]"] r n
    by (simp add: runs_proc_def procs_free_def kbind_apply kwait_def)
  then show ?thesis
    using l by (simp add: acquiresleep_def kbind_apply sleepspin(1) [OF r] kwaitloop_def kloop.simps get_sl_apply)
qed

text \<open>
  C32. \<^verbatim>\<open>acquiresleep\<close> of a free sleep lock takes it in the name of the caller, and \<^verbatim>\<open>holdingsleep\<close> then says
  so; of a lock that is taken, it leaves the lock alone and puts the caller to sleep on it with the
  lock's spinlock free again, where its run ends here. \<^verbatim>\<open>releasesleep\<close> makes the lock free and every process that sleeps on it
  runnable.
\<close>

theorem sleeplock_excludes:
  fixes s :: kernel and p :: nat and lk :: slockid
  defines "t \<equiv> s\<lparr>sleeplocks := (sleeplocks s)(lk := taken_by (p_pid (procs s ! p)) (sleeplocks s lk))\<rparr>"
  assumes free: "procs_free (hw s)" "lock_free (SleepSpin lk) (hw s)" "noff (me (hw s)) = 0"
    and cur: "cpu_proc (me (hw s)) = Some p" "p < NPROC" "length (procs s) = NPROC"
  shows "(sl_locked (sleeplocks s lk) = 0 \<longrightarrow>
      acquiresleep lk w s = Ret () t w \<and> holdingsleep lk w t = Ret True t w) \<and>
    (sl_locked (sleeplocks s lk) \<noteq> 0 \<longrightarrow>
      (\<exists>x. acquiresleep lk [] s = Blocked x \<and> sleeplocks x = sleeplocks s \<and> lock_free (SleepSpin lk) (hw x) \<and>
        p_state (procs x ! p) = SLEEPING \<and> p_chan (procs x ! p) = ChanSL lk)) \<and>
    releasesleep lk w s = Ret () (s\<lparr>sleeplocks := (sleeplocks s)(lk := (sleeplocks s lk)\<lparr>sl_locked := 0, sl_pid := 0\<rparr>),
      procs := map (woken (ChanSL lk)) (procs s)\<rparr>) w"
proof (intro conjI impI)
  let ?L = "SleepSpin lk" and ?h = "enter (SleepSpin lk) (hw s)"
  have r: "runs_proc p lk s" "runs_proc p lk t" using free cur by (simp_all add: runs_proc_def t_def)
  show "acquiresleep lk w s = Ret () t w" if "sl_locked (sleeplocks s lk) = 0"
    unfolding t_def by (rule acquiresleep_free [OF r(1) that])
  show "holdingsleep lk w t = Ret True t w"
    unfolding holdingsleep_run [OF r(2)] by (simp add: t_def taken_by_def)
  show "releasesleep lk w s = Ret () (s\<lparr>sleeplocks := (sleeplocks s)(lk := (sleeplocks s lk)\<lparr>sl_locked := 0, sl_pid := 0\<rparr>),
      procs := map (woken (ChanSL lk)) (procs s)\<rparr>) w"
    by (rule releasesleep_run [OF r(1)])
  assume locked: "sl_locked (sleeplocks s lk) \<noteq> 0"
  let ?x = "asleep (ChanSL lk) p (hw s) (s\<lparr>hw := ?h\<rparr>)"
  have "acquiresleep lk [] s = Blocked ?x" by (rule acquiresleep_taken [OF r(1) free(3) locked])
  moreover have "lock_free ?L (hw ?x)" using free(2) by (simp add: asleep_def)
  ultimately show "\<exists>x. acquiresleep lk [] s = Blocked x \<and> sleeplocks x = sleeplocks s \<and> lock_free ?L (hw x) \<and>
      p_state (procs x ! p) = SLEEPING \<and> p_chan (procs x ! p) = ChanSL lk"
    using cur by (intro exI [of _ ?x]) (simp add: asleep_def)
qed

theorem sleeplock_excludes_witness:
  "\<exists>(s :: kernel) t. acquiresleep (BufSL 0) [] s = Ret () t [] \<and> holdingsleep (BufSL 0) [] t = Ret True t []"
proof -
  let ?h = "set_mycpu (\<lambda>c. c\<lparr>cpu_proc := Some 0\<rparr>) (hw kernel0)"
  let ?s = "kernel0\<lparr>hw := ?h\<rparr>"
  have "calm ?h" "noff (me ?h) = 0" "cpu_proc (me ?h) = Some 0"
    using calm_kernel0 by (simp_all add: calm_def kernel0_def bss_def hw0_def cpu0_def)
  moreover have "lock_free l ?h" for l using free_kernel0 by (simp add: lock_free_def)
  moreover have "sl_locked (sleeplocks kernel0 (BufSL 0)) = 0" by (simp add: kernel0_def bss_def)
  ultimately show ?thesis
    using sleeplock_excludes [of ?s "BufSL 0" 0 "[]"] kernel0_procs(2)
    by (auto simp: procs_free_def NPROC_def)
qed

end
