(* ===== verification/Bcache.thy ===== *)
theory Bcache
  imports Bio Sleepcheck
begin

text \<open>
  The buffer cache of \<^verbatim>\<open>kernel/bio.c\<close> at work for one process that finds all spinlocks free. The first
  part is about the doubly linked list: \<open>lru bs order\<close> says that the pointers of the buffers \<open>bs\<close> run
  through \<open>order\<close>, most recently used first. The second gives the contents of the cache as functions of
  block numbers: \<open>view\<close>, the data that a reader of a block sees, and \<open>refs\<close>, the reference counts. Each
  operation is described by what it does to these two, to the disk and to the buffers held.
\<close>

section \<open>The list of buffers\<close>

text \<open>Following \<open>f\<close> from \<open>p\<close> runs through \<open>xs\<close> and ends at \<open>q\<close>.\<close>

definition chain :: "(nat \<Rightarrow> nat) \<Rightarrow> nat \<Rightarrow> nat list \<Rightarrow> nat \<Rightarrow> bool" where
  "chain f p xs q \<longleftrightarrow> map f (p # xs) = xs @ [q]"

lemma chain_Nil [simp]: "chain f p [] q \<longleftrightarrow> f p = q"
  by (simp add: chain_def)

lemma chain_Cons [simp]: "chain f p (x # xs) q \<longleftrightarrow> f p = x \<and> chain f x xs q"
  by (auto simp: chain_def)

lemma chain_append: "chain f p (xs @ x # ys) q \<longleftrightarrow> chain f p xs x \<and> chain f x ys q"
  by (induction xs arbitrary: p) auto

lemma chain_snoc: "chain f p (xs @ [x]) q \<longleftrightarrow> chain f p xs x \<and> f x = q"
  by (simp add: chain_append)

lemma chain_cong: "(\<And>i. i \<in> set (p # xs) \<Longrightarrow> f i = g i) \<Longrightarrow> chain f p xs q = chain g p xs q"
  unfolding chain_def by (metis (no_types, lifting) map_cong)

lemma chain_end: "chain f p xs q \<Longrightarrow> distinct (p # xs) \<Longrightarrow> chain (f(last (p # xs) := r)) p xs r"
proof (induction xs arbitrary: p)
  case (Cons x xs)
  then have "last (x # xs) \<noteq> p" using last_in_set [of "x # xs"] by auto
  then show ?case using Cons by simp
qed simp

lemma chain_unlink:
  assumes "chain f p (xs @ b # ys) q" "distinct (p # xs @ b # ys)"
  shows "chain (f(last (p # xs) := f b)) p (xs @ ys) q"
proof -
  let ?g = "f(last (p # xs) := f b)"
  have "last (p # xs) \<in> set (p # xs)" by (rule last_in_set) simp
  then have l: "last (p # xs) \<notin> set (b # ys)" using assms(2) by auto
  have c: "chain f p xs b" "chain f b ys q" using assms(1) by (simp_all add: chain_append)
  have g: "chain ?g p xs (f b)" by (rule chain_end [OF c(1)]) (use assms(2) in auto)
  show ?thesis
  proof (cases ys)
    case Nil
    then show ?thesis using g c(2) by simp
  next
    case (Cons y zs)
    then have "chain f y zs q" "f b = y" using c(2) by auto
    moreover have "chain ?g y zs q = chain f y zs q"
      by (rule chain_cong) (use l Cons in auto)
    ultimately show ?thesis using g Cons by (simp add: chain_append)
  qed
qed

lemma chain_insert_front:
  "chain f p xs q \<Longrightarrow> b \<notin> set (p # xs) \<Longrightarrow> p \<notin> set xs \<Longrightarrow> chain (f(b := f p, p := b)) p (b # xs) q"
proof (cases xs)
  case (Cons x ys)
  assume a: "chain f p xs q" "b \<notin> set (p # xs)" "p \<notin> set xs"
  have "chain (f(b := f p, p := b)) x ys q = chain f x ys q" by (rule chain_cong) (use a Cons in auto)
  then show ?thesis using a Cons by auto
qed auto

lemma chain_insert_end:
  assumes "chain f p xs q" "distinct (p # xs)" "b \<notin> set (p # xs)"
  shows "chain (f(b := q, last (p # xs) := b)) p (xs @ [b]) q"
proof -
  have "last (p # xs) \<in> set (p # xs)" by (rule last_in_set) simp
  then have l: "last (p # xs) \<noteq> b" using assms(3) by auto
  have "chain (f(last (p # xs) := b)) p xs b" by (rule chain_end [OF assms(1,2)])
  moreover have "chain (f(b := q, last (p # xs) := b)) p xs b = chain (f(last (p # xs) := b)) p xs b"
    by (rule chain_cong) (use assms(3) in auto)
  ultimately show ?thesis using l by (simp add: chain_snoc)
qed

lemma chain_last: "chain f p xs q \<Longrightarrow> f (last (p # xs)) = q"
  by (induction xs arbitrary: p) auto

definition nx :: "buf list \<Rightarrow> nat \<Rightarrow> nat" where "nx bs i = b_next (bs ! i)"
definition pv :: "buf list \<Rightarrow> nat \<Rightarrow> nat" where "pv bs i = b_prev (bs ! i)"

definition lru :: "buf list \<Rightarrow> nat list \<Rightarrow> bool" where
  "lru bs xs \<longleftrightarrow> length bs = NBUF + 1 \<and> distinct xs \<and> set xs = {0..<NBUF} \<and>
     chain (nx bs) BHEAD xs BHEAD \<and> chain (pv bs) BHEAD (rev xs) BHEAD"

lemma nx_update [simp]: "i < length bs \<Longrightarrow> nx (bs[i := r]) = (nx bs)(i := b_next r)"
  by (auto simp: nx_def fun_eq_iff nth_list_update)

lemma pv_update [simp]: "i < length bs \<Longrightarrow> pv (bs[i := r]) = (pv bs)(i := b_prev r)"
  by (auto simp: pv_def fun_eq_iff nth_list_update)

lemma lru_update:
  assumes "lru bs xs" "i < length bs" "b_next r = b_next (bs ! i)" "b_prev r = b_prev (bs ! i)"
  shows "lru (bs[i := r]) xs"
proof -
  have "(nx bs)(i := b_next r) = nx bs" "(pv bs)(i := b_prev r) = pv bs"
    using assms(3,4) by (auto simp: nx_def pv_def)
  then show ?thesis using assms(1,2) by (simp add: lru_def)
qed

lemma lru_in: "lru bs xs \<Longrightarrow> b \<in> set xs \<longleftrightarrow> b < NBUF"
  by (auto simp: lru_def)

text \<open>The pointer updates at the end of \<^verbatim>\<open>brelse\<close> move the buffer to the front.\<close>

definition unlinked :: "nat \<Rightarrow> buf list \<Rightarrow> buf list" where
  "unlinked b bs =
     (let r = bs ! b; bs1 = bs[b_next r := (bs ! b_next r)\<lparr>b_prev := b_prev r\<rparr>]
      in bs1[b_prev r := (bs1 ! b_prev r)\<lparr>b_next := b_next r\<rparr>])"

definition inserted :: "nat \<Rightarrow> buf list \<Rightarrow> buf list" where
  "inserted b bs =
     (let h = bs ! BHEAD; bs1 = bs[b := (bs ! b)\<lparr>b_next := b_next h\<rparr>]; bs2 = bs1[b := (bs1 ! b)\<lparr>b_prev := BHEAD\<rparr>];
          bs3 = bs2[b_next h := (bs2 ! b_next h)\<lparr>b_prev := b\<rparr>]
      in bs3[BHEAD := (bs3 ! BHEAD)\<lparr>b_next := b\<rparr>])"

lemma links:
  assumes "lru bs (xs @ b # ys)"
  shows "b_next (bs ! b) = last (BHEAD # rev ys)" "b_prev (bs ! b) = last (BHEAD # xs)"
proof -
  have "chain (nx bs) b ys BHEAD" "chain (pv bs) b (rev xs) BHEAD"
    using assms by (simp_all add: lru_def chain_append)
  then show "b_next (bs ! b) = last (BHEAD # rev ys)" "b_prev (bs ! b) = last (BHEAD # xs)"
    by (cases ys; cases xs rule: rev_cases; simp add: nx_def pv_def)+
qed

lemma lru_lt: "lru bs xs \<Longrightarrow> set (BHEAD # xs) \<subseteq> {0..<length bs}"
  by (auto simp: lru_def BHEAD_def)

lemma BHEAD_notin: "lru bs xs \<Longrightarrow> BHEAD \<notin> set xs" "lru bs xs \<Longrightarrow> BHEAD < length bs"
  by (auto simp: lru_def BHEAD_def)

lemma unlinked_chain:
  assumes l: "lru bs (xs @ b # ys)"
  shows "chain (nx (unlinked b bs)) BHEAD (xs @ ys) BHEAD" "chain (pv (unlinked b bs)) BHEAD (rev (xs @ ys)) BHEAD"
    "length (unlinked b bs) = length bs"
proof -
  let ?n = "b_next (bs ! b)" and ?p = "b_prev (bs ! b)"
  have "?n \<in> set (BHEAD # rev ys)" "?p \<in> set (BHEAD # xs)"
    unfolding links [OF l] by (rule last_in_set, simp)+
  then have lt: "?n < length bs" "?p < length bs" using lru_lt [OF l] by auto
  have d: "distinct (BHEAD # xs @ b # ys)" "distinct (BHEAD # rev ys @ b # rev xs)"
    using l BHEAD_notin(1) [OF l] by (auto simp: lru_def)
  have f: "nx (unlinked b bs) = (nx bs)(?p := ?n)" "pv (unlinked b bs) = (pv bs)(?n := ?p)"
    using lt by (auto simp: unlinked_def Let_def nx_def pv_def fun_eq_iff nth_list_update)
  show "chain (nx (unlinked b bs)) BHEAD (xs @ ys) BHEAD"
    using chain_unlink [OF _ d(1), of "nx bs" BHEAD] l links(2) [OF l] unfolding f by (simp add: lru_def nx_def)
  show "chain (pv (unlinked b bs)) BHEAD (rev (xs @ ys)) BHEAD"
    using chain_unlink [OF _ d(2), of "pv bs" BHEAD] l links(1) [OF l] unfolding f by (simp add: lru_def pv_def)
  show "length (unlinked b bs) = length bs" by (simp add: unlinked_def Let_def)
qed

lemma inserted_chain:
  assumes c: "chain (nx bs) BHEAD xs BHEAD" "chain (pv bs) BHEAD (rev xs) BHEAD"
    and d: "distinct (BHEAD # b # xs)" and lt: "set (BHEAD # b # xs) \<subseteq> {0..<length bs}"
  shows "chain (nx (inserted b bs)) BHEAD (b # xs) BHEAD" "chain (pv (inserted b bs)) BHEAD (rev (b # xs)) BHEAD"
    "length (inserted b bs) = length bs"
proof -
  let ?n = "b_next (bs ! BHEAD)"
  have n: "?n = last (BHEAD # rev xs)" using c(1) by (cases xs) (simp_all add: nx_def)
  have "?n \<in> set (BHEAD # rev xs)" unfolding n by (rule last_in_set) simp
  then have nl: "?n < length bs" "?n \<noteq> b" using lt d by auto
  have f: "nx (inserted b bs) = (nx bs)(b := nx bs BHEAD, BHEAD := b)" "pv (inserted b bs) = (pv bs)(b := BHEAD, ?n := b)"
    using lt d nl by (auto simp: inserted_def Let_def nx_def pv_def fun_eq_iff nth_list_update)
  show "chain (nx (inserted b bs)) BHEAD (b # xs) BHEAD"
    unfolding f by (rule chain_insert_front [OF c(1)]) (use d in auto)
  show "chain (pv (inserted b bs)) BHEAD (rev (b # xs)) BHEAD"
    using chain_insert_end [OF c(2), of b] d unfolding f n by simp
  show "length (inserted b bs) = length bs" by (simp add: inserted_def Let_def)
qed

lemma lru_moved:
  assumes l: "lru bs xs" and b: "b < NBUF"
  shows "lru (inserted b (unlinked b bs)) (b # remove1 b xs)"
proof -
  obtain us vs where xs: "xs = us @ b # vs" using b lru_in [OF l] by (meson split_list)
  have d: "distinct (BHEAD # us @ b # vs)" using l BHEAD_notin(1) [OF l] by (auto simp: lru_def xs)
  note u = unlinked_chain [OF l [unfolded xs]]
  have "set (BHEAD # b # us @ vs) \<subseteq> {0..<length (unlinked b bs)}"
    using lru_lt [OF l] u(3) by (auto simp: xs)
  note i = inserted_chain [OF u(1,2) _ this]
  have "remove1 b xs = us @ vs" using d by (simp add: xs remove1_append)
  then show ?thesis using i d u(3) l by (auto simp: lru_def xs)
qed

lemma bscan_chain:
  assumes "BHEAD \<notin> set xs" "chain (\<lambda>i. dir (bcache s ! i)) p xs BHEAD"
  shows "length xs < fuel \<Longrightarrow>
    bscan fuel dir P (dir (bcache s ! p)) w s = Ret (find (\<lambda>i. P (bcache s ! i)) xs) s w"
  using assms
proof (induction xs arbitrary: fuel p)
  case Nil
  then show ?case by (cases fuel) (simp_all add: kapply)
next
  case (Cons x xs)
  then show ?case by (cases fuel) (simp_all add: kapply)
qed

section \<open>Contents of the cache\<close>

text \<open>What a buffer holds, apart from its place in the list.\<close>

definition core :: "buf \<Rightarrow> bool \<times> uint \<times> uint \<times> uint \<times> byte list" where
  "core r = (b_valid r, b_dev r, b_blockno r, b_refcnt r, b_data r)"

definition keys :: "buf list \<Rightarrow> (uint \<times> uint) list" where
  "keys bs = map (\<lambda>r. (b_dev r, b_blockno r)) (take NBUF bs)"

definition cached :: "uint \<Rightarrow> kernel \<Rightarrow> uint \<Rightarrow> nat option" where
  "cached dev s bno = find_idx (\<lambda>k. k = (dev, bno)) (keys (bcache s))"

definition view :: "uint \<Rightarrow> kernel \<Rightarrow> uint \<Rightarrow> byte list" where
  "view dev s bno = (case cached dev s bno of Some b \<Rightarrow> b_data (bcache s ! b) | None \<Rightarrow> disk s bno)"

definition refs :: "uint \<Rightarrow> kernel \<Rightarrow> uint \<Rightarrow> uint" where
  "refs dev s bno = (case cached dev s bno of Some b \<Rightarrow> b_refcnt (bcache s ! b) | None \<Rightarrow> 0)"

text \<open>
  A well-formed cache of the device \<open>dev\<close>: the list is in order, no block has two buffers, a buffer of
  the device is valid, and one without references agrees with the disk. The other buffers are unused.
\<close>

definition buf_ok :: "uint \<Rightarrow> (uint \<Rightarrow> byte list) \<Rightarrow> buf \<Rightarrow> bool" where
  "buf_ok dev d r \<longleftrightarrow>
     (if b_dev r = dev then b_valid r \<and> (b_refcnt r = 0 \<longrightarrow> b_data r = d (b_blockno r)) else b_refcnt r = 0)"

definition cache_ok :: "uint \<Rightarrow> kernel \<Rightarrow> bool" where
  "cache_ok dev s \<longleftrightarrow> (\<exists>xs. lru (bcache s) xs) \<and> (\<forall>i < NBUF. buf_ok dev (disk s) (bcache s ! i)) \<and>
     (\<forall>i < NBUF. \<forall>j < NBUF. b_dev (bcache s ! i) = dev \<and> b_dev (bcache s ! j) = dev \<and>
        b_blockno (bcache s ! i) = b_blockno (bcache s ! j) \<longrightarrow> i = j)"

text \<open>The process \<open>p\<close> runs with all spinlocks free.\<close>

definition quiet :: "nat \<Rightarrow> kernel \<Rightarrow> bool" where
  "quiet p s \<longleftrightarrow> calm (hw s) \<and> (\<forall>lk. lock_free lk (hw s)) \<and> cpu_proc (me (hw s)) = Some p \<and>
     p < NPROC \<and> length (procs s) = NPROC"

text \<open>It holds the buffers \<open>H\<close>, which maps block numbers to buffers, and nobody holds another.\<close>

definition bheld :: "uint \<Rightarrow> nat \<Rightarrow> (uint \<rightharpoonup> nat) \<Rightarrow> kernel \<Rightarrow> bool" where
  "bheld dev p H s \<longleftrightarrow>
     (\<forall>bno b. H bno = Some b \<longrightarrow> cached dev s bno = Some b \<and>
        sl_locked (sleeplocks s (BufSL b)) \<noteq> 0 \<and> sl_pid (sleeplocks s (BufSL b)) = p_pid (procs s ! p)) \<and>
     (\<forall>b < NBUF. b \<notin> ran H \<longrightarrow> sl_locked (sleeplocks s (BufSL b)) = 0)"

definition bio :: "uint \<Rightarrow> nat \<Rightarrow> (uint \<rightharpoonup> nat) \<Rightarrow> kernel \<Rightarrow> bool" where
  "bio dev p H s \<longleftrightarrow> quiet p s \<and> cache_ok dev s \<and> bheld dev p H s"

lemma quiet_runs: "quiet p s \<Longrightarrow> runs_proc p lk s"
  by (simp add: quiet_def runs_proc_def procs_free_def)

lemma cache_length: "cache_ok dev s \<Longrightarrow> length (bcache s) = NBUF + 1"
  by (auto simp: cache_ok_def lru_def)

lemma cached_lt: "cached dev s bno = Some b \<Longrightarrow> b < NBUF \<and> b < length (bcache s)"
  by (auto simp: cached_def keys_def find_idx_Some)

lemma cached_key: "cached dev s bno = Some b \<Longrightarrow> b_dev (bcache s ! b) = dev \<and> b_blockno (bcache s ! b) = bno"
  by (auto simp: cached_def keys_def find_idx_Some)

lemma cached_iff:
  assumes "cache_ok dev s"
  shows "cached dev s bno = Some b \<longleftrightarrow> b < NBUF \<and> b_dev (bcache s ! b) = dev \<and> b_blockno (bcache s ! b) = bno"
proof
  assume r: "b < NBUF \<and> b_dev (bcache s ! b) = dev \<and> b_blockno (bcache s ! b) = bno"
  have "\<not> (b_dev (bcache s ! j) = dev \<and> b_blockno (bcache s ! j) = bno)" if "j < b" for j
    using assms r that unfolding cache_ok_def by (metis less_trans nat_neq_iff)
  then show "cached dev s bno = Some b"
    using r cache_length [OF assms] by (auto simp: cached_def keys_def find_idx_Some)
qed (auto dest: cached_lt cached_key)

lemma cached_None:
  "cache_ok dev s \<Longrightarrow> cached dev s bno = None \<longleftrightarrow>
     (\<forall>i < NBUF. \<not> (b_dev (bcache s ! i) = dev \<and> b_blockno (bcache s ! i) = bno))"
  using cached_iff [of dev s bno] by (metis not_None_eq)

text \<open>Only the contents of the buffers matter for these notions.\<close>

lemma core_cong:
  assumes "map core (bcache t) = map core (bcache s)"
  shows "keys (bcache t) = keys (bcache s)" "cached dev t = cached dev s" "refs dev t = refs dev s"
    "disk t = disk s \<Longrightarrow> view dev t = view dev s"
    "disk t = disk s \<Longrightarrow> lru (bcache t) xs \<Longrightarrow> cache_ok dev s \<Longrightarrow> cache_ok dev t"
proof -
  have l: "length (bcache t) = length (bcache s)" using assms by (metis length_map)
  have c: "core (bcache t ! i) = core (bcache s ! i)" if "i < length (bcache s)" for i
    using assms that l by (metis nth_map)
  show k: "keys (bcache t) = keys (bcache s)"
    unfolding keys_def by (rule nth_equalityI) (use l c in \<open>auto simp: core_def\<close>)
  then show k': "cached dev t = cached dev s" by (simp add: cached_def fun_eq_iff)
  show "refs dev t = refs dev s"
    unfolding fun_eq_iff refs_def k' by (auto split: option.splits dest!: cached_lt c simp: core_def)
  show "view dev t = view dev s" if "disk t = disk s"
    unfolding fun_eq_iff view_def k' by (auto split: option.splits dest!: cached_lt c simp: core_def that)
  show "cache_ok dev t" if a: "disk t = disk s" "lru (bcache t) xs" "cache_ok dev s"
  proof -
    have "core (bcache t ! i) = core (bcache s ! i)" if "i < NBUF" for i
      using c cache_length [OF a(3)] that by simp
    then have "b_dev (bcache t ! i) = b_dev (bcache s ! i)" "b_blockno (bcache t ! i) = b_blockno (bcache s ! i)"
      "buf_ok dev (disk t) (bcache t ! i) = buf_ok dev (disk s) (bcache s ! i)" if "i < NBUF" for i
      using that by (simp_all add: core_def buf_ok_def a(1))
    then show ?thesis using a(2,3) unfolding cache_ok_def by auto
  qed
qed

lemma core_links [simp]: "core (r\<lparr>b_next := x\<rparr>) = core r" "core (r\<lparr>b_prev := x\<rparr>) = core r"
  by (simp_all add: core_def)

lemma core_update: "core r = core (bs ! i) \<Longrightarrow> map core (bs[i := r]) = map core bs"
  by (cases "i < length bs") (simp_all add: map_update list_update_same_conv list_update_beyond)

lemma core_moved: "map core (inserted b (unlinked b bs)) = map core bs"
  by (simp only: inserted_def unlinked_def Let_def core_update core_links)

text \<open>A change of one buffer that keeps its block and its place.\<close>

lemma buf_update:
  assumes ok: "cache_ok dev s" and b: "cached dev s bno = Some b"
    and r: "b_dev r = dev" "b_blockno r = bno" "b_valid r" "b_next r = b_next (bcache s ! b)" "b_prev r = b_prev (bcache s ! b)"
    and t: "bcache t = (bcache s)[b := r]" "\<And>x. x \<noteq> bno \<Longrightarrow> disk t x = disk s x"
    and clean: "b_refcnt r = 0 \<Longrightarrow> b_data r = disk t bno"
  shows "cache_ok dev t" "cached dev t = cached dev s" "view dev t = (view dev s)(bno := b_data r)"
    "refs dev t = (refs dev s)(bno := b_refcnt r)"
proof -
  note lt = cached_lt [OF b] and key = cached_key [OF b]
  have "keys (bcache t) = (keys (bcache s))[b := (dev, bno)]"
    unfolding keys_def t(1) using lt r by (simp add: take_update_swap map_update)
  also have "\<dots> = keys (bcache s)" using lt key by (simp add: keys_def list_update_same_conv)
  finally show c: "cached dev t = cached dev s" by (simp add: cached_def fun_eq_iff)
  have d: "x = bno" if "cached dev s x = Some b" for x using cached_key [OF that] key by simp
  show "view dev t = (view dev s)(bno := b_data r)"
    unfolding fun_eq_iff view_def c using b t lt by (auto split: option.splits simp: nth_list_update dest: d)
  show "refs dev t = (refs dev s)(bno := b_refcnt r)"
    unfolding fun_eq_iff refs_def c using b t lt by (auto split: option.splits simp: nth_list_update dest: d)
  obtain xs where "lru (bcache s) xs" using ok by (auto simp: cache_ok_def)
  then have l: "lru (bcache t) xs" unfolding t(1) by (rule lru_update) (use lt r in simp_all)
  have i: "bcache t ! i = (if i = b then r else bcache s ! i)" for i unfolding t(1) using lt by (simp add: nth_list_update)
  have k: "b_dev (bcache t ! i) = b_dev (bcache s ! i)" "b_blockno (bcache t ! i) = b_blockno (bcache s ! i)" for i
    unfolding i using r key by simp_all
  have "buf_ok dev (disk t) (bcache t ! j)" if j: "j < NBUF" for j
  proof (cases "j = b")
    case True
    then show ?thesis using r clean by (simp add: buf_ok_def i)
  next
    case False
    then have "b_dev (bcache s ! j) = dev \<Longrightarrow> b_blockno (bcache s ! j) \<noteq> bno"
      using cached_iff [OF ok, of bno j] j b by auto
    then show ?thesis using ok j False t(2) by (auto simp: cache_ok_def buf_ok_def i)
  qed
  then show "cache_ok dev t" using l ok unfolding cache_ok_def k by blast
qed

text \<open>An unused buffer takes the place of a block that has none.\<close>

lemma buf_recycle:
  assumes ok: "cache_ok dev s" and n: "cached dev s bno = None" and b: "b < NBUF" "b_refcnt (bcache s ! b) = 0"
    and r: "b_dev r = dev" "b_blockno r = bno" "b_valid r" "b_refcnt r = 1" "b_data r = disk s bno"
      "b_next r = b_next (bcache s ! b)" "b_prev r = b_prev (bcache s ! b)"
    and t: "bcache t = (bcache s)[b := r]" "disk t = disk s"
  shows "cache_ok dev t" "cached dev t bno = Some b" "\<And>x. refs dev s x \<noteq> 0 \<Longrightarrow> cached dev t x = cached dev s x"
    "view dev t = view dev s" "refs dev t = (refs dev s)(bno := 1)"
proof -
  have lt: "b < length (bcache s)" using b cache_length [OF ok] by simp
  have i: "bcache t ! i = (if i = b then r else bcache s ! i)" for i unfolding t(1) using lt by (simp add: nth_list_update)
  obtain xs where "lru (bcache s) xs" using ok by (auto simp: cache_ok_def)
  then have l: "lru (bcache t) xs" unfolding t(1) by (rule lru_update) (use lt r in simp_all)
  have nb: "\<not> (b_dev (bcache s ! i) = dev \<and> b_blockno (bcache s ! i) = bno)" if "i < NBUF" for i
    using n that unfolding cached_None [OF ok] by blast
  have "buf_ok dev (disk t) (bcache t ! j)" if "j < NBUF" for j
    using ok that r by (simp add: cache_ok_def i t(2)) (simp add: buf_ok_def)
  moreover have "j = k" if "j < NBUF" "k < NBUF" "b_dev (bcache t ! j) = dev" "b_dev (bcache t ! k) = dev"
      "b_blockno (bcache t ! j) = b_blockno (bcache t ! k)" for j k
  proof (cases "j = b \<or> k = b")
    case True
    then show ?thesis using nb [OF that(1)] nb [OF that(2)] that(3-) r by (cases "j = b"; cases "k = b") (simp_all add: i)
  next
    case False
    then show ?thesis using ok that unfolding cache_ok_def i by simp
  qed
  ultimately show okt: "cache_ok dev t" using l unfolding cache_ok_def by blast
  show c: "cached dev t bno = Some b" using cached_iff [OF okt] b r by (simp add: i)
  have o: "cached dev t x = (if cached dev s x = Some b then None else cached dev s x)" if "x \<noteq> bno" for x
  proof -
    have "cached dev t x = Some a \<longleftrightarrow> cached dev s x = Some a \<and> a \<noteq> b" for a
      unfolding cached_iff [OF okt] cached_iff [OF ok] i using that r by auto
    then show ?thesis by (metis not_None_eq option.inject)
  qed
  have bd: "refs dev s x = 0" "b_data (bcache s ! b) = disk s x" if "cached dev s x = Some b" for x
    using that ok b cached_key [OF that] by (auto simp: refs_def cache_ok_def buf_ok_def)
  show "cached dev t x = cached dev s x" if "refs dev s x \<noteq> 0" for x
    using o [of x] bd(1) [of x] that n by (cases "x = bno") (auto simp: refs_def)
  have "view dev t x = view dev s x \<and> refs dev t x = (if x = bno then 1 else refs dev s x)" for x
  proof (cases "x = bno")
    case True
    then show ?thesis using c n r t(2) by (simp add: view_def refs_def i)
  next
    case False
    show ?thesis
    proof (cases "cached dev s x")
      case None
      then show ?thesis using False o [OF False] t(2) by (simp add: view_def refs_def)
    next
      case (Some a)
      then show ?thesis using False o [OF False] t(2) bd [of x] by (cases "a = b") (simp_all add: view_def refs_def i)
    qed
  qed
  then show "view dev t = view dev s" "refs dev t = (refs dev s)(bno := 1)" by (simp_all add: fun_eq_iff)
qed

section \<open>The operations\<close>

lemma bcachelock:
  assumes "quiet p s"
  shows "hw u = hw s \<Longrightarrow> acquire BcacheLock w u = Ret () (u\<lparr>hw := enter BcacheLock (hw s)\<rparr>) w"
    and "hw u = enter BcacheLock (hw s) \<Longrightarrow> release BcacheLock w u = Ret () (u\<lparr>hw := hw s\<rparr>) w"
proof -
  have h: "calm (hw s)" "lock_free BcacheLock (hw s)" using assms by (simp_all add: quiet_def)
  show "acquire BcacheLock w u = Ret () (u\<lparr>hw := enter BcacheLock (hw s)\<rparr>) w" if "hw u = hw s"
    using acquire_free [of BcacheLock u w] h that by simp
  show "release BcacheLock w u = Ret () (u\<lparr>hw := hw s\<rparr>) w" if "hw u = enter BcacheLock (hw s)"
    by (rule release_enter) (use that h in simp_all)
qed

lemma scans:
  assumes "lru (bcache s) xs" "bcache u = bcache s"
  shows "bscan (Suc NBUF) b_next P (b_next (bcache s ! BHEAD)) w u = Ret (find (\<lambda>i. P (bcache s ! i)) xs) u w"
    "bscan (Suc NBUF) b_prev P (b_prev (bcache s ! BHEAD)) w u = Ret (find (\<lambda>i. P (bcache s ! i)) (rev xs)) u w"
proof -
  have l: "length xs = NBUF" using assms(1) distinct_card [of xs] by (simp add: lru_def)
  show "bscan (Suc NBUF) b_next P (b_next (bcache s ! BHEAD)) w u = Ret (find (\<lambda>i. P (bcache s ! i)) xs) u w"
    using bscan_chain [of xs b_next u BHEAD "Suc NBUF" P w] BHEAD_notin [OF assms(1)] assms l
    by (simp add: lru_def nx_def [abs_def] del: bscan.simps)
  show "bscan (Suc NBUF) b_prev P (b_prev (bcache s ! BHEAD)) w u = Ret (find (\<lambda>i. P (bcache s ! i)) (rev xs)) u w"
    using bscan_chain [of "rev xs" b_prev u BHEAD "Suc NBUF" P w] BHEAD_notin [OF assms(1)] assms l
    by (simp add: lru_def pv_def [abs_def] del: bscan.simps)
qed

definition sl_take :: "nat \<Rightarrow> nat \<Rightarrow> kernel \<Rightarrow> kernel" where
  "sl_take p b s = s\<lparr>sleeplocks := (sleeplocks s)(BufSL b := taken_by (p_pid (procs s ! p)) (sleeplocks s (BufSL b)))\<rparr>"

lemma bget_hit:
  assumes q: "quiet p s" and l: "lru (bcache s) xs"
    and f: "find (\<lambda>i. b_dev (bcache s ! i) = dev \<and> b_blockno (bcache s ! i) = bno) xs = Some b"
    and free: "sl_locked (sleeplocks s (BufSL b)) = 0"
  defines "u \<equiv> s\<lparr>bcache := (bcache s)[b := (bcache s ! b)\<lparr>b_refcnt := b_refcnt (bcache s ! b) + 1\<rparr>]\<rparr>"
  shows "bget dev bno w s = Ret b (sl_take p b u) w"
proof -
  have "quiet p u" using q by (simp add: quiet_def u_def)
  then have "acquiresleep (BufSL b) w u = Ret () (sl_take p b u) w" for w
    unfolding sl_take_def by (rule acquiresleep_free [OF quiet_runs]) (simp add: u_def free)
  then show ?thesis
    using f
    by (simp add: bget_def kbind_apply bcachelock [OF q] scans [OF l] get_buf_apply upd_buf_apply kret_apply u_def
        del: bscan.simps)
qed

lemma bget_miss:
  assumes q: "quiet p s" and l: "lru (bcache s) xs"
    and n: "find (\<lambda>i. b_dev (bcache s ! i) = dev \<and> b_blockno (bcache s ! i) = bno) xs = None"
    and f: "find (\<lambda>i. b_refcnt (bcache s ! i) = 0) (rev xs) = Some b"
    and free: "sl_locked (sleeplocks s (BufSL b)) = 0"
  defines "u \<equiv> s\<lparr>bcache := (bcache s)[b := (bcache s ! b)\<lparr>b_dev := dev, b_blockno := bno, b_valid := False, b_refcnt := 1\<rparr>]\<rparr>"
  shows "bget dev bno w s = Ret b (sl_take p b u) w"
proof -
  have "quiet p u" using q by (simp add: quiet_def u_def)
  then have "acquiresleep (BufSL b) w u = Ret () (sl_take p b u) w" for w
    unfolding sl_take_def by (rule acquiresleep_free [OF quiet_runs]) (simp add: u_def free)
  then show ?thesis
    using f n
    by (simp add: bget_def kbind_apply bcachelock [OF q] scans [OF l] get_buf_apply upd_buf_apply kret_apply u_def
        del: bscan.simps)
qed

lemma find_in: "find P xs = Some x \<Longrightarrow> x \<in> set xs \<and> P x"
  by (auto simp: find_Some_iff)

lemma find_skip: "\<forall>x \<in> set xs. \<not> P x \<Longrightarrow> P y \<Longrightarrow> find P (xs @ y # ys) = Some y"
  by (induction xs) auto

lemma find_unique:
  assumes "x \<in> set xs" "P x" "\<And>y. y \<in> set xs \<Longrightarrow> P y \<Longrightarrow> y = x"
  shows "find P xs = Some x"
proof (cases "find P xs")
  case None
  then show ?thesis using assms(1,2) by (simp add: find_None_iff)
next
  case (Some y)
  then have "y \<in> set xs" "P y" by (auto simp: find_Some_iff)
  then show ?thesis using Some assms(3) by simp
qed

lemma find_cached:
  assumes ok: "cache_ok dev s" and l: "lru (bcache s) xs"
  shows "find (\<lambda>i. b_dev (bcache s ! i) = dev \<and> b_blockno (bcache s ! i) = bno) xs = cached dev s bno"
proof (cases "cached dev s bno")
  case None
  have "\<forall>i < NBUF. \<not> (b_dev (bcache s ! i) = dev \<and> b_blockno (bcache s ! i) = bno)"
    using None unfolding cached_None [OF ok] .
  then show ?thesis unfolding None find_None_iff using lru_in [OF l] by blast
next
  case (Some b)
  show ?thesis unfolding Some
  proof (rule find_unique)
    show "b \<in> set xs" "b_dev (bcache s ! b) = dev \<and> b_blockno (bcache s ! b) = bno"
      using cached_lt [OF Some] cached_key [OF Some] lru_in [OF l] by auto
    show "y = b" if "y \<in> set xs" "b_dev (bcache s ! y) = dev \<and> b_blockno (bcache s ! y) = bno" for y
      using cached_iff [OF ok, of bno y] lru_in [OF l] that Some by auto
  qed
qed

text \<open>A buffer without references is found whenever fewer than \<open>NBUF\<close> blocks have some.\<close>

lemma find_victim:
  assumes ok: "cache_ok dev s" and l: "lru (bcache s) xs" and few: "card {x. refs dev s x \<noteq> 0} < NBUF"
  obtains b where "find (\<lambda>i. b_refcnt (bcache s ! i) = 0) (rev xs) = Some b" "b < NBUF" "b_refcnt (bcache s ! b) = 0"
proof (cases "find (\<lambda>i. b_refcnt (bcache s ! i) = 0) (rev xs)")
  case None
  then have nz: "b_refcnt (bcache s ! i) \<noteq> 0" if "i < NBUF" for i
    using lru_in [OF l] that by (auto simp: find_None_iff)
  have c: "b_dev (bcache s ! i) = dev" if "i < NBUF" for i
    using ok nz [OF that] that by (auto simp: cache_ok_def buf_ok_def split: if_splits)
  have k: "cached dev s (b_blockno (bcache s ! i)) = Some i" if "i < NBUF" for i
    using cached_iff [OF ok] c that by simp
  let ?f = "\<lambda>i. b_blockno (bcache s ! i)"
  have "inj_on ?f {0..<NBUF}" by (rule inj_onI) (metis atLeastLessThan_iff k option.inject)
  moreover have "?f ` {0..<NBUF} \<subseteq> {x. refs dev s x \<noteq> 0}" using k nz by (auto simp: refs_def)
  moreover have "finite {x. refs dev s x \<noteq> 0}" by (rule finite_subset [OF subset_UNIV]) simp
  ultimately have "NBUF \<le> card {x. refs dev s x \<noteq> 0}" using card_mono [of _ "?f ` {0..<NBUF}"] by (simp add: card_image)
  then show ?thesis using few by simp
next
  case (Some b)
  then show ?thesis using that [OF Some] find_in [OF Some] lru_in [OF l] by simp
qed

section \<open>The cache as a store of blocks\<close>

text \<open>What the cache promises to its clients, without buffers or lists.\<close>

record store =
  st_view :: "uint \<Rightarrow> byte list"
  st_refs :: "uint \<Rightarrow> uint"
  st_disk :: "uint \<Rightarrow> byte list"
  st_writes :: "(uint \<times> byte list) list"
  st_log :: log

definition store :: "uint \<Rightarrow> kernel \<Rightarrow> store" where
  "store dev s = \<lparr>st_view = view dev s, st_refs = refs dev s, st_disk = disk s, st_writes = disk_writes s, st_log = klog s\<rparr>"

definition st_ref :: "uint \<Rightarrow> store \<Rightarrow> store" where
  "st_ref bno a = a\<lparr>st_refs := (st_refs a)(bno := st_refs a bno + 1)\<rparr>"

definition st_unref :: "uint \<Rightarrow> store \<Rightarrow> store" where
  "st_unref bno a = a\<lparr>st_refs := (st_refs a)(bno := st_refs a bno - 1)\<rparr>"

definition st_put :: "uint \<Rightarrow> byte list \<Rightarrow> store \<Rightarrow> store" where
  "st_put bno d a = a\<lparr>st_view := (st_view a)(bno := d)\<rparr>"

definition st_sync :: "uint \<Rightarrow> store \<Rightarrow> store" where
  "st_sync bno a = a\<lparr>st_disk := (st_disk a)(bno := st_view a bno), st_writes := st_writes a @ [(bno, st_view a bno)]\<rparr>"

lemma store_simps [simp]:
  "st_view (store dev s) = view dev s" "st_refs (store dev s) = refs dev s" "st_disk (store dev s) = disk s"
  "st_writes (store dev s) = disk_writes s" "st_log (store dev s) = klog s"
  by (simp_all add: store_def)

lemma store_cong:
  assumes "bcache t = bcache u" "disk t = disk u"
  shows "cached dev t = cached dev u" "cache_ok dev t = cache_ok dev u" "view dev t = view dev u" "refs dev t = refs dev u"
    "disk_writes t = disk_writes u \<Longrightarrow> klog t = klog u \<Longrightarrow> store dev t = store dev u"
proof -
  have e: "map core (bcache t) = map core (bcache u)" using assms by simp
  show "cached dev t = cached dev u" "view dev t = view dev u" "refs dev t = refs dev u" using core_cong [OF e] assms by auto
  then show "disk_writes t = disk_writes u \<Longrightarrow> klog t = klog u \<Longrightarrow> store dev t = store dev u"
    using assms by (simp add: store_def)
  show "cache_ok dev t = cache_ok dev u" unfolding cache_ok_def assms by (rule refl)
qed

lemma bheldD:
  assumes "bheld dev p H s" "H bno = Some b"
  shows "cached dev s bno = Some b" "sl_locked (sleeplocks s (BufSL b)) \<noteq> 0"
    "sl_pid (sleeplocks s (BufSL b)) = p_pid (procs s ! p)"
  using assms unfolding bheld_def by blast+

lemma held_cached: "bio dev p H s \<Longrightarrow> H bno = Some b \<Longrightarrow> cached dev s bno = Some b"
  unfolding bio_def by (blast dest: bheldD)

lemma held_data: "bio dev p H s \<Longrightarrow> H bno = Some b \<Longrightarrow> b_data (bcache s ! b) = view dev s bno"
  by (auto simp: bio_def bheld_def view_def)

lemma bheld_take:
  assumes h: "bheld dev p H s" and b: "cached dev u bno = Some b" and n: "H bno = None"
    and c: "\<And>x. x \<in> dom H \<Longrightarrow> cached dev u x = cached dev s x" and e: "sleeplocks u = sleeplocks s" "procs u = procs s"
  shows "bheld dev p (H(bno \<mapsto> b)) (sl_take p b u)"
proof -
  have [simp]: "cached dev (sl_take p b u) = cached dev u" by (simp add: cached_def fun_eq_iff sl_take_def)
  have k: "H x = Some b \<Longrightarrow> False" for x
  proof -
    assume x: "H x = Some b"
    then have "cached dev u x = Some b" using bheldD(1) [OF h x] c [of x] by auto
    then have "x = bno" using cached_key b by metis
    then show False using x n by simp
  qed
  have t: "sleeplocks (sl_take p b u) (BufSL a) =
      (if a = b then taken_by (p_pid (procs s ! p)) (sleeplocks s (BufSL a)) else sleeplocks s (BufSL a))"
    "procs (sl_take p b u) = procs s" for a
    by (simp_all add: sl_take_def e)
  have "cached dev u x = Some a \<and> sl_locked (sleeplocks (sl_take p b u) (BufSL a)) \<noteq> 0 \<and>
      sl_pid (sleeplocks (sl_take p b u) (BufSL a)) = p_pid (procs s ! p)" if x: "(H(bno \<mapsto> b)) x = Some a" for x a
  proof (cases "x = bno")
    case True
    then have a: "a = b" using x by simp
    show ?thesis unfolding a True using b t(1) [of b] by (simp add: taken_by_def)
  next
    case False
    then have y: "H x = Some a" using x by simp
    then have "a \<noteq> b" using k by blast
    then show ?thesis using bheldD [OF h y] c [of x] y by (simp add: t domI)
  qed
  moreover have "sl_locked (sleeplocks (sl_take p b u) (BufSL a)) = 0" if "a < NBUF" "a \<notin> ran (H(bno \<mapsto> b))" for a
  proof -
    have "a \<noteq> b" "a \<notin> ran H" using that(2) n by auto
    then show ?thesis using h that(1) by (simp add: t bheld_def)
  qed
  ultimately show ?thesis unfolding bheld_def t(2) by simp
qed

lemma sl_take_simps [simp]:
  "bcache (sl_take p b u) = bcache u" "disk (sl_take p b u) = disk u" "disk_writes (sl_take p b u) = disk_writes u"
  "klog (sl_take p b u) = klog u" "hw (sl_take p b u) = hw u" "procs (sl_take p b u) = procs u" "quiet q (sl_take p b u) = quiet q u"
  by (simp_all add: sl_take_def quiet_def)

lemma free_buf:
  assumes "bheld dev p H s" "b < NBUF" "b \<notin> ran H" shows "sl_locked (sleeplocks s (BufSL b)) = 0"
  using assms by (auto simp: bheld_def)

lemma bread_hit:
  assumes s: "bio dev p H s" and n: "H bno = None" and c: "cached dev s bno = Some b" and m: "refs dev s bno \<noteq> - 1"
  shows "\<exists>t. bread dev bno w s = Ret b t w \<and> bio dev p (H(bno \<mapsto> b)) t \<and> store dev t = st_ref bno (store dev s)"
proof -
  let ?r = "(bcache s ! b)\<lparr>b_refcnt := b_refcnt (bcache s ! b) + 1\<rparr>"
  let ?u = "s\<lparr>bcache := (bcache s)[b := ?r]\<rparr>"
  have q: "quiet p s" and ok: "cache_ok dev s" and h: "bheld dev p H s" using s by (simp_all add: bio_def)
  obtain xs where l: "lru (bcache s) xs" using ok by (auto simp: cache_ok_def)
  note lt = cached_lt [OF c] and key = cached_key [OF c]
  have v: "b_valid (bcache s ! b)" using ok lt key by (auto simp: cache_ok_def buf_ok_def)
  have nz: "b_refcnt (bcache s ! b) + 1 \<noteq> 0" using m c by (auto simp: refs_def eq_neg_iff_add_eq_0)
  note u = buf_update [OF ok c, of ?r ?u]
  have u': "cache_ok dev ?u" "cached dev ?u = cached dev s" "view dev ?u = (view dev s)(bno := b_data ?r)"
    "refs dev ?u = (refs dev s)(bno := b_refcnt ?r)"
    by (rule u; use key v nz in simp)+
  have "b \<notin> ran H"
  proof
    assume "b \<in> ran H"
    then obtain x where "H x = Some b" by (auto simp: ran_def)
    then have "cached dev s x = Some b" by (rule bheldD(1) [OF h])
    then show False using cached_key [of dev s x b] key n \<open>H x = Some b\<close> by auto
  qed
  then have free: "sl_locked (sleeplocks s (BufSL b)) = 0" using free_buf [OF h] lt by blast
  have "bget dev bno w s = Ret b (sl_take p b ?u) w"
    by (rule bget_hit [OF q l _ free]) (simp add: find_cached [OF ok l] c)
  then have "bread dev bno w s = Ret b (sl_take p b ?u) w"
    using v lt by (simp add: bread_def kapply)
  moreover have "bheld dev p (H(bno \<mapsto> b)) (sl_take p b ?u)"
    by (rule bheld_take [OF h _ n]) (simp_all add: u' c)
  moreover have "cache_ok dev (sl_take p b ?u)" using u'(1) by (simp add: store_cong(2) [of "sl_take p b ?u" ?u])
  moreover have "(view dev s)(bno := b_data ?r) = view dev s" using c by (auto simp: view_def fun_eq_iff)
  then have "store dev ?u = st_ref bno (store dev s)"
    unfolding store_def st_ref_def u'(3,4) using c by (simp add: refs_def)
  moreover have "store dev (sl_take p b ?u) = store dev ?u" by (rule store_cong(5)) simp_all
  moreover have "quiet p (sl_take p b ?u)" using q by (simp add: quiet_def)
  ultimately show ?thesis unfolding bio_def by metis
qed

lemma bheld_cong:
  assumes "bheld dev p H s" "cached dev t = cached dev s" "sleeplocks t = sleeplocks s" "procs t = procs s"
  shows "bheld dev p H t"
  using assms by (simp add: bheld_def)

lemma bread_evict:
  assumes s: "bio dev p H s" and n: "H bno = None" and c: "cached dev s bno = None" and l: "lru (bcache s) xs"
    and f: "find (\<lambda>i. b_refcnt (bcache s ! i) = 0) (rev xs) = Some b" and used: "\<And>x. x \<in> dom H \<Longrightarrow> refs dev s x \<noteq> 0"
  shows "\<exists>t. bread dev bno w s = Ret b t w \<and> bio dev p (H(bno \<mapsto> b)) t \<and> store dev t = st_ref bno (store dev s) \<and>
    lru (bcache t) xs"
proof -
  have q: "quiet p s" and ok: "cache_ok dev s" and h: "bheld dev p H s" using s by (simp_all add: bio_def)
  have b: "b < NBUF" "b_refcnt (bcache s ! b) = 0"
    using find_in [OF f] lru_in [OF l] by simp_all
  have lt: "b < length (bcache s)" using b cache_length [OF ok] by simp
  have "b \<notin> ran H"
  proof
    assume "b \<in> ran H"
    then obtain x where x: "H x = Some b" by (auto simp: ran_def)
    then show False using bheldD(1) [OF h x] used [of x] b by (auto simp: refs_def)
  qed
  then have free: "sl_locked (sleeplocks s (BufSL b)) = 0" using free_buf [OF h] b by blast
  let ?r = "(bcache s ! b)\<lparr>b_dev := dev, b_blockno := bno, b_valid := False, b_refcnt := 1\<rparr>"
  let ?q = "(bcache s ! b)\<lparr>b_dev := dev, b_blockno := bno, b_refcnt := 1, b_data := disk s bno, b_valid := True\<rparr>"
  let ?u = "s\<lparr>bcache := (bcache s)[b := ?r]\<rparr>"
  let ?t = "(sl_take p b ?u)\<lparr>bcache := (bcache s)[b := ?q]\<rparr>"
  have "bget dev bno w s = Ret b (sl_take p b ?u) w"
    by (rule bget_miss [OF q l _ f free]) (simp add: find_cached [OF ok l] c)
  then have e: "bread dev bno w s = Ret b ?t w"
    using lt by (simp add: bread_def kapply disk_rw_def)
  have bt: "bcache ?t = (bcache s)[b := ?q]" "disk ?t = disk s" by simp_all
  note u = buf_recycle [OF ok c b _ _ _ _ _ _ _ bt]
  have u1: "cache_ok dev ?t" and u2: "cached dev ?t bno = Some b" and u4: "view dev ?t = view dev s"
    and u5: "refs dev ?t = (refs dev s)(bno := 1)" by (rule u; simp)+
  have u3: "cached dev ?t x = cached dev s x" if "x \<in> dom H" for x by (rule u(3) [OF _ _ _ _ _ _ _ used [OF that]]) simp_all
  let ?v = "s\<lparr>bcache := (bcache s)[b := ?q]\<rparr>"
  have v: "cached dev ?t = cached dev ?v" by (rule store_cong) simp_all
  have "bheld dev p (H(bno \<mapsto> b)) (sl_take p b ?v)"
    by (rule bheld_take [OF h _ n]) (use u2 u3 v in simp_all)
  moreover have "sl_take p b ?v = ?t" by (simp add: sl_take_def)
  moreover have "cached dev s bno = None \<Longrightarrow> refs dev s bno + 1 = 1" by (simp add: refs_def)
  then have "store dev ?t = st_ref bno (store dev s)"
    unfolding store_def st_ref_def u4 u5 using c by simp
  moreover have "quiet p ?t" using q by (simp add: quiet_def)
  moreover have "lru (bcache ?t) xs" unfolding bt by (rule lru_update [OF l lt]) simp_all
  ultimately show ?thesis using e u1 unfolding bio_def by metis
qed

lemma bread_miss:
  assumes s: "bio dev p H s" and n: "H bno = None" and c: "cached dev s bno = None"
    and few: "card {x. refs dev s x \<noteq> 0} < NBUF" and used: "\<And>x. x \<in> dom H \<Longrightarrow> refs dev s x \<noteq> 0"
  shows "\<exists>b t. bread dev bno w s = Ret b t w \<and> bio dev p (H(bno \<mapsto> b)) t \<and> store dev t = st_ref bno (store dev s)"
proof -
  have ok: "cache_ok dev s" using s by (simp add: bio_def)
  obtain xs where l: "lru (bcache s) xs" using ok by (auto simp: cache_ok_def)
  obtain b where "find (\<lambda>i. b_refcnt (bcache s ! i) = 0) (rev xs) = Some b" using find_victim [OF ok l few] by blast
  then show ?thesis using bread_evict [OF s n c l _ used] by blast
qed

lemma bread_run:
  assumes "bio dev p H s" "H bno = None" "\<And>x. x \<in> dom H \<Longrightarrow> refs dev s x \<noteq> 0" "refs dev s bno \<noteq> - 1"
    "refs dev s bno \<noteq> 0 \<or> card {x. refs dev s x \<noteq> 0} < NBUF"
  obtains b t where "bread dev bno w s = Ret b t w" "bio dev p (H(bno \<mapsto> b)) t" "store dev t = st_ref bno (store dev s)"
proof (cases "cached dev s bno")
  case None
  then show ?thesis using bread_miss [OF assms(1,2) None _ assms(3)] assms(5) that by (auto simp: refs_def)
next
  case (Some b)
  then show ?thesis using bread_hit [OF assms(1,2) Some assms(4)] that by blast
qed

lemma bio_update:
  assumes s: "bio dev p H s" and c: "cached dev s bno = Some b"
    and r: "b_dev r = b_dev (bcache s ! b)" "b_blockno r = b_blockno (bcache s ! b)" "b_valid r = b_valid (bcache s ! b)"
      "b_next r = b_next (bcache s ! b)" "b_prev r = b_prev (bcache s ! b)"
    and t: "bcache t = (bcache s)[b := r]" "\<And>x. x \<noteq> bno \<Longrightarrow> disk t x = disk s x"
      "hw t = hw s" "procs t = procs s" "sleeplocks t = sleeplocks s"
    and clean: "b_refcnt r = 0 \<Longrightarrow> b_data r = disk t bno"
  shows "bio dev p H t" "view dev t = (view dev s)(bno := b_data r)" "refs dev t = (refs dev s)(bno := b_refcnt r)"
proof -
  have q: "quiet p s" and ok: "cache_ok dev s" and h: "bheld dev p H s" using s by (simp_all add: bio_def)
  note lt = cached_lt [OF c] and key = cached_key [OF c]
  have "b_valid (bcache s ! b)" using ok lt key by (auto simp: cache_ok_def buf_ok_def)
  then have r': "b_dev r = dev" "b_blockno r = bno" "b_valid r" using r key by simp_all
  note u = buf_update [OF ok c r' r(4,5) t(1,2) clean]
  have "bheld dev p H t" by (rule bheld_cong [OF h]) (use u(2) t in simp_all)
  then show "bio dev p H t" using u(1) q t by (simp add: bio_def quiet_def)
  show "view dev t = (view dev s)(bno := b_data r)" "refs dev t = (refs dev s)(bno := b_refcnt r)" by (rule u(3) u(4); simp)+
qed

lemma put_run:
  assumes s: "bio dev p H s" and b: "H bno = Some b" and nz: "refs dev s bno \<noteq> 0"
  obtains t where "upd_buf b (\<lambda>r. r\<lparr>b_data := f (b_data r)\<rparr>) w s = Ret () t w" "bio dev p H t"
    "store dev t = st_put bno (f (view dev s bno)) (store dev s)"
proof -
  let ?r = "(bcache s ! b)\<lparr>b_data := f (b_data (bcache s ! b))\<rparr>"
  let ?t = "s\<lparr>bcache := (bcache s)[b := ?r]\<rparr>"
  have c: "cached dev s bno = Some b" using s held_cached [OF s b] by (simp_all add: bio_def)
  have rc: "b_refcnt (bcache s ! b) = refs dev s bno" "b_data (bcache s ! b) = view dev s bno"
    using c by (simp_all add: refs_def view_def)
  note u = bio_update [OF s c, of ?r ?t]
  have u': "bio dev p H ?t" "view dev ?t = (view dev s)(bno := b_data ?r)" "refs dev ?t = (refs dev s)(bno := b_refcnt ?r)"
    by (rule u; use nz rc in simp)+
  have "(refs dev s)(bno := refs dev s bno) = refs dev s" by (rule fun_upd_triv)
  then have "store dev ?t = st_put bno (f (view dev s bno)) (store dev s)"
    unfolding store_def st_put_def u'(2,3) by (simp add: rc)
  moreover have "upd_buf b (\<lambda>r. r\<lparr>b_data := f (b_data r)\<rparr>) w s = Ret () ?t w" by (rule upd_buf_apply)
  ultimately show ?thesis using that u'(1) by blast
qed

lemma bwrite_run:
  assumes s: "bio dev p H s" and b: "H bno = Some b"
  obtains t where "bwrite b w s = Ret () t w" "bio dev p H t" "store dev t = st_sync bno (store dev s)"
proof -
  let ?r = "bcache s ! b"
  let ?t = "s\<lparr>disk := (disk s)(bno := b_data ?r), disk_writes := disk_writes s @ [(bno, b_data ?r)]\<rparr>"
  have q: "quiet p s" and h: "bheld dev p H s" using s by (simp_all add: bio_def)
  note c = bheldD(1) [OF h b]
  have rc: "b_refcnt ?r = refs dev s bno" "b_data ?r = view dev s bno" using c by (simp_all add: refs_def view_def)
  have "bwrite b w s = Ret () ?t w"
    using cached_key [OF c] bheldD(2,3) [OF h b]
    by (simp add: bwrite_def kapply holdingsleep_run [OF quiet_runs [OF q]] disk_rw_def)
  note u = bio_update [OF s c, of ?r ?t]
  have u': "bio dev p H ?t" "view dev ?t = (view dev s)(bno := b_data ?r)" "refs dev ?t = (refs dev s)(bno := b_refcnt ?r)"
    by (rule u; simp)+
  have "store dev ?t = st_sync bno (store dev s)"
    unfolding store_def st_sync_def u'(2,3) by (simp add: rc)
  then show ?thesis using that u'(1) \<open>bwrite b w s = Ret () ?t w\<close> by blast
qed

text \<open>\<^verbatim>\<open>bpin\<close> and \<^verbatim>\<open>bunpin\<close> change the count of a block that is in the cache.\<close>

lemma refcnt_run:
  assumes s: "bio dev p H s" and c: "cached dev s bno = Some b"
    and clean: "k (refs dev s bno) = 0 \<Longrightarrow> view dev s bno = disk s bno"
  defines "t \<equiv> s\<lparr>bcache := (bcache s)[b := (bcache s ! b)\<lparr>b_refcnt := k (b_refcnt (bcache s ! b))\<rparr>]\<rparr>"
  shows "bio dev p H t"
    "store dev t = (store dev s)\<lparr>st_refs := (refs dev s)(bno := k (refs dev s bno))\<rparr>"
proof -
  let ?r = "(bcache s ! b)\<lparr>b_refcnt := k (b_refcnt (bcache s ! b))\<rparr>"
  have rc: "b_refcnt (bcache s ! b) = refs dev s bno" "b_data (bcache s ! b) = view dev s bno"
    using c by (simp_all add: refs_def view_def)
  note u = bio_update [OF s c, of ?r t]
  have u': "bio dev p H t" "view dev t = (view dev s)(bno := b_data ?r)" "refs dev t = (refs dev s)(bno := b_refcnt ?r)"
    by (rule u; use clean in \<open>simp add: rc t_def\<close>)+
  then show "bio dev p H t" by simp
  show "store dev t = (store dev s)\<lparr>st_refs := (refs dev s)(bno := k (refs dev s bno))\<rparr>"
    unfolding store_def u'(2,3) by (simp add: rc t_def)
qed

lemma bpin_run:
  assumes s: "bio dev p H s" and b: "H bno = Some b" and m: "refs dev s bno \<noteq> - 1"
  obtains t where "bpin b w s = Ret () t w" "bio dev p H t" "store dev t = st_ref bno (store dev s)"
proof -
  let ?t = "s\<lparr>bcache := (bcache s)[b := (bcache s ! b)\<lparr>b_refcnt := b_refcnt (bcache s ! b) + 1\<rparr>]\<rparr>"
  have q: "quiet p s" and c: "cached dev s bno = Some b" using s held_cached [OF s b] by (simp_all add: bio_def)
  have "bpin b w s = Ret () ?t w" by (simp add: bpin_def kbind_apply bcachelock [OF q] upd_buf_apply kret_apply)
  moreover have "bio dev p H ?t" "store dev ?t = st_ref bno (store dev s)"
    using refcnt_run [OF s c, of "\<lambda>x. x + 1"] m by (simp_all add: st_ref_def eq_neg_iff_add_eq_0)
  ultimately show ?thesis using that by blast
qed

lemma bunpin_run:
  assumes s: "bio dev p H s" and b: "H bno = Some b" and clean: "refs dev s bno = 1 \<Longrightarrow> view dev s bno = disk s bno"
  obtains t where "bunpin b w s = Ret () t w" "bio dev p H t" "store dev t = st_unref bno (store dev s)"
proof -
  let ?t = "s\<lparr>bcache := (bcache s)[b := (bcache s ! b)\<lparr>b_refcnt := b_refcnt (bcache s ! b) - 1\<rparr>]\<rparr>"
  have q: "quiet p s" and c: "cached dev s bno = Some b" using s held_cached [OF s b] by (simp_all add: bio_def)
  have "bunpin b w s = Ret () ?t w" by (simp add: bunpin_def kbind_apply bcachelock [OF q] upd_buf_apply kret_apply)
  moreover have "bio dev p H ?t" "store dev ?t = st_unref bno (store dev s)"
    using refcnt_run [OF s c, of "\<lambda>x. x - 1"] clean by (simp_all add: st_unref_def)
  ultimately show ?thesis using that by blast
qed

definition sl_drop :: "nat \<Rightarrow> kernel \<Rightarrow> kernel" where
  "sl_drop b s = s\<lparr>sleeplocks := (sleeplocks s)(BufSL b := (sleeplocks s (BufSL b))\<lparr>sl_locked := 0, sl_pid := 0\<rparr>),
     procs := map (woken (ChanSL (BufSL b))) (procs s)\<rparr>"

lemma sl_drop_simps [simp]:
  "bcache (sl_drop b u) = bcache u" "disk (sl_drop b u) = disk u" "disk_writes (sl_drop b u) = disk_writes u"
  "klog (sl_drop b u) = klog u" "hw (sl_drop b u) = hw u" "length (procs (sl_drop b u)) = length (procs u)" "quiet q (sl_drop b u) = quiet q u"
  by (simp_all add: sl_drop_def quiet_def)

lemma bheld_drop:
  assumes h: "bheld dev p H s" and b: "H bno = Some b" and q: "quiet p s"
  shows "bheld dev p (H(bno := None)) (sl_drop b s)"
proof -
  have pid: "p_pid (procs (sl_drop b s) ! p) = p_pid (procs s ! p)"
    using q by (simp add: sl_drop_def woken_def quiet_def)
  have [simp]: "cached dev (sl_drop b s) = cached dev s" by (rule store_cong) simp_all
  have sl: "sleeplocks (sl_drop b s) (BufSL a) =
      (if a = b then (sleeplocks s (BufSL a))\<lparr>sl_locked := 0, sl_pid := 0\<rparr> else sleeplocks s (BufSL a))" for a
    by (simp add: sl_drop_def)
  have ne: "a \<noteq> b" if "H x = Some a" "x \<noteq> bno" for x a
    using bheldD(1) [OF h that(1)] bheldD(1) [OF h b] cached_key that(2) by metis
  have "sl_locked (sleeplocks (sl_drop b s) (BufSL a)) = 0" if "a < NBUF" "a \<notin> ran (H(bno := None))" for a
  proof (cases "a = b")
    case False
    have "a \<notin> ran H"
    proof
      assume "a \<in> ran H"
      then obtain x where "H x = Some a" by (auto simp: ran_def)
      moreover from this have "x \<noteq> bno" using b False by auto
      ultimately have "(H(bno := None)) x = Some a" by simp
      then show False using that(2) by (auto simp: ran_def)
    qed
    then show ?thesis using free_buf [OF h that(1)] False by (simp add: sl)
  qed (simp add: sl)
  moreover have "cached dev (sl_drop b s) x = Some a \<and> sl_locked (sleeplocks (sl_drop b s) (BufSL a)) \<noteq> 0 \<and>
      sl_pid (sleeplocks (sl_drop b s) (BufSL a)) = p_pid (procs s ! p)" if x: "(H(bno := None)) x = Some a" for x a
  proof -
    have y: "H x = Some a" "x \<noteq> bno" using x by (auto split: if_splits)
    then show ?thesis using bheldD [OF h y(1)] ne [OF y] by (simp add: sl)
  qed
  ultimately show ?thesis unfolding bheld_def pid by simp
qed

lemma brelse_exact:
  assumes q: "quiet p s" and l: "sl_locked (sleeplocks s (BufSL b)) \<noteq> 0" "sl_pid (sleeplocks s (BufSL b)) = p_pid (procs s ! p)"
    and b: "b < length (bcache s)"
  defines "bs \<equiv> (bcache s)[b := (bcache s ! b)\<lparr>b_refcnt := b_refcnt (bcache s ! b) - 1\<rparr>]"
  shows "brelse b w s = Ret () ((sl_drop b s)\<lparr>bcache :=
      if b_refcnt (bcache s ! b) = 1 then inserted b (unlinked b bs) else bs\<rparr>) w"
proof -
  let ?d = "sl_drop b s"
  have qd: "quiet p ?d" using q by simp
  have "releasesleep (BufSL b) w s = Ret () ?d w" for w unfolding sl_drop_def by (rule releasesleep_run [OF quiet_runs [OF q]])
  then show ?thesis
    using l b by (simp add: brelse_def kbind_apply holdingsleep_run [OF quiet_runs [OF q]] bcachelock [OF qd]
        get_buf_apply upd_buf_apply kret_apply kwhen_apply binsert_def inserted_def unlinked_def Let_def bs_def)
qed

lemma brelse_run:
  assumes s: "bio dev p H s" and b: "H bno = Some b" and clean: "refs dev s bno = 1 \<Longrightarrow> view dev s bno = disk s bno"
  obtains t where "brelse b w s = Ret () t w" "bio dev p (H(bno := None)) t" "store dev t = st_unref bno (store dev s)"
proof -
  have q: "quiet p s" and h: "bheld dev p H s" using s by (simp_all add: bio_def)
  note c = bheldD(1) [OF h b] and lt = cached_lt [OF bheldD(1) [OF h b]]
  let ?bs = "(bcache s)[b := (bcache s ! b)\<lparr>b_refcnt := b_refcnt (bcache s ! b) - 1\<rparr>]"
  let ?u = "s\<lparr>bcache := ?bs\<rparr>"
  let ?bt = "if b_refcnt (bcache s ! b) = 1 then inserted b (unlinked b ?bs) else ?bs"
  let ?t = "(sl_drop b s)\<lparr>bcache := ?bt\<rparr>"
  have u: "bio dev p H ?u" "store dev ?u = st_unref bno (store dev s)"
    using refcnt_run [OF s c, of "\<lambda>x. x - 1"] clean by (simp_all add: st_unref_def)
  have oku: "cache_ok dev ?u" and hu: "bheld dev p H ?u" and qu: "quiet p ?u" using u(1) by (simp_all add: bio_def)
  obtain xs where "lru ?bs xs" using oku by (auto simp: cache_ok_def)
  then have "\<exists>ys. lru ?bt ys" using lru_moved [of ?bs xs b] lt by auto
  then obtain ys where l: "lru (bcache ?t) ys" by auto
  have m: "map core (bcache ?t) = map core (bcache ?u)" by (simp add: core_moved)
  have ok: "cache_ok dev ?t" by (rule core_cong(5) [OF m _ l oku]) simp
  have "bheld dev p (H(bno := None)) (sl_drop b ?u)" by (rule bheld_drop [OF hu b qu])
  moreover have "cached dev ?t = cached dev (sl_drop b ?u)"
    unfolding core_cong(2) [OF m] by (rule store_cong(1) [symmetric]) simp_all
  moreover have "sleeplocks ?t = sleeplocks (sl_drop b ?u)" "procs ?t = procs (sl_drop b ?u)" by (simp_all add: sl_drop_def)
  ultimately have "bheld dev p (H(bno := None)) ?t" by (rule bheld_cong)
  then have "bio dev p (H(bno := None)) ?t" using ok q unfolding bio_def by (simp add: quiet_def)
  moreover have "store dev ?t = store dev ?u"
    unfolding store_def core_cong(3) [OF m] using core_cong(4) [OF m] by simp
  moreover have "brelse b w s = Ret () ?t w" by (rule brelse_exact [OF q bheldD(2,3) [OF h b]]) (use lt in simp)
  ultimately show ?thesis using that u(2) by metis
qed

section \<open>Initialisation\<close>

text \<open>After \<open>k\<close> rounds of the loop of \<^verbatim>\<open>binit\<close> the first \<open>k\<close> buffers are in the list.\<close>

definition binit_at :: "nat \<Rightarrow> kernel \<Rightarrow> nat \<Rightarrow> kernel \<Rightarrow> bool" where
  "binit_at p s k t \<longleftrightarrow> quiet p t \<and> length (bcache t) = NBUF + 1 \<and> chain (nx (bcache t)) BHEAD (rev [0..<k]) BHEAD \<and>
     chain (pv (bcache t)) BHEAD [0..<k] BHEAD \<and> map core (bcache t) = map core (bcache s) \<and>
     (\<forall>b < k. sl_locked (sleeplocks t (BufSL b)) = 0) \<and>
     disk t = disk s \<and> disk_writes t = disk_writes s \<and> klog t = klog s"

definition binit_body :: "nat \<Rightarrow> unit kcode" where
  "binit_body b =
     kbind (get_buf BHEAD) (\<lambda>h.
     kdo [upd_buf b (\<lambda>r. r\<lparr>b_next := b_next h\<rparr>),
          upd_buf b (\<lambda>r. r\<lparr>b_prev := BHEAD\<rparr>),
          initsleeplock (BufSL b) ''buffer'',
          upd_buf (b_next h) (\<lambda>r. r\<lparr>b_prev := b\<rparr>),
          upd_buf BHEAD (\<lambda>r. r\<lparr>b_next := b\<rparr>)]
     (kret ()))"

lemma binit_eq:
  "binit = kdo [initlock BcacheLock ''bcache'', upd_buf BHEAD (\<lambda>r. r\<lparr>b_prev := BHEAD\<rparr>),
     upd_buf BHEAD (\<lambda>r. r\<lparr>b_next := BHEAD\<rparr>), kfor [0..<NBUF] binit_body] (kret ())"
  by (simp only: binit_def binit_body_def [abs_def])

lemma quiet_initlock:
  "quiet p s \<Longrightarrow> quiet p (s\<lparr>hw := set_lock lk (\<lambda>l. l\<lparr>lname := n, locked := 0, lcpu := None\<rparr>) (hw s)\<rparr>)"
  by (auto simp: quiet_def calm_def lock_free_def set_lock_def sie_def)

lemma binit_step:
  assumes a: "binit_at p s k t" and k: "k < NBUF"
  shows "\<exists>u. binit_body k w t = Ret () u w \<and> binit_at p s (Suc k) u"
proof -
  let ?hw = "set_lock (SleepSpin (BufSL k)) (\<lambda>l. l\<lparr>lname := ''sleep lock'', locked := 0, lcpu := None\<rparr>) (hw t)"
  let ?sl = "(sleeplocks t)(BufSL k := (sleeplocks t (BufSL k))\<lparr>sl_name := ''buffer'', sl_locked := 0, sl_pid := 0\<rparr>)"
  let ?u = "t\<lparr>hw := ?hw, sleeplocks := ?sl, bcache := inserted k (bcache t)\<rparr>"
  have r: "binit_body k w t = Ret () ?u w"
    by (simp add: binit_body_def kapply initsleeplock_def initlock_def upd_lock_def inserted_def Let_def)
  have "quiet p (t\<lparr>hw := ?hw\<rparr>)" using a by (intro quiet_initlock) (simp add: binit_at_def)
  then have q: "quiet p ?u" by (simp add: quiet_def)
  have "set (BHEAD # k # rev [0..<k]) \<subseteq> {0..<length (bcache t)}" "distinct (BHEAD # k # rev [0..<k])"
    using a k by (auto simp: binit_at_def BHEAD_def)
  note i = inserted_chain [OF _ _ this(2,1)]
  have "chain (nx (inserted k (bcache t))) BHEAD (k # rev [0..<k]) BHEAD"
    "chain (pv (inserted k (bcache t))) BHEAD (rev (k # rev [0..<k])) BHEAD" "length (inserted k (bcache t)) = NBUF + 1"
    using i a by (auto simp: binit_at_def)
  moreover have "map core (inserted k (bcache t)) = map core (bcache t)"
    by (simp only: inserted_def Let_def core_update core_links)
  ultimately have "binit_at p s (Suc k) ?u"
    using a q by (simp add: binit_at_def less_Suc_eq)
  then show ?thesis using r by blast
qed

lemma binit_loop:
  assumes "binit_at p s 0 t" "k \<le> NBUF"
  shows "\<exists>u. kfor [0..<k] binit_body w t = Ret () u w \<and> binit_at p s k u"
  using assms(2)
proof (induction k)
  case 0
  then show ?case using assms(1) by (simp add: kapply)
next
  case (Suc k)
  then obtain v where v: "kfor [0..<k] binit_body w t = Ret () v w" "binit_at p s k v" by auto
  obtain u where "binit_body k w v = Ret () u w" "binit_at p s (Suc k) u" using binit_step [OF v(2)] Suc.prems by force
  then show ?case using v(1) by (simp add: kfor_append kapply)
qed

lemma binit_run:
  assumes q: "quiet p s" and z: "bcache s = replicate (NBUF + 1) buf0" and dev: "dev \<noteq> 0"
  obtains t where "binit w s = Ret () t w" "bio dev p Map.empty t" "lru (bcache t) (rev [0..<NBUF])"
    "refs dev t = (\<lambda>_. 0)" "view dev t = disk s" "disk t = disk s" "disk_writes t = disk_writes s" "klog t = klog s"
    "cached dev t = (\<lambda>_. None)" "\<forall>i < NBUF. b_refcnt (bcache t ! i) = 0"
proof -
  let ?hw = "set_lock BcacheLock (\<lambda>l. l\<lparr>lname := ''bcache'', locked := 0, lcpu := None\<rparr>) (hw s)"
  let ?bs = "(bcache s)[BHEAD := (bcache s ! BHEAD)\<lparr>b_prev := BHEAD\<rparr>]"
  let ?bt = "?bs[BHEAD := (?bs ! BHEAD)\<lparr>b_next := BHEAD\<rparr>]"
  let ?t = "s\<lparr>hw := ?hw, bcache := ?bt\<rparr>"
  have "quiet p (s\<lparr>hw := ?hw\<rparr>)" by (rule quiet_initlock [OF q])
  then have "quiet p ?t" by (simp add: quiet_def)
  moreover have "map core ?bt = map core (bcache s)" by (simp only: core_update core_links)
  moreover have "length (bcache s) = NBUF + 1" by (simp add: z)
  ultimately have "binit_at p s 0 ?t" by (simp add: binit_at_def nx_def pv_def BHEAD_def)
  from binit_loop [OF this order_refl, of w] obtain u where u: "kfor [0..<NBUF] binit_body w ?t = Ret () u w" "binit_at p s NBUF u" by blast
  have "binit w s = Ret () u w"
    using u(1) by (simp add: binit_eq kapply initlock_def upd_lock_def)
  moreover have l: "lru (bcache u) (rev [0..<NBUF])" using u(2) by (auto simp: binit_at_def lru_def)
  moreover have c: "core (bcache u ! i) = core buf0" if "i < NBUF" for i
  proof -
    have "map core (bcache u) ! i = map core (bcache s) ! i" "length (bcache u) = NBUF + 1" using u(2) by (simp_all add: binit_at_def)
    then show ?thesis using that by (simp add: z del: replicate_Suc)
  qed
  then have b: "b_dev (bcache u ! i) = 0 \<and> b_refcnt (bcache u ! i) = 0" if "i < NBUF" for i
    using that by (simp add: core_def buf0_def)
  have ok: "cache_ok dev u" unfolding cache_ok_def buf_ok_def using l b dev by auto
  then have n: "cached dev u = (\<lambda>_. None)" using b dev by (simp add: cached_None fun_eq_iff)
  then have "refs dev u = (\<lambda>_. 0)" "view dev u = disk u" by (simp_all add: refs_def view_def fun_eq_iff)
  moreover have "bio dev p Map.empty u" using ok u(2) by (simp add: bio_def bheld_def binit_at_def)
  moreover have "disk u = disk s" "disk_writes u = disk_writes s" "klog u = klog s" using u(2) by (simp_all add: binit_at_def)
  ultimately show ?thesis using that [of u] n b by simp
qed

section \<open>Clients\<close>

text \<open>
  The calls a process makes on the cache of \<open>dev\<close>, with the buffers it holds. A caller asks only for blocks
  it does not hold, changes and gives back only what it holds, gives the last reference to a block back
  only when the disk has its contents, and unpins a block only while there is another reference to it.
\<close>

inductive bstep :: "uint \<Rightarrow> nat \<Rightarrow> (uint \<rightharpoonup> nat) \<times> kernel \<Rightarrow> (uint \<rightharpoonup> nat) \<times> kernel \<Rightarrow> bool" for dev p where
  bstep_read: "H bno = None \<Longrightarrow> refs dev s bno \<noteq> - 1 \<Longrightarrow> bread dev bno w s = Ret b t w \<Longrightarrow>
    bstep dev p (H, s) (H(bno \<mapsto> b), t)"
| bstep_put: "H bno = Some b \<Longrightarrow> upd_buf b (\<lambda>r. r\<lparr>b_data := f (b_data r)\<rparr>) w s = Ret () t w \<Longrightarrow> bstep dev p (H, s) (H, t)"
| bstep_write: "H bno = Some b \<Longrightarrow> bwrite b w s = Ret () t w \<Longrightarrow> bstep dev p (H, s) (H, t)"
| bstep_relse: "H bno = Some b \<Longrightarrow> (refs dev s bno = 1 \<longrightarrow> view dev s bno = disk s bno) \<Longrightarrow> brelse b w s = Ret () t w \<Longrightarrow>
    bstep dev p (H, s) (H(bno := None), t)"
| bstep_pin: "H bno = Some b \<Longrightarrow> refs dev s bno \<noteq> - 1 \<Longrightarrow> bpin b w s = Ret () t w \<Longrightarrow> bstep dev p (H, s) (H, t)"
| bstep_unpin: "H bno = Some b \<Longrightarrow> refs dev s bno \<noteq> 1 \<Longrightarrow> bunpin b w s = Ret () t w \<Longrightarrow> bstep dev p (H, s) (H, t)"

definition bstart :: "uint \<Rightarrow> nat \<Rightarrow> (uint \<rightharpoonup> nat) \<times> kernel \<Rightarrow> bool" where
  "bstart dev p c \<longleftrightarrow> dev \<noteq> 0 \<and> fst c = Map.empty \<and>
     (\<exists>s w. quiet p s \<and> bcache s = replicate (NBUF + 1) buf0 \<and> binit w s = Ret () (snd c) w)"

definition binv :: "uint \<Rightarrow> nat \<Rightarrow> (uint \<rightharpoonup> nat) \<times> kernel \<Rightarrow> bool" where
  "binv dev p c \<longleftrightarrow> bio dev p (fst c) (snd c) \<and> (\<forall>x \<in> dom (fst c). refs dev (snd c) x \<noteq> 0)"

lemma binv_start: "bstart dev p c \<Longrightarrow> binv dev p c"
proof -
  assume "bstart dev p c"
  then obtain s w where c: "dev \<noteq> 0" "fst c = Map.empty" "quiet p s" "bcache s = replicate (NBUF + 1) buf0"
    "binit w s = Ret () (snd c) w" unfolding bstart_def by blast
  obtain t where "binit w s = Ret () t w" "bio dev p Map.empty t" using binit_run [OF c(3,4,1)] by blast
  then show ?thesis using c by (simp add: binv_def)
qed

lemma refs_eq: "store dev t = a \<Longrightarrow> refs dev t = st_refs a"
  by auto

lemma bget_full:
  assumes q: "quiet p s" and l: "lru (bcache s) xs"
    and n: "find (\<lambda>i. b_dev (bcache s ! i) = dev \<and> b_blockno (bcache s ! i) = bno) xs = None"
    and f: "find (\<lambda>i. b_refcnt (bcache s ! i) = 0) (rev xs) = None"
  shows "bget dev bno w s = Panic ''bget: no buffers''"
  using f n
  by (simp add: bget_def kbind_apply bcachelock [OF q] scans [OF l] get_buf_apply kpanic_apply del: bscan.simps)

lemma bread_full:
  assumes s: "bio dev p H s" and c: "cached dev s bno = None" and f: "\<forall>i < NBUF. b_refcnt (bcache s ! i) \<noteq> 0"
  shows "bread dev bno w s = Panic ''bget: no buffers''"
proof -
  have q: "quiet p s" and ok: "cache_ok dev s" using s by (simp_all add: bio_def)
  obtain xs where l: "lru (bcache s) xs" using ok by (auto simp: cache_ok_def)
  have "find (\<lambda>i. b_refcnt (bcache s ! i) = 0) (rev xs) = None" using f lru_in [OF l] by (simp add: find_None_iff)
  then show ?thesis using bget_full [OF q l, of dev bno w] by (simp add: find_cached [OF ok l] c bread_def kbind_apply)
qed

lemma few_refs:
  assumes ok: "cache_ok dev s" and b: "b < NBUF" "b_refcnt (bcache s ! b) = 0"
  shows "card {x. refs dev s x \<noteq> 0} < NBUF"
proof -
  let ?f = "\<lambda>x. the (cached dev s x)"
  have k: "\<exists>a. cached dev s x = Some a \<and> a < NBUF \<and> a \<noteq> b" if "refs dev s x \<noteq> 0" for x
    using that b cached_lt [of dev s x] by (auto simp: refs_def split: option.splits)
  have "inj_on ?f {x. refs dev s x \<noteq> 0}"
    by (rule inj_onI) (metis (mono_tags, lifting) k cached_key mem_Collect_eq option.sel)
  moreover have "?f ` {x. refs dev s x \<noteq> 0} \<subseteq> {0..<NBUF} - {b}" using k by force
  ultimately have "card {x. refs dev s x \<noteq> 0} \<le> card ({0..<NBUF} - {b})" by (metis card_inj_on_le finite_Diff finite_atLeastLessThan)
  then show ?thesis using b(1) by simp
qed

lemma bread_returns:
  assumes i: "binv dev p (H, s)" and n: "H bno = None" "refs dev s bno \<noteq> - 1"
  shows "(\<exists>b t. bread dev bno w s = Ret b t w \<and> bio dev p (H(bno \<mapsto> b)) t \<and> store dev t = st_ref bno (store dev s)) \<or>
    bread dev bno w s = Panic ''bget: no buffers'' \<and> cached dev s bno = None \<and> (\<forall>i < NBUF. b_refcnt (bcache s ! i) \<noteq> 0)"
proof (cases "cached dev s bno = None \<and> (\<forall>i < NBUF. b_refcnt (bcache s ! i) \<noteq> 0)")
  case True
  then show ?thesis using bread_full i by (auto simp: binv_def)
next
  case False
  have s: "bio dev p H s" and ok: "cache_ok dev s" using i by (simp_all add: binv_def bio_def)
  show ?thesis
  proof (cases "cached dev s bno")
    case None
    then have "card {x. refs dev s x \<noteq> 0} < NBUF" using False few_refs [OF ok] by blast
    then show ?thesis using bread_miss [OF s n(1) None] i by (auto simp: binv_def)
  next
    case (Some b)
    then show ?thesis using bread_hit [OF s n(1) Some n(2)] by blast
  qed
qed

lemma binv_step:
  assumes c: "binv dev p c" and st: "bstep dev p c c'"
  shows "binv dev p c'"
  using st c
proof cases
  case (bstep_read H bno s w b t)
  then obtain b' t' where "bread dev bno w s = Ret b' t' w" "bio dev p (H(bno \<mapsto> b')) t'" "store dev t' = st_ref bno (store dev s)"
    using bread_returns [of dev p H s bno w] c by auto
  moreover have "refs dev s bno + 1 \<noteq> 0" using bstep_read by (auto simp: eq_neg_iff_add_eq_0)
  ultimately show ?thesis using bstep_read c by (auto simp: binv_def st_ref_def dom_def dest!: refs_eq split: if_splits)
next
  case (bstep_put H bno b f w s t)
  then have s: "bio dev p H s" "refs dev s bno \<noteq> 0" using c by (auto simp: binv_def)
  obtain t' where "upd_buf b (\<lambda>r. r\<lparr>b_data := f (b_data r)\<rparr>) w s = Ret () t' w" "bio dev p H t'"
    "store dev t' = st_put bno (f (view dev s bno)) (store dev s)" using put_run [OF s(1) bstep_put(3) s(2)] .
  then show ?thesis using bstep_put c by (auto simp: binv_def st_put_def dest!: refs_eq)
next
  case (bstep_write H bno b w s t)
  then have s: "bio dev p H s" using c by (auto simp: binv_def)
  obtain t' where "bwrite b w s = Ret () t' w" "bio dev p H t'" "store dev t' = st_sync bno (store dev s)"
    using bwrite_run [OF s bstep_write(3)] .
  then show ?thesis using bstep_write c by (auto simp: binv_def st_sync_def dest!: refs_eq)
next
  case (bstep_relse H bno b s w t)
  then have s: "bio dev p H s" using c by (auto simp: binv_def)
  obtain t' where "brelse b w s = Ret () t' w" "bio dev p (H(bno := None)) t'" "store dev t' = st_unref bno (store dev s)"
    using brelse_run [OF s bstep_relse(3), of w] bstep_relse(4) by blast
  then show ?thesis using bstep_relse c by (auto simp: binv_def st_unref_def dom_def dest!: refs_eq split: if_splits)
next
  case (bstep_pin H bno b s w t)
  then have s: "bio dev p H s" using c by (auto simp: binv_def)
  obtain t' where "bpin b w s = Ret () t' w" "bio dev p H t'" "store dev t' = st_ref bno (store dev s)"
    using bpin_run [OF s bstep_pin(3,4)] .
  moreover have "refs dev s bno + 1 \<noteq> 0" using bstep_pin by (auto simp: eq_neg_iff_add_eq_0)
  ultimately show ?thesis using bstep_pin c by (auto simp: binv_def st_ref_def dom_def dest!: refs_eq split: if_splits)
next
  case (bstep_unpin H bno b s w t)
  then have s: "bio dev p H s" using c by (auto simp: binv_def)
  obtain t' where "bunpin b w s = Ret () t' w" "bio dev p H t'" "store dev t' = st_unref bno (store dev s)"
    using bunpin_run [OF s bstep_unpin(3), of w] bstep_unpin(4) by blast
  then show ?thesis using bstep_unpin c by (auto simp: binv_def st_unref_def dom_def dest!: refs_eq split: if_splits)
qed

interpretation bclients: step_system "bstart dev p" "bstep dev p" "binv dev p" for dev p
  by unfold_locales (blast intro: binv_start binv_step)+

text \<open>
  From \<^verbatim>\<open>binit()\<close> on, such a client keeps the cache well formed, and what it holds are valid, referenced
  buffers of the blocks it asked for.
\<close>

lemma disciplined_client:
  assumes "dev \<noteq> 0" "quiet p s" "bcache s = replicate (NBUF + 1) buf0" "binit w s = Ret () t w"
    and "(bstep dev p)\<^sup>*\<^sup>* (Map.empty, t) (H, u)"
  shows "binv dev p (H, u)"
proof -
  have "bstart dev p (Map.empty, t)" using assms(1-4) by (auto simp: bstart_def)
  then show ?thesis using assms(5) by (rule bclients.inv_reachable)
qed

section \<open>Properties\<close>

text \<open>Process 0 in a freshly booted kernel.\<close>

definition kernel_p0 :: kernel where
  "kernel_p0 = kernel0\<lparr>hw := set_mycpu (\<lambda>c. c\<lparr>cpu_proc := Some 0\<rparr>) (hw kernel0)\<rparr>"

lemma kernel_p0: "quiet 0 kernel_p0" "bcache kernel_p0 = replicate (NBUF + 1) buf0"
proof -
  have "lock_free l (hw kernel_p0)" for l using free_kernel0 [of l] by (simp add: kernel_p0_def lock_free_def set_mycpu_def)
  moreover have "calm (hw kernel_p0)" "cpu_proc (me (hw kernel_p0)) = Some 0"
    using calm_kernel0 by (simp_all add: kernel_p0_def calm_def kernel0_def bss_def hw0_def cpu0_def)
  ultimately show "quiet 0 kernel_p0" using kernel0_procs(2) by (simp add: quiet_def kernel_p0_def NPROC_def)
  show "bcache kernel_p0 = replicate (NBUF + 1) buf0" by (simp add: kernel_p0_def kernel0_def bss_def)
qed

text \<open>
  C3. The cache refines a store of blocks. \<^verbatim>\<open>bread\<close> gives a locked buffer with the current contents of the
  block and one more reference, or panics when every buffer is in use by another block; changing the data
  changes the contents that readers see; \<^verbatim>\<open>bwrite\<close> makes the disk agree; \<^verbatim>\<open>brelse\<close>, \<^verbatim>\<open>bpin\<close> and \<^verbatim>\<open>bunpin\<close>
  move the reference count only. Nothing else changes, whichever buffers are recycled for it.
\<close>

theorem cache_refines_store:
  assumes i: "binv dev p (H, s)"
  shows "(H bno = None \<and> refs dev s bno \<noteq> - 1 \<longrightarrow>
      (\<exists>b t. bread dev bno w s = Ret b t w \<and> bio dev p (H(bno \<mapsto> b)) t \<and> b_data (bcache t ! b) = view dev s bno \<and>
         store dev t = st_ref bno (store dev s)) \<or>
      bread dev bno w s = Panic ''bget: no buffers'' \<and> cached dev s bno = None \<and> (\<forall>i < NBUF. b_refcnt (bcache s ! i) \<noteq> 0)) \<and>
    (\<forall>b. H bno = Some b \<longrightarrow>
      (\<exists>t. upd_buf b (\<lambda>r. r\<lparr>b_data := f (b_data r)\<rparr>) w s = Ret () t w \<and> bio dev p H t \<and>
         store dev t = st_put bno (f (view dev s bno)) (store dev s)) \<and>
      (\<exists>t. bwrite b w s = Ret () t w \<and> bio dev p H t \<and> store dev t = st_sync bno (store dev s)) \<and>
      (refs dev s bno \<noteq> - 1 \<longrightarrow> (\<exists>t. bpin b w s = Ret () t w \<and> bio dev p H t \<and> store dev t = st_ref bno (store dev s))) \<and>
      ((refs dev s bno = 1 \<longrightarrow> view dev s bno = disk s bno) \<longrightarrow>
        (\<exists>t. bunpin b w s = Ret () t w \<and> bio dev p H t \<and> store dev t = st_unref bno (store dev s)) \<and>
        (\<exists>t. brelse b w s = Ret () t w \<and> bio dev p (H(bno := None)) t \<and> store dev t = st_unref bno (store dev s))))"
proof -
  have s: "bio dev p H s" using i by (simp add: binv_def)
  have d: "b_data (bcache t ! b) = view dev s bno" if "bio dev p (H(bno \<mapsto> b)) t" "store dev t = st_ref bno (store dev s)" for b t
  proof -
    have "view dev t = view dev s" using arg_cong [OF that(2), of st_view] by (simp add: st_ref_def)
    then show ?thesis using held_data [OF that(1), of bno b] by simp
  qed
  show ?thesis
  proof (intro conjI allI impI, goal_cases)
    case 1
    then show ?case using bread_returns [OF i, of bno w] d by blast
  next
    case (2 b)
    then have "refs dev s bno \<noteq> 0" using i by (auto simp: binv_def)
    then show ?case by (rule put_run [OF s 2, of f w]) blast
  next
    case (3 b)
    show ?case by (rule bwrite_run [OF s 3, of w]) blast
  next
    case (4 b)
    show ?case by (rule bpin_run [OF s 4, of w]) blast
  next
    case (5 b)
    show ?case by (rule bunpin_run [OF s 5(1), of w]) (use 5(2) in blast)+
  next
    case (6 b)
    show ?case by (rule brelse_run [OF s 6(1), of w]) (use 6(2) in blast)+
  qed
qed

theorem cache_refines_store_witness:
  "\<exists>t b u. binit [] kernel_p0 = Ret () t [] \<and> bread 1 7 [] t = Ret b u [] \<and> store 1 u = st_ref 7 (store 1 t)"
proof -
  obtain t where t: "binit [] kernel_p0 = Ret () t []" "bio 1 0 Map.empty t" "refs 1 t = (\<lambda>_. 0)"
    using binit_run [OF kernel_p0 one_neq_zero] by metis
  obtain b u where u: "bread 1 7 [] t = Ret b u []"
    by (rule bread_run [OF t(2), of 7 "[]"]) (simp_all add: t(3) NBUF_def MAXOPBLOCKS_def)
  have "binv 1 0 (Map.empty, t)" using t(2) by (simp add: binv_def)
  from cache_refines_store [OF this, of 7 "[]" id] show ?thesis using t u by auto
qed

text \<open>
  C35. Replacement is least recently used. A block that is not in the cache gets the last unreferenced
  buffer of the list; giving the only reference back moves the buffer to the front of the list and
  keeps the order of the others. When every buffer has a reference the kernel panics.
\<close>

theorem bread_recycles_lru:
  assumes i: "binv dev p (H, s)" and l: "lru (bcache s) xs" and n: "H bno = None" "cached dev s bno = None"
  shows "(\<forall>us b vs. xs = us @ b # vs \<and> b_refcnt (bcache s ! b) = 0 \<and> (\<forall>v \<in> set vs. b_refcnt (bcache s ! v) \<noteq> 0) \<longrightarrow>
      (\<exists>t u. bread dev bno w s = Ret b t w \<and> lru (bcache t) (us @ b # vs) \<and>
         brelse b w t = Ret () u w \<and> lru (bcache u) (b # us @ vs))) \<and>
    ((\<forall>x \<in> set xs. b_refcnt (bcache s ! x) \<noteq> 0) \<longrightarrow> bread dev bno w s = Panic ''bget: no buffers'')"
proof (intro conjI allI impI)
  have s: "bio dev p H s" and used: "\<And>x. x \<in> dom H \<Longrightarrow> refs dev s x \<noteq> 0" using i by (simp_all add: binv_def)
  show "bread dev bno w s = Panic ''bget: no buffers''" if "\<forall>x \<in> set xs. b_refcnt (bcache s ! x) \<noteq> 0"
    by (rule bread_full [OF s n(2)]) (use that lru_in [OF l] in blast)
  fix us b vs assume x: "xs = us @ b # vs \<and> b_refcnt (bcache s ! b) = 0 \<and> (\<forall>v \<in> set vs. b_refcnt (bcache s ! v) \<noteq> 0)"
  have "find (\<lambda>i. b_refcnt (bcache s ! i) = 0) (rev vs @ b # rev us) = Some b" by (rule find_skip) (use x in auto)
  then have f: "find (\<lambda>i. b_refcnt (bcache s ! i) = 0) (rev xs) = Some b" using x by simp
  obtain t where t: "bread dev bno w s = Ret b t w" "bio dev p (H(bno \<mapsto> b)) t" "store dev t = st_ref bno (store dev s)"
    "lru (bcache t) xs"
    using bread_evict [OF s n l f used] by blast
  have q: "quiet p t" and h: "bheld dev p (H(bno \<mapsto> b)) t" using t(2) by (simp_all add: bio_def)
  have b: "(H(bno \<mapsto> b)) bno = Some b" by simp
  note c = bheldD [OF h b] and lt = cached_lt [OF bheldD(1) [OF h b]]
  have "refs dev t bno = 1" using refs_eq [OF t(3)] n(2) by (simp add: st_ref_def refs_def)
  then have r: "b_refcnt (bcache t ! b) = 1" using c(1) by (simp add: refs_def)
  let ?bs = "(bcache t)[b := (bcache t ! b)\<lparr>b_refcnt := b_refcnt (bcache t ! b) - 1\<rparr>]"
  have "lru ?bs xs" by (rule lru_update [OF t(4)]) (use lt in simp_all)
  then have "lru (inserted b (unlinked b ?bs)) (b # remove1 b xs)" using lru_moved lt by blast
  moreover have "remove1 b xs = us @ vs" using x l by (auto simp: lru_def remove1_append)
  ultimately show "\<exists>t u. bread dev bno w s = Ret b t w \<and> lru (bcache t) (us @ b # vs) \<and>
         brelse b w t = Ret () u w \<and> lru (bcache u) (b # us @ vs)"
    using t(1,4) brelse_exact [OF q c(2,3), of w] lt r x by auto
qed

theorem bread_recycles_lru_witness:
  "\<exists>t u. binit [] kernel_p0 = Ret () t [] \<and> bread 1 7 [] t = Ret 0 u []"
proof -
  obtain t where t: "binit [] kernel_p0 = Ret () t []" "bio 1 0 Map.empty t" "refs 1 t = (\<lambda>_. 0)" "lru (bcache t) (rev [0..<NBUF])"
    "cached 1 t = (\<lambda>_. None)" "\<forall>i < NBUF. b_refcnt (bcache t ! i) = 0"
    using binit_run [OF kernel_p0 one_neq_zero] by metis
  have i: "binv 1 0 (Map.empty, t)" using t(2) by (simp add: binv_def)
  have "rev [0..<NBUF] = rev [1..<NBUF] @ 0 # []" "b_refcnt (bcache t ! 0) = 0"
    using t(6) by (simp_all add: upt_conv_Cons NBUF_def MAXOPBLOCKS_def)
  then have "\<exists>u v. bread 1 7 [] t = Ret 0 u [] \<and> lru (bcache u) (rev [1..<NBUF] @ 0 # []) \<and>
      brelse 0 [] u = Ret () v [] \<and> lru (bcache v) (0 # rev [1..<NBUF] @ [])"
    by (intro conjunct1 [OF bread_recycles_lru [OF i t(4), of 7 "[]"], rule_format]) (simp_all add: t(5))
  then show ?thesis using t(1) by blast
qed

end
