(* ===== verification/Bshare.thy ===== *)
theory Bshare
  imports Bcache
begin

text \<open>
  The buffer cache shared by processes. Where \<open>Bcache\<close> follows one process that keeps to the rules, here
  any number of processes make any calls in any order: reads of any block of any device, changes to the
  data of any buffer, and \<^verbatim>\<open>bwrite\<close>, \<^verbatim>\<open>brelse\<close>, \<^verbatim>\<open>bpin\<close> and \<^verbatim>\<open>bunpin\<close> of any buffer, held or not.
\<close>

section \<open>Calls\<close>

text \<open>The hart runs process \<open>q\<close>.\<close>

definition as_proc :: "nat \<Rightarrow> kernel \<Rightarrow> kernel" where
  "as_proc q s = s\<lparr>hw := set_mycpu (\<lambda>c. c\<lparr>cpu_proc := Some q\<rparr>) (hw s)\<rparr>"



section \<open>The invariant\<close>





lemma as_proc_simps [simp]:
  "bcache (as_proc q s) = bcache s" "procs (as_proc q s) = procs s" "sleeplocks (as_proc q s) = sleeplocks s"
  "disk (as_proc q s) = disk s"
  by (simp_all add: as_proc_def)










section \<open>What the calls do\<close>











section \<open>From \<^verbatim>\<open>binit\<close> on\<close>

definition binit_frame :: "kernel \<Rightarrow> kernel \<Rightarrow> bool" where
  "binit_frame s t \<longleftrightarrow> procs t = procs s \<and> cpus (hw t) = cpus (hw s) \<and> tp (hw t) = tp (hw s) \<and>
     map core (bcache t) = map core (bcache s)"

lemma binit_body_frame: "\<exists>u. binit_body k w t = Ret () u w \<and> binit_frame t u"
proof -
  let ?hw = "set_lock (SleepSpin (BufSL k)) (\<lambda>l. l\<lparr>lname := ''sleep lock'', locked := 0, lcpu := None\<rparr>) (hw t)"
  let ?sl = "(sleeplocks t)(BufSL k := (sleeplocks t (BufSL k))\<lparr>sl_name := ''buffer'', sl_locked := 0, sl_pid := 0\<rparr>)"
  let ?u = "t\<lparr>hw := ?hw, sleeplocks := ?sl, bcache := inserted k (bcache t)\<rparr>"
  have "binit_body k w t = Ret () ?u w"
    by (simp add: binit_body_def kapply initsleeplock_def initlock_def upd_lock_def inserted_def Let_def)
  moreover have "map core (inserted k (bcache t)) = map core (bcache t)"
    by (simp only: inserted_def Let_def core_update core_links)
  ultimately show ?thesis by (simp add: binit_frame_def)
qed

lemma binit_loop_frame: "\<exists>u. kfor ks binit_body w t = Ret () u w \<and> binit_frame t u"
proof (induction ks arbitrary: t)
  case Nil
  show ?case by (simp add: kapply binit_frame_def)
next
  case (Cons k ks)
  obtain u where u: "binit_body k w t = Ret () u w" "binit_frame t u" using binit_body_frame by blast
  obtain v where "kfor ks binit_body w u = Ret () v w" "binit_frame u v" using Cons by blast
  then show ?case using u by (simp add: kapply binit_frame_def)
qed

lemma binit_frame: "binit w s = Ret () t w \<Longrightarrow> binit_frame s t"
proof -
  assume e: "binit w s = Ret () t w"
  let ?hw = "set_lock BcacheLock (\<lambda>l. l\<lparr>lname := ''bcache'', locked := 0, lcpu := None\<rparr>) (hw s)"
  let ?bs = "(bcache s)[BHEAD := (bcache s ! BHEAD)\<lparr>b_prev := BHEAD\<rparr>]"
  let ?bt = "?bs[BHEAD := (?bs ! BHEAD)\<lparr>b_next := BHEAD\<rparr>]"
  let ?t = "s\<lparr>hw := ?hw, bcache := ?bt\<rparr>"
  have m: "map core ?bt = map core (bcache s)" by (simp only: core_update core_links)
  obtain u where u: "kfor [0..<NBUF] binit_body w ?t = Ret () u w" "binit_frame ?t u" using binit_loop_frame by blast
  then have "t = u" using e by (simp add: binit_eq kapply initlock_def upd_lock_def)
  then show ?thesis using u(2) m by (simp add: binit_frame_def)
qed






end
