(* ===== verification/Logsafe.thy ===== *)
theory Logsafe
  imports Log Bcache
begin

unbundle bit_operations_syntax

text \<open>
  The log of \<^verbatim>\<open>kernel/log.c\<close> makes the writes of a transaction atomic: a crash leaves on the disk some first part
  of the block writes done so far, and recovery from it gives either all of the old blocks or all of the
  new ones. The proofs go through the store of \<open>Bcache\<close>, where a run of the log's code is a list of writes.
\<close>

section \<open>Lists of writes\<close>

definition apply_writes :: "(uint \<times> byte list) list \<Rightarrow> (uint \<Rightarrow> byte list) \<Rightarrow> uint \<Rightarrow> byte list" where
  "apply_writes ws d = fold (\<lambda>(b, x) f. f(b := x)) ws d"

lemma apply_writes_simps [simp]:
  "apply_writes [] d = d" "apply_writes ((b, x) # ws) d = apply_writes ws (d(b := x))"
  "apply_writes (ws @ vs) d = apply_writes vs (apply_writes ws d)"
  by (simp_all add: apply_writes_def)

lemma apply_writes_notin: "x \<notin> fst ` set ws \<Longrightarrow> apply_writes ws d x = d x"
  by (induction ws arbitrary: d) auto

lemma apply_writes_in:
  assumes "x \<in> fst ` set ws" "\<And>b y. (b, y) \<in> set ws \<Longrightarrow> b = x \<Longrightarrow> y = v"
  shows "apply_writes ws d x = v"
  using assms
proof (induction ws rule: rev_induct)
  case (snoc z ws)
  obtain b y where z: "z = (b, y)" by (cases z)
  show ?case
  proof (cases "b = x")
    case True
    then show ?thesis using snoc.prems(2) [of b y] by (simp add: z)
  next
    case False
    have "apply_writes ws d x = v"
    proof (rule snoc.IH)
      show "x \<in> fst ` set ws" using snoc.prems(1) False by (auto simp: z)
      show "y = v" if "(b, y) \<in> set ws" "b = x" for b y using snoc.prems(2) [of b y] that by simp
    qed
    then show ?thesis using False by (simp add: z)
  qed
qed simp

lemma apply_writes_agree: "d x = e x \<Longrightarrow> apply_writes ws d x = apply_writes ws e x"
proof (induction ws arbitrary: d e)
  case (Cons z ws)
  obtain b y where z: "z = (b, y)" by (cases z)
  have "(d(b := y)) x = (e(b := y)) x" using Cons.prems by simp
  then show ?case unfolding z apply_writes_simps by (rule Cons.IH)
qed simp

lemma apply_writes_map:
  assumes "i < n" "\<And>j. j < n \<Longrightarrow> g j = g i \<Longrightarrow> h j = h i"
  shows "apply_writes (map (\<lambda>i. (g i, h i)) [0..<n]) d (g i) = h i"
proof (rule apply_writes_in)
  show "g i \<in> fst ` set (map (\<lambda>i. (g i, h i)) [0..<n])" using assms(1) by (auto simp: image_iff)
  fix b y assume "(b, y) \<in> set (map (\<lambda>i. (g i, h i)) [0..<n])" "b = g i"
  then obtain j where "j < n" "g j = g i" "y = h j" by auto
  then show "y = h i" using assms(2) by blast
qed

definition st_all :: "(uint \<times> byte list) list \<Rightarrow> store \<Rightarrow> store" where
  "st_all ws a = a\<lparr>st_view := apply_writes ws (st_view a), st_disk := apply_writes ws (st_disk a), st_writes := st_writes a @ ws\<rparr>"

lemma st_all_simps [simp]:
  "st_view (st_all ws a) = apply_writes ws (st_view a)" "st_disk (st_all ws a) = apply_writes ws (st_disk a)"
  "st_writes (st_all ws a) = st_writes a @ ws" "st_refs (st_all ws a) = st_refs a" "st_log (st_all ws a) = st_log a"
  by (simp_all add: st_all_def)

lemma st_all_append: "st_all (ws @ vs) a = st_all vs (st_all ws a)"
  by (simp add: st_all_def)

lemma st_all_Nil [simp]: "st_all [] a = a"
  by (simp add: st_all_def)

section \<open>One block\<close>

text \<open>A process that holds nothing, with the log's header \<open>l\<close> in memory.\<close>

definition idle :: "uint \<Rightarrow> nat \<Rightarrow> log \<Rightarrow> kernel \<Rightarrow> bool" where
  "idle dev p l s \<longleftrightarrow> bio dev p Map.empty s \<and> klog s = l \<and> log_dev l = dev"

lemma idle_next: "idle dev p l s \<Longrightarrow> bio dev p Map.empty t \<Longrightarrow> st_log (store dev t) = st_log (store dev s) \<Longrightarrow> idle dev p l t"
  by (simp add: idle_def)

lemma card_ref:
  fixes R :: "uint \<Rightarrow> uint"
  shows "card {x. (R(b := v)) x \<noteq> 0} \<le> Suc (card {x. R x \<noteq> 0})"
proof -
  have f: "finite {x. R x \<noteq> 0}" by (rule finite_subset [OF subset_UNIV]) simp
  then have "card {x. (R(b := v)) x \<noteq> 0} \<le> card (insert b {x. R x \<noteq> 0})" by (intro card_mono) auto
  also have "\<dots> \<le> Suc (card {x. R x \<noteq> 0})" using f by (simp add: card_insert_if)
  finally show ?thesis .
qed

lemma storeD:
  assumes "store dev t = a"
  shows "view dev t = st_view a" "refs dev t = st_refs a" "disk t = st_disk a" "klog t = st_log a" "disk_writes t = st_writes a"
  using assms by auto

lemmas st_defs = st_ref_def st_unref_def st_put_def st_sync_def st_all_def

lemma brelse_to:
  assumes "bio dev p H s" "H bno = Some b" "refs dev s bno = 1 \<Longrightarrow> view dev s bno = disk s bno" "H(bno := None) = H'"
  obtains t where "brelse b w s = Ret () t w" "bio dev p H' t" "store dev t = st_unref bno (store dev s)"
  using brelse_run [OF assms(1-3)] unfolding assms(4) by blast

lemma single_drop: "[x \<mapsto> b](x := None) = Map.empty" "y \<noteq> x \<Longrightarrow> [x \<mapsto> b, y \<mapsto> c](x := None) = [y \<mapsto> c]"
  "y \<noteq> x \<Longrightarrow> [x \<mapsto> b, y \<mapsto> c](y := None) = [x \<mapsto> b]"
  by (simp_all add: fun_eq_iff)

lemma write_head_run:
  assumes s: "idle dev p l s" and b: "bno = log_block l 0" "refs dev s bno = 0" and few: "card {x. refs dev s x \<noteq> 0} < NBUF"
  obtains t where "write_head w s = Ret () t w" "idle dev p l t"
    "store dev t = st_all [(bno, put_head (log_lh l) (view dev s bno))] (store dev s)"
proof -
  have i: "bio dev p Map.empty s" "klog s = l" "log_dev l = dev" using s by (simp_all add: idle_def)
  obtain c t1 where t1: "bread dev bno w s = Ret c t1 w" "bio dev p [bno \<mapsto> c] t1" "store dev t1 = st_ref bno (store dev s)"
    by (rule bread_run [OF i(1), of bno w]) (use b few in simp_all)
  have h: "[bno \<mapsto> c] bno = Some c" by simp
  have v1: "view dev t1 = view dev s" "refs dev t1 bno = 1" "refs dev t1 bno \<noteq> 0"
    using storeD [OF t1(3)] b by (simp_all add: st_defs)
  obtain t2 where t2: "upd_buf c (\<lambda>r. r\<lparr>b_data := put_head (log_lh l) (b_data r)\<rparr>) w t1 = Ret () t2 w" "bio dev p [bno \<mapsto> c] t2"
    "store dev t2 = st_put bno (put_head (log_lh l) (view dev t1 bno)) (store dev t1)"
    by (rule put_run [OF t1(2) h v1(3)])
  obtain t3 where t3: "bwrite c w t2 = Ret () t3 w" "bio dev p [bno \<mapsto> c] t3" "store dev t3 = st_sync bno (store dev t2)"
    by (rule bwrite_run [OF t2(2) h])
  have c3: "view dev t3 bno = disk t3 bno" using storeD [OF t3(3)] by (simp add: st_defs)
  obtain t4 where t4: "brelse c w t3 = Ret () t4 w" "bio dev p Map.empty t4" "store dev t4 = st_unref bno (store dev t3)"
    by (rule brelse_to [OF t3(2) h c3 single_drop(1)])
  have st: "store dev t4 = st_all [(bno, put_head (log_lh l) (view dev s bno))] (store dev s)"
    unfolding t4(3) t3(3) t2(3) t1(3) v1(1) by (simp add: st_defs)
  have "write_head w s = Ret () t4 w"
    using t1(1) t2(1) t3(1) t4(1) by (simp add: write_head_def kbind_apply kget_apply kret_apply i b)
  moreover have "idle dev p l t4" by (rule idle_next [OF s t4(2)]) (simp add: st)
  ultimately show ?thesis using that st by blast
qed

text \<open>Two buffers at a time, as the loops of \<^verbatim>\<open>write_log\<close> and \<^verbatim>\<open>install_trans\<close> hold them.\<close>

lemma bread_two:
  assumes s: "bio dev p Map.empty s" and x: "refs dev s x = 0" and y: "y \<noteq> x" "refs dev s y \<noteq> - 1"
    and few: "card {z. refs dev s z \<noteq> 0} < NBUF" "refs dev s y \<noteq> 0 \<or> Suc (card {z. refs dev s z \<noteq> 0}) < NBUF"
  obtains b c t u where "bread dev x w s = Ret b t w" "klog t = klog s" "bread dev y w t = Ret c u w" "bio dev p [x \<mapsto> b, y \<mapsto> c] u"
    "store dev u = st_ref y (st_ref x (store dev s))" "b_data (bcache u ! b) = view dev s x" "b_data (bcache u ! c) = view dev s y"
proof -
  obtain b t where t: "bread dev x w s = Ret b t w" "bio dev p [x \<mapsto> b] t" "store dev t = st_ref x (store dev s)"
    by (rule bread_run [OF s, of x w]) (use x few in simp_all)
  have v: "view dev t = view dev s" "refs dev t = (refs dev s)(x := 1)" "klog t = klog s"
    using storeD [OF t(3)] x by (simp_all add: st_defs)
  have n: "[x \<mapsto> b] y = None" "\<And>z. z \<in> dom [x \<mapsto> b] \<Longrightarrow> refs dev t z \<noteq> 0" "refs dev t y \<noteq> - 1"
    using y unfolding v by (auto split: if_splits)
  have "card {z. refs dev t z \<noteq> 0} \<le> Suc (card {z. refs dev s z \<noteq> 0})" unfolding v by (rule card_ref)
  moreover have "refs dev t y = refs dev s y" using y by (simp add: v)
  ultimately have m: "refs dev t y \<noteq> 0 \<or> card {z. refs dev t z \<noteq> 0} < NBUF" using few(2) by auto
  obtain c u where u: "bread dev y w t = Ret c u w" "bio dev p [x \<mapsto> b, y \<mapsto> c] u" "store dev u = st_ref y (store dev t)"
    by (rule bread_run [OF t(2) n m])
  have h: "[x \<mapsto> b, y \<mapsto> c] x = Some b" "[x \<mapsto> b, y \<mapsto> c] y = Some c" using y by simp_all
  have "view dev u = view dev s" using storeD [OF u(3)] v by (simp add: st_defs)
  then show ?thesis using that [OF t(1) v(3) u(1,2)] u(3) t(3) held_data [OF u(2) h(1)] held_data [OF u(2) h(2)] by simp
qed

lemma write_log_one_run:
  assumes s: "idle dev p l s" and lb: "lb = log_block l (k + 1)" "refs dev s lb = 0"
    and blk: "blk = lh_block (log_lh l) ! k" "refs dev s blk \<noteq> 0" "refs dev s blk \<noteq> - 1"
    and few: "card {x. refs dev s x \<noteq> 0} < NBUF"
  obtains t where "write_log_one k w s = Ret () t w" "idle dev p l t"
    "store dev t = st_all [(lb, view dev s blk)] (store dev s)"
proof -
  have i: "bio dev p Map.empty s" "klog s = l" "log_dev l = dev" using s by (simp_all add: idle_def)
  have ne: "blk \<noteq> lb" using lb blk by auto
  have few2: "refs dev s blk \<noteq> 0 \<or> Suc (card {z. refs dev s z \<noteq> 0}) < NBUF" using blk(2) by simp
  obtain c e t1 t2 where t1: "bread dev lb w s = Ret c t1 w" "klog t1 = klog s"
    and t2: "bread dev blk w t1 = Ret e t2 w" "bio dev p [lb \<mapsto> c, blk \<mapsto> e] t2"
      "store dev t2 = st_ref blk (st_ref lb (store dev s))" "b_data (bcache t2 ! e) = view dev s blk"
    by (rule bread_two [OF i(1) lb(2) ne blk(3) few few2])
  have r2: "refs dev t2 lb \<noteq> 0" using storeD [OF t2(3)] ne lb by (simp add: st_defs)
  have h: "[lb \<mapsto> c, blk \<mapsto> e] lb = Some c" "[lb \<mapsto> c, blk \<mapsto> e] blk = Some e" using ne by simp_all
  obtain t3 where t3: "upd_buf c (\<lambda>r. r\<lparr>b_data := view dev s blk\<rparr>) w t2 = Ret () t3 w" "bio dev p [lb \<mapsto> c, blk \<mapsto> e] t3"
    "store dev t3 = st_put lb (view dev s blk) (store dev t2)"
    by (rule put_run [OF t2(2) h(1) r2])
  obtain t4 where t4: "bwrite c w t3 = Ret () t4 w" "bio dev p [lb \<mapsto> c, blk \<mapsto> e] t4" "store dev t4 = st_sync lb (store dev t3)"
    by (rule bwrite_run [OF t3(2) h(1)])
  have r4: "refs dev t4 blk = 1 \<Longrightarrow> view dev t4 blk = disk t4 blk"
    using storeD [OF t4(3)] ne blk lb by (simp add: st_defs t3(3) t2(3))
  obtain t5 where t5: "brelse e w t4 = Ret () t5 w" "bio dev p [lb \<mapsto> c] t5" "store dev t5 = st_unref blk (store dev t4)"
    by (rule brelse_to [OF t4(2) h(2) r4 single_drop(3) [OF ne]])
  have h5: "[lb \<mapsto> c] lb = Some c" and r5: "view dev t5 lb = disk t5 lb"
    using storeD [OF t5(3)] ne by (simp_all add: st_defs t4(3))
  obtain t6 where t6: "brelse c w t5 = Ret () t6 w" "bio dev p Map.empty t6" "store dev t6 = st_unref lb (store dev t5)"
    by (rule brelse_to [OF t5(2) h5 r5 single_drop(1)])
  have st: "store dev t6 = st_all [(lb, view dev s blk)] (store dev s)"
    unfolding t6(3) t5(3) t4(3) t3(3) t2(3) using ne by (simp add: st_defs fun_upd_twist)
  have "write_log_one k w s = Ret () t6 w"
    using t1 t2(1,4) t3(1) t4(1) t5(1) t6(1)
    by (simp add: write_log_one_def kbind_apply kget_apply kret_apply get_buf_apply i lb(1) blk(1))
  moreover have "idle dev p l t6" by (rule idle_next [OF s t6(2)]) (simp add: st)
  ultimately show ?thesis using that st by blast
qed

lemma install_one_run:
  assumes s: "idle dev p l s" and lb: "lb = log_block l (k + 1)" "refs dev s lb = 0" "view dev s lb = disk s lb"
    and blk: "blk = lh_block (log_lh l) ! k" "blk \<noteq> lb" "refs dev s blk \<noteq> - 1"
    and few: "card {x. refs dev s x \<noteq> 0} < NBUF" "refs dev s blk \<noteq> 0 \<or> Suc (card {z. refs dev s z \<noteq> 0}) < NBUF"
  obtains t where "install_one k w s = Ret () t w" "idle dev p l t"
    "store dev t = st_unref blk (st_all [(blk, view dev s lb)] (store dev s))"
proof -
  have i: "bio dev p Map.empty s" "klog s = l" "log_dev l = dev" using s by (simp_all add: idle_def)
  obtain c e t1 t2 where t1: "bread dev lb w s = Ret c t1 w" "klog t1 = klog s"
    and t2: "bread dev blk w t1 = Ret e t2 w" "bio dev p [lb \<mapsto> c, blk \<mapsto> e] t2"
      "store dev t2 = st_ref blk (st_ref lb (store dev s))" "b_data (bcache t2 ! c) = view dev s lb"
    by (rule bread_two [OF i(1) lb(2) blk(2,3) few])
  have h: "[lb \<mapsto> c, blk \<mapsto> e] lb = Some c" "[lb \<mapsto> c, blk \<mapsto> e] blk = Some e" using blk(2) by simp_all
  have "refs dev s blk + 1 \<noteq> 0" using blk(3) by (simp add: eq_neg_iff_add_eq_0)
  then have r2: "refs dev t2 blk \<noteq> 0" using storeD [OF t2(3)] blk(2) by (simp add: st_defs)
  obtain t3 where t3: "upd_buf e (\<lambda>r. r\<lparr>b_data := view dev s lb\<rparr>) w t2 = Ret () t3 w" "bio dev p [lb \<mapsto> c, blk \<mapsto> e] t3"
    "store dev t3 = st_put blk (view dev s lb) (store dev t2)"
    by (rule put_run [OF t2(2) h(2) r2])
  obtain t4 where t4: "bwrite e w t3 = Ret () t4 w" "bio dev p [lb \<mapsto> c, blk \<mapsto> e] t4" "store dev t4 = st_sync blk (store dev t3)"
    by (rule bwrite_run [OF t3(2) h(2)])
  have r4: "view dev t4 blk = disk t4 blk" using storeD [OF t4(3)] by (simp add: st_defs)
  obtain t5 where t5: "bunpin e w t4 = Ret () t5 w" "bio dev p [lb \<mapsto> c, blk \<mapsto> e] t5" "store dev t5 = st_unref blk (store dev t4)"
    by (rule bunpin_run [OF t4(2) h(2) r4])
  have r5: "view dev t5 lb = disk t5 lb"
    using storeD [OF t5(3)] blk(2) lb(3) by (simp add: st_defs t4(3) t3(3) t2(3))
  obtain t6 where t6: "brelse c w t5 = Ret () t6 w" "bio dev p [blk \<mapsto> e] t6" "store dev t6 = st_unref lb (store dev t5)"
    by (rule brelse_to [OF t5(2) h(1) r5 single_drop(2) [OF blk(2)]])
  have h6: "[blk \<mapsto> e] blk = Some e" and r6: "view dev t6 blk = disk t6 blk"
    using storeD [OF t6(3)] by (simp_all add: st_defs t5(3) t4(3))
  obtain t7 where t7: "brelse e w t6 = Ret () t7 w" "bio dev p Map.empty t7" "store dev t7 = st_unref blk (store dev t6)"
    by (rule brelse_to [OF t6(2) h6 r6 single_drop(1)])
  have st: "store dev t7 = st_unref blk (st_all [(blk, view dev s lb)] (store dev s))"
    unfolding t7(3) t6(3) t5(3) t4(3) t3(3) t2(3) using blk(2) by (simp add: st_defs fun_upd_twist)
  have "install_one k w s = Ret () t7 w"
    using t1 t2(1,4) t3(1) t4(1) t5(1) t6(1) t7(1)
    by (simp add: install_one_def kbind_apply kget_apply kret_apply get_buf_apply i lb(1) blk(1))
  moreover have "idle dev p l t7" by (rule idle_next [OF s t7(2)]) (simp add: st st_unref_def)
  ultimately show ?thesis using that st by blast
qed

section \<open>The loops\<close>

text \<open>
  The header block, the blocks of the log and the home blocks of the transaction. The log has the
  \<open>LOGSIZE\<close> blocks that \<^verbatim>\<open>mkfs\<close> gives it: the header and \<open>LOGSIZE - 1\<close> blocks of data.
\<close>

definition home :: "log \<Rightarrow> nat \<Rightarrow> uint" where
  "home l i = lh_block (log_lh l) ! i"

definition log_region :: "log \<Rightarrow> uint set" where
  "log_region l = log_block l ` {0..<LOGSIZE}"

lemma log_block_inj:
  assumes "i \<le> LOGSIZE" "j \<le> LOGSIZE" shows "log_block l i = log_block l j \<longleftrightarrow> i = j"
proof
  assume "log_block l i = log_block l j"
  then have "(of_int (int i) :: uint) = of_int (int j)" by (simp add: log_block_def)
  then have "(of_nat i :: uint) = of_nat j" by simp
  then have "unat (of_nat i :: uint) = unat (of_nat j :: uint)" by simp
  then show "i = j" using assms by (simp add: unat_of_nat LOGSIZE_def MAXOPBLOCKS_def take_bit_nat_eq_self)
qed simp

lemma in_region: "i < LOGSIZE \<Longrightarrow> log_block l i \<in> log_region l"
  by (auto simp: log_region_def)

lemma head_in_region [simp]: "log_block l 0 \<in> log_region l"
  by (rule in_region) (simp add: LOGSIZE_def MAXOPBLOCKS_def)

definition log_part :: "log \<Rightarrow> (uint \<Rightarrow> byte list) \<Rightarrow> nat \<Rightarrow> (uint \<times> byte list) list" where
  "log_part l v n = map (\<lambda>i. (log_block l (i + 1), v (home l i))) [0..<n]"

definition home_part :: "log \<Rightarrow> (uint \<Rightarrow> byte list) \<Rightarrow> nat \<Rightarrow> (uint \<times> byte list) list" where
  "home_part l v n = map (\<lambda>i. (home l i, v (log_block l (i + 1)))) [0..<n]"

lemma log_part_in: "i < n \<Longrightarrow> n < LOGSIZE \<Longrightarrow> apply_writes (log_part l v n) d (log_block l (i + 1)) = v (home l i)"
  unfolding log_part_def by (rule apply_writes_map) (simp_all add: log_block_inj)

lemma log_part_out: "n < LOGSIZE \<Longrightarrow> x \<notin> log_region l \<or> x = log_block l 0 \<Longrightarrow> apply_writes (log_part l v n) d x = d x"
proof (rule apply_writes_notin)
  assume a: "n < LOGSIZE" "x \<notin> log_region l \<or> x = log_block l 0"
  have "x \<noteq> log_block l (i + 1)" if "i < n" for i
    using a that in_region [of "i + 1" l] log_block_inj [of 0 "i + 1" l] by auto
  then show "x \<notin> fst ` set (log_part l v n)" by (fastforce simp: log_part_def)
qed

lemma home_part_in:
  "i < n \<Longrightarrow> inj_on (home l) {0..<n} \<Longrightarrow> apply_writes (home_part l v n) d (home l i) = v (log_block l (i + 1))"
  unfolding home_part_def by (rule apply_writes_map) (auto dest: inj_onD)

lemma home_part_out: "x \<notin> home l ` {0..<n} \<Longrightarrow> apply_writes (home_part l v n) d x = d x"
  by (rule apply_writes_notin) (auto simp: home_part_def)

lemma log_part_Suc: "log_part l v (Suc n) = log_part l v n @ [(log_block l (n + 1), v (home l n))]"
  by (simp add: log_part_def)

lemma home_part_Suc: "home_part l v (Suc n) = home_part l v n @ [(home l n, v (log_block l (n + 1)))]"
  by (simp add: home_part_def)

text \<open>A transaction of \<open>n\<close> blocks: home blocks are distinct and outside the log.\<close>

definition trans_ok :: "log \<Rightarrow> nat \<Rightarrow> bool" where
  "trans_ok l n \<longleftrightarrow> n < NBUF \<and> inj_on (home l) {0..<n} \<and> home l ` {0..<n} \<inter> log_region l = {}"

lemma NBUF_LOGSIZE: "NBUF = LOGSIZE"
  by (simp add: NBUF_def LOGSIZE_def)

lemma trans_home: "trans_ok l n \<Longrightarrow> i < n \<Longrightarrow> home l i \<notin> log_region l"
  unfolding trans_ok_def by (metis IntI atLeastLessThan_iff emptyE imageI le0)

lemma card_image_refs:
  assumes "refs dev s = (\<lambda>x. if x \<in> home l ` A then c else 0)" "finite A" shows "card {x. refs dev s x \<noteq> 0} \<le> card A"
proof -
  have "{x. refs dev s x \<noteq> 0} \<subseteq> home l ` A" unfolding assms(1) by auto
  then show ?thesis using assms(2) by (meson card_image_le card_mono finite_imageI le_trans)
qed

lemma write_log_loop:
  assumes s: "idle dev p l s" and ok: "trans_ok l n" and r: "refs dev s = (\<lambda>x. if x \<in> home l ` {0..<n} then 1 else 0)"
  shows "k \<le> n \<Longrightarrow> \<exists>t. kfor [0..<k] write_log_one w s = Ret () t w \<and> idle dev p l t \<and>
    store dev t = st_all (log_part l (view dev s) k) (store dev s)"
proof (induction k)
  case 0
  then show ?case using s by (simp add: kapply log_part_def)
next
  case (Suc k)
  then obtain t where t: "kfor [0..<k] write_log_one w s = Ret () t w" "idle dev p l t"
    "store dev t = st_all (log_part l (view dev s) k) (store dev s)" by auto
  have n: "n < LOGSIZE" "n < NBUF" using ok by (simp_all add: trans_ok_def NBUF_LOGSIZE)
  have rt: "refs dev t = refs dev s" using storeD [OF t(3)] by simp
  have "log_block l (k + 1) \<in> log_region l" by (rule in_region) (use Suc n in simp)
  then have l0: "refs dev t (log_block l (k + 1)) = 0" using ok by (auto simp: rt r trans_ok_def)
  have b: "refs dev t (home l k) = 1" using Suc by (simp add: rt r)
  have few: "card {x. refs dev t x \<noteq> 0} < NBUF" using card_image_refs [OF r] n rt by simp
  have v: "view dev t (home l k) = view dev s (home l k)"
    using storeD(1) [OF t(3)] log_part_out [of k "home l k" l] trans_home [OF ok, of k] Suc n by simp
  obtain u where u: "write_log_one k w t = Ret () u w" "idle dev p l u"
    "store dev u = st_all [(log_block l (k + 1), view dev t (home l k))] (store dev t)"
    by (rule write_log_one_run [OF t(2) refl l0 home_def _ _ few]) (use b in simp_all)
  have "store dev u = st_all (log_part l (view dev s) (Suc k)) (store dev s)"
    unfolding u(3) t(3) v log_part_Suc st_all_append ..
  then show ?case using t(1) u(1,2) by (simp add: kfor_append kapply)
qed

lemma install_loop:
  assumes s: "idle dev p l s" and ok: "trans_ok l n" and r: "\<And>x. refs dev s x = (if x \<in> home l ` {0..<n} then c else 0)"
    and c: "c = 0 \<or> c = 1" and clean: "\<And>x. x \<in> log_region l \<Longrightarrow> view dev s x = disk s x"
  shows "k \<le> n \<Longrightarrow> \<exists>t. kfor [0..<k] install_one w s = Ret () t w \<and> idle dev p l t \<and>
    store dev t = (st_all (home_part l (view dev s) k) (store dev s))
      \<lparr>st_refs := \<lambda>x. if x \<in> home l ` {0..<k} then c - 1 else refs dev s x\<rparr>"
proof (induction k)
  case 0
  then show ?case using s by (simp add: kapply home_part_def)
next
  case (Suc k)
  let ?R = "\<lambda>k x. if x \<in> home l ` {0..<k} then c - 1 else refs dev s x"
  obtain t where t: "kfor [0..<k] install_one w s = Ret () t w" "idle dev p l t"
    "store dev t = (st_all (home_part l (view dev s) k) (store dev s))\<lparr>st_refs := ?R k\<rparr>" using Suc by auto
  have n: "n < LOGSIZE" "n < NBUF" using ok by (simp_all add: trans_ok_def NBUF_LOGSIZE)
  let ?lb = "log_block l (k + 1)"
  have rt: "refs dev t = ?R k" using storeD [OF t(3)] by simp
  have lr: "?lb \<in> log_region l" by (rule in_region) (use Suc n in simp)
  have nh: "?lb \<notin> home l ` {0..<n}" using ok lr unfolding trans_ok_def by blast
  moreover have "home l ` {0..<k} \<subseteq> home l ` {0..<n}" using Suc by auto
  ultimately have nk: "?lb \<notin> home l ` {0..<k}" by blast
  have kn: "home l k \<in> home l ` {0..<n}" by (rule imageI) (use Suc in simp)
  have l0: "refs dev t ?lb = 0" using nh nk by (simp add: rt r)
  have hk: "home l k \<notin> home l ` {0..<k}" using ok Suc by (auto simp: trans_ok_def dest: inj_onD)
  have b: "refs dev t (home l k) = c" using hk Suc by (simp add: rt r)
  have v: "view dev t ?lb = view dev s ?lb" "disk t ?lb = disk s ?lb"
    using storeD(1,3) [OF t(3)] home_part_out [OF nk] by simp_all
  have few: "card {x. refs dev t x \<noteq> 0} < NBUF" "refs dev t (home l k) \<noteq> 0 \<or> Suc (card {x. refs dev t x \<noteq> 0}) < NBUF"
  proof -
    have "card {x. refs dev t x \<noteq> 0} \<le> (if c = 1 then n else k)"
    proof (cases "c = 1")
      case True
      have "{x. refs dev t x \<noteq> 0} \<subseteq> home l ` {0..<n}" unfolding rt r True by auto
      then have "card {x. refs dev t x \<noteq> 0} \<le> card {0..<n}" by (meson card_image_le card_mono finite_imageI finite_atLeastLessThan le_trans)
      then show ?thesis using True by simp
    next
      case False
      then have "{x. refs dev t x \<noteq> 0} \<subseteq> home l ` {0..<k}" using c unfolding rt r by auto
      then have "card {x. refs dev t x \<noteq> 0} \<le> card {0..<k}" by (meson card_image_le card_mono finite_imageI finite_atLeastLessThan le_trans)
      then show ?thesis using False by simp
    qed
    then show "card {x. refs dev t x \<noteq> 0} < NBUF" "refs dev t (home l k) \<noteq> 0 \<or> Suc (card {x. refs dev t x \<noteq> 0}) < NBUF"
      using n Suc c b by (auto split: if_splits)
  qed
  have x: "view dev t ?lb = disk t ?lb" "home l k \<noteq> ?lb" "refs dev t (home l k) \<noteq> - 1"
    using v clean [OF lr] b c kn nh by auto
  obtain u where u: "install_one k w t = Ret () u w" "idle dev p l u"
    "store dev u = st_unref (home l k) (st_all [(home l k, view dev t ?lb)] (store dev t))"
    by (rule install_one_run [OF t(2) refl l0 x(1) home_def x(2,3) few])
  have "home l ` {0..<Suc k} = insert (home l k) (home l ` {0..<k})" by (simp add: atLeast0_lessThan_Suc)
  then have "?R (Suc k) = (?R k)(home l k := ?R k (home l k) - 1)"
    using hk kn r [of "home l k"] by (simp add: fun_eq_iff)
  then have "store dev u = (st_all (home_part l (view dev s) (Suc k)) (store dev s))\<lparr>st_refs := ?R (Suc k)\<rparr>"
    unfolding u(3) t(3) v home_part_Suc by (simp add: st_defs)
  then show ?case using t(1) u(1,2) by (simp add: kfor_append kapply)
qed

section \<open>The header block\<close>

lemma put_blocks_length [simp]: "4 + 4 * (i + length xs) \<le> length bs \<Longrightarrow> length (put_blocks bs i xs) = length bs"
  by (induction xs arbitrary: bs i) simp_all

lemma put_blocks_n: "4 + 4 * (i + length xs) \<le> length bs \<Longrightarrow> get32 (put_blocks bs i xs) 0 = get32 bs 0"
  by (induction xs arbitrary: bs i) (simp_all add: get32_put32_other)

lemma put_blocks_before: "4 + 4 * (i + length xs) \<le> length bs \<Longrightarrow> j < i \<Longrightarrow> head_block (put_blocks bs i xs) j = head_block bs j"
  by (induction xs arbitrary: bs i) (simp_all add: head_block_def get32_put32_other)

lemma put_blocks_at: "4 + 4 * (i + length xs) \<le> length bs \<Longrightarrow> j < length xs \<Longrightarrow> head_block (put_blocks bs i xs) (i + j) = xs ! j"
proof (induction xs arbitrary: bs i j)
  case (Cons x xs)
  let ?bs = "put32 bs (4 + 4 * i) x"
  have l: "4 + 4 * (Suc i + length xs) \<le> length ?bs" using Cons.prems by simp
  show ?case
  proof (cases j)
    case 0
    then show ?thesis using put_blocks_before [OF l, of i] Cons.prems by (simp add: head_block_def)
  next
    case (Suc m)
    then show ?thesis using Cons.IH [OF l, of m] Cons.prems by simp
  qed
qed simp

lemma put_head:
  assumes "length bs = BSIZE" "0 \<le> lh_n h" "lh_n h \<le> int LOGSIZE" "length (lh_block h) = LOGSIZE"
  shows "length (put_head h bs) = BSIZE" "head_n (put_head h bs) = lh_n h"
    "i < nat (lh_n h) \<Longrightarrow> head_block (put_head h bs) i = lh_block h ! i"
proof -
  let ?xs = "take (nat (lh_n h)) (lh_block h)" and ?bs = "put32 bs 0 (of_int (lh_n h))"
  have l: "4 + 4 * (0 + length ?xs) \<le> length ?bs" "length ?bs = BSIZE"
    using assms by (simp_all add: BSIZE_def LOGSIZE_def MAXOPBLOCKS_def)
  show "length (put_head h bs) = BSIZE" unfolding put_head_def using put_blocks_length [OF l(1)] l(2) by simp
  have "sint (of_int (lh_n h) :: uint) = lh_n h"
    using assms(2,3) by (simp add: sint_uint LOGSIZE_def MAXOPBLOCKS_def signed_take_bit_int_eq_self uint_word_of_int take_bit_int_eq_self)
  then show "head_n (put_head h bs) = lh_n h"
    unfolding head_n_def put_head_def put_blocks_n [OF l(1)] using assms(1) by (simp add: BSIZE_def)
  show "head_block (put_head h bs) i = lh_block h ! i" if "i < nat (lh_n h)"
    unfolding put_head_def using put_blocks_at [OF l(1), of i] that assms by simp
qed

section \<open>Commit and recovery\<close>

lemma bio_klog [simp]: "bio dev p H (s\<lparr>klog := l\<rparr>) = bio dev p H s"
proof -
  have "cached dev (s\<lparr>klog := l\<rparr>) = cached dev s" "cache_ok dev (s\<lparr>klog := l\<rparr>) = cache_ok dev s" by (rule store_cong; simp)+
  then show ?thesis by (simp add: bio_def bheld_def quiet_def)
qed

lemma store_klog [simp]: "store dev (s\<lparr>klog := l\<rparr>) = (store dev s)\<lparr>st_log := l\<rparr>"
proof -
  have "view dev (s\<lparr>klog := l\<rparr>) = view dev s" "refs dev (s\<lparr>klog := l\<rparr>) = refs dev s" by (rule store_cong; simp)+
  then show ?thesis by (simp add: store_def)
qed

lemma idle_klog: "idle dev p l s \<Longrightarrow> log_dev l' = dev \<Longrightarrow> idle dev p l' (s\<lparr>klog := l'\<rparr>)"
  by (simp add: idle_def)

definition emptied :: "log \<Rightarrow> log" where
  "emptied l = l\<lparr>log_lh := (log_lh l)\<lparr>lh_n := 0\<rparr>\<rparr>"

lemma emptied_simps [simp]:
  "log_dev (emptied l) = log_dev l" "log_block (emptied l) = log_block l" "home (emptied l) = home l"
  "lh_n (log_lh (emptied l)) = 0" "log_lh (emptied l) = (log_lh l)\<lparr>lh_n := 0\<rparr>" "log_region (emptied l) = log_region l"
  by (auto simp: emptied_def log_block_def home_def fun_eq_iff log_region_def)

definition commit_writes :: "log \<Rightarrow> (uint \<Rightarrow> byte list) \<Rightarrow> (uint \<times> byte list) list" where
  "commit_writes l v =
     (let n = nat (lh_n (log_lh l)); h = put_head (log_lh l) (v (log_block l 0))
      in log_part l v n @ [(log_block l 0, h)] @ map (\<lambda>i. (home l i, v (home l i))) [0..<n] @
         [(log_block l 0, put_head (log_lh (emptied l)) h)])"

lemma commit_run:
  assumes s: "idle dev p l s" and n: "n = nat (lh_n (log_lh l))" "0 < lh_n (log_lh l)" and ok: "trans_ok l n"
    and r: "refs dev s = (\<lambda>x. if x \<in> home l ` {0..<n} then 1 else 0)"
    and clean: "\<And>x. x \<notin> home l ` {0..<n} \<Longrightarrow> view dev s x = disk s x"
  obtains t where "commit w s = Ret () t w" "idle dev p (emptied l) t"
    "store dev t = (st_all (commit_writes l (view dev s)) (store dev s))\<lparr>st_refs := \<lambda>_. 0, st_log := emptied l\<rparr>"
proof -
  let ?hb = "log_block l 0" and ?v = "view dev s"
  have i: "klog s = l" "log_dev l = dev" using s by (simp_all add: idle_def)
  have nl: "n < LOGSIZE" using ok by (simp add: trans_ok_def NBUF_LOGSIZE)
  have hr: "?hb \<in> log_region l" by simp
  then have hh: "?hb \<notin> home l ` {0..<n}" using ok unfolding trans_ok_def by blast
  obtain t1 where t1: "kfor [0..<n] write_log_one w s = Ret () t1 w" "idle dev p l t1"
    "store dev t1 = st_all (log_part l ?v n) (store dev s)" using write_log_loop [OF s ok r order_refl, of w] by blast
  have r1: "refs dev t1 = refs dev s" using storeD [OF t1(3)] by simp
  have few: "card {x. refs dev t1 x \<noteq> 0} < NBUF" using card_image_refs [OF r] ok by (simp add: r1 trans_ok_def)
  have "refs dev t1 ?hb = 0" using hh by (simp add: r1 r)
  then obtain t2 where t2: "write_head w t1 = Ret () t2 w" "idle dev p l t2"
    "store dev t2 = st_all [(?hb, put_head (log_lh l) (view dev t1 ?hb))] (store dev t1)"
    by (rule write_head_run [OF t1(2) refl _ few])
  have h1: "view dev t1 ?hb = ?v ?hb" using storeD(1) [OF t1(3)] log_part_out [OF nl, of ?hb] by simp
  have l2: "view dev t2 (log_block l (i + 1)) = ?v (home l i)" if "i < n" for i
    using storeD(1) [OF t2(3)] storeD(1) [OF t1(3)] log_part_in [OF that nl] log_block_inj [of "i + 1" 0 l] that nl by simp
  have c2: "view dev t2 x = disk t2 x" if "x \<in> log_region l" for x
  proof -
    have "x \<notin> home l ` {0..<n}" using that ok unfolding trans_ok_def by blast
    then have "?v x = disk s x" by (rule clean)
    then have "apply_writes (log_part l ?v n @ [(?hb, put_head (log_lh l) (view dev t1 ?hb))]) ?v x =
        apply_writes (log_part l ?v n @ [(?hb, put_head (log_lh l) (view dev t1 ?hb))]) (disk s) x"
      by (rule apply_writes_agree)
    then show ?thesis using storeD(1,3) [OF t2(3)] storeD(1,3) [OF t1(3)] by simp
  qed
  have r2: "refs dev t2 x = (if x \<in> home l ` {0..<n} then 1 else 0)" for x using storeD [OF t2(3)] by (simp add: r1 r)
  obtain t3 where t3: "kfor [0..<n] install_one w t2 = Ret () t3 w" "idle dev p l t3"
    "store dev t3 = (st_all (home_part l (view dev t2) n) (store dev t2))
      \<lparr>st_refs := \<lambda>x. if x \<in> home l ` {0..<n} then 1 - 1 else refs dev t2 x\<rparr>"
    using install_loop [OF t2(2) ok r2 _ c2 order_refl, of w] by auto
  have hp: "home_part l (view dev t2) n = map (\<lambda>i. (home l i, ?v (home l i))) [0..<n]"
    unfolding home_part_def by (rule map_cong) (use l2 in auto)
  have r3: "refs dev t3 = (\<lambda>_. 0)" using storeD(2) [OF t3(3)] r2 by (auto simp: fun_eq_iff)
  let ?t3 = "t3\<lparr>klog := emptied l\<rparr>"
  have s3: "store dev ?t3 = (store dev t3)\<lparr>st_log := emptied l\<rparr>" by simp
  have i3: "idle dev p (emptied l) ?t3" by (rule idle_klog [OF t3(2)]) (simp add: i)
  have x3: "?hb = log_block (emptied l) 0" "refs dev ?t3 ?hb = 0" "card {x. refs dev ?t3 x \<noteq> 0} < NBUF"
    using storeD(2) [OF s3] r3 by (simp_all add: NBUF_def MAXOPBLOCKS_def)
  obtain t4 where t4: "write_head w ?t3 = Ret () t4 w" "idle dev p (emptied l) t4"
    "store dev t4 = st_all [(?hb, put_head (log_lh (emptied l)) (view dev ?t3 ?hb))] (store dev ?t3)"
    by (rule write_head_run [OF i3 x3])
  have h3: "view dev ?t3 ?hb = put_head (log_lh l) (?v ?hb)"
    using storeD(1) [OF s3] storeD(1) [OF t3(3)] home_part_out [OF hh] storeD(1) [OF t2(3)] h1 by simp
  have st: "store dev t4 = (st_all (commit_writes l ?v) (store dev s))\<lparr>st_refs := \<lambda>_. 0, st_log := emptied l\<rparr>"
    unfolding t4(3) h3 s3 t3(3) hp t2(3) h1 t1(3) commit_writes_def Let_def n(1) [symmetric] st_all_append
    using r3 r2 by (simp add: st_defs fun_eq_iff)
  have k3: "klog t2 = l" "klog t3 = l" using t2(2) t3(2) by (simp_all add: idle_def)
  have "commit w s = Ret () t4 w"
    using n t1(1) t2(1) t3(1) t4(1) k3
    by (simp add: commit_def write_log_def install_trans_def kapply i emptied_def)
  then show ?thesis using that t4(2) st by blast
qed

text \<open>What \<^verbatim>\<open>read_head\<close> makes of the in-memory header.\<close>

definition load_blocks :: "byte list \<Rightarrow> nat \<Rightarrow> logheader \<Rightarrow> logheader" where
  "load_blocks d k h = h\<lparr>lh_block := fold (\<lambda>i bs. bs[i := head_block d i]) [0..<k] (lh_block h)\<rparr>"

definition loaded :: "byte list \<Rightarrow> log \<Rightarrow> log" where
  "loaded d l = l\<lparr>log_lh := load_blocks d (nat (head_n d)) ((log_lh l)\<lparr>lh_n := head_n d\<rparr>)\<rparr>"

lemma fold_set:
  fixes bs :: "'a list"
  shows "k \<le> length bs \<Longrightarrow> length (fold (\<lambda>i bs. bs[i := f i]) [0..<k] bs) = length bs \<and>
    (\<forall>i < k. fold (\<lambda>i bs. bs[i := f i]) [0..<k] bs ! i = f i)"
  by (induction k) (auto simp: nth_list_update)

lemma loaded_simps [simp]:
  "log_dev (loaded d l) = log_dev l" "log_block (loaded d l) = log_block l" "log_region (loaded d l) = log_region l"
  "lh_n (log_lh (loaded d l)) = head_n d" "log_start (loaded d l) = log_start l"
  by (auto simp: loaded_def log_block_def fun_eq_iff log_region_def load_blocks_def)

lemma loaded_home: "nat (head_n d) \<le> length (lh_block (log_lh l)) \<Longrightarrow> i < nat (head_n d) \<Longrightarrow> home (loaded d l) i = head_block d i"
  using fold_set [of "nat (head_n d)" "lh_block (log_lh l)" "head_block d"] by (simp add: loaded_def home_def load_blocks_def)

lemma read_head_loop:
  "kfor [0..<k] (\<lambda>i. upd_lh (\<lambda>h. h\<lparr>lh_block := (lh_block h)[i := head_block d i]\<rparr>)) w s =
    Ret () (s\<lparr>klog := (klog s)\<lparr>log_lh := load_blocks d k (log_lh (klog s))\<rparr>\<rparr>) w"
  by (induction k) (simp_all add: kapply kfor_append load_blocks_def)

lemma read_head_run:
  assumes s: "idle dev p l s" and b: "bno = log_block l 0" "refs dev s bno = 0" "view dev s bno = disk s bno"
    and few: "card {x. refs dev s x \<noteq> 0} < NBUF" and n: "head_n (disk s bno) \<le> int LOGSIZE"
  obtains t where "read_head w s = Ret () t w" "idle dev p (loaded (disk s bno) l) t"
    "store dev t = (store dev s)\<lparr>st_log := loaded (disk s bno) l\<rparr>"
proof -
  let ?d = "disk s bno"
  have i: "bio dev p Map.empty s" "klog s = l" "log_dev l = dev" using s by (simp_all add: idle_def)
  obtain c t1 where t1: "bread dev bno w s = Ret c t1 w" "bio dev p [bno \<mapsto> c] t1" "store dev t1 = st_ref bno (store dev s)"
    by (rule bread_run [OF i(1), of bno w]) (use b few in simp_all)
  have h: "[bno \<mapsto> c] bno = Some c" by simp
  have v1: "view dev t1 = view dev s" "klog t1 = l" "disk t1 = disk s" using storeD [OF t1(3)] i by (simp_all add: st_defs)
  have d: "b_data (bcache t1 ! c) = ?d" using held_data [OF t1(2) h] v1 b by simp
  let ?t2 = "t1\<lparr>klog := loaded ?d l\<rparr>"
  have t2: "bio dev p [bno \<mapsto> c] ?t2" "store dev ?t2 = (store dev t1)\<lparr>st_log := loaded ?d l\<rparr>" using t1(2) by simp_all
  have c2: "view dev ?t2 bno = disk ?t2 bno" using storeD(1,3) [OF t2(2)] v1 b by simp
  obtain t3 where t3: "brelse c w ?t2 = Ret () t3 w" "bio dev p Map.empty t3" "store dev t3 = st_unref bno (store dev ?t2)"
    by (rule brelse_to [OF t2(1) h c2 single_drop(1)])
  have st: "store dev t3 = (store dev s)\<lparr>st_log := loaded ?d l\<rparr>"
    unfolding t3(3) t2(2) t1(3) by (simp add: st_defs)
  have "read_head w s = Ret () t3 w"
    using t1(1) t3(1) n d
    by (simp add: read_head_def kbind_apply kget_apply kret_apply get_buf_apply upd_lh_apply read_head_loop i b(1) Let_def
        v1 loaded_def)
  moreover have "idle dev p (loaded ?d l) t3" using t3(2) storeD(4) [OF st] i by (simp add: idle_def)
  ultimately show ?thesis using that st by blast
qed

text \<open>The block writes of recovery from a disk.\<close>

definition recover_writes :: "log \<Rightarrow> (uint \<Rightarrow> byte list) \<Rightarrow> (uint \<times> byte list) list" where
  "recover_writes l d =
     (let h = d (log_block l 0)
      in map (\<lambda>i. (head_block h i, d (log_block l (i + 1)))) [0..<nat (head_n h)] @
         [(log_block l 0, put_head (log_lh (emptied (loaded h l))) h)])"

text \<open>A disk that recovery can start from, and a process that finds an unused cache and log.\<close>

definition log_disk_ok :: "log \<Rightarrow> (uint \<Rightarrow> byte list) \<Rightarrow> bool" where
  "log_disk_ok l d \<longleftrightarrow> (let h = d (log_block l 0); n = nat (head_n h)
     in length h = BSIZE \<and> n < NBUF \<and> inj_on (head_block h) {0..<n} \<and> head_block h ` {0..<n} \<inter> log_region l = {})"

definition fresh :: "uint \<Rightarrow> nat \<Rightarrow> log \<Rightarrow> kernel \<Rightarrow> bool" where
  "fresh dev p l s \<longleftrightarrow> idle dev p l s \<and> refs dev s = (\<lambda>_. 0) \<and> view dev s = disk s \<and> length (lh_block (log_lh l)) = LOGSIZE"

lemma loaded_trans:
  assumes "log_disk_ok l d" "length (lh_block (log_lh l)) = LOGSIZE"
  shows "trans_ok (loaded (d (log_block l 0)) l) (nat (head_n (d (log_block l 0))))"
    "home_part (loaded (d (log_block l 0)) l) d (nat (head_n (d (log_block l 0)))) =
      map (\<lambda>i. (head_block (d (log_block l 0)) i, d (log_block l (i + 1)))) [0..<nat (head_n (d (log_block l 0)))]"
proof -
  let ?h = "d (log_block l 0)"
  let ?n = "nat (head_n ?h)" and ?l = "loaded ?h l"
  have d: "?n < NBUF" "inj_on (head_block ?h) {0..<?n}" "head_block ?h ` {0..<?n} \<inter> log_region l = {}"
    using assms(1) by (simp_all add: log_disk_ok_def Let_def)
  have h: "home ?l i = head_block ?h i" if "i \<in> {0..<?n}" for i
    using that loaded_home d(1) assms(2) by (simp add: NBUF_LOGSIZE)
  have "inj_on (home ?l) {0..<?n}" using d(2) inj_on_cong [of "{0..<?n}" "home ?l" "head_block ?h"] h by blast
  moreover have "home ?l ` {0..<?n} = head_block ?h ` {0..<?n}" by (rule image_cong [OF refl h])
  ultimately show "trans_ok ?l ?n" using d by (simp add: trans_ok_def)
  show "home_part ?l d ?n = map (\<lambda>i. (head_block ?h i, d (log_block l (i + 1)))) [0..<?n]"
    unfolding home_part_def by (rule map_cong) (use h in auto)
qed

lemma recover_run:
  assumes s: "fresh dev p l s" and ok: "log_disk_ok l (disk s)"
  obtains t where "recover_from_log w s = Ret () t w" "bio dev p Map.empty t"
    "disk t = apply_writes (recover_writes l (disk s)) (disk s)" "disk_writes t = disk_writes s @ recover_writes l (disk s)"
    "klog t = emptied (loaded (disk s (log_block l 0)) l)" "view dev t = disk t"
    "refs dev t = (\<lambda>x. if x \<in> head_block (disk s (log_block l 0)) ` {0..<nat (head_n (disk s (log_block l 0)))} then - 1 else 0)"
proof -
  let ?hb = "log_block l 0" and ?h = "disk s (log_block l 0)"
  let ?n = "nat (head_n ?h)" and ?l = "loaded ?h l"
  have i: "idle dev p l s" "refs dev s = (\<lambda>_. 0)" "view dev s = disk s" "length (lh_block (log_lh l)) = LOGSIZE" "log_dev l = dev"
    using s by (simp_all add: fresh_def idle_def)
  note tr = loaded_trans [OF ok i(4)]
  have n: "?n < NBUF" using ok by (simp add: log_disk_ok_def Let_def)
  obtain t1 where t1: "read_head w s = Ret () t1 w" "idle dev p ?l t1" "store dev t1 = (store dev s)\<lparr>st_log := ?l\<rparr>"
    by (rule read_head_run [OF i(1) refl, of w]) (use i n in \<open>simp_all add: NBUF_LOGSIZE\<close>)
  have v1: "view dev t1 = disk s" "refs dev t1 = (\<lambda>_. 0)" "disk t1 = disk s" using storeD [OF t1(3)] i by simp_all
  have r1: "refs dev t1 x = (if x \<in> home ?l ` {0..<?n} then 0 else 0)" for x by (simp add: v1)
  obtain t2 where t2: "kfor [0..<?n] install_one w t1 = Ret () t2 w" "idle dev p ?l t2"
    "store dev t2 = (st_all (home_part ?l (view dev t1) ?n) (store dev t1))
      \<lparr>st_refs := \<lambda>x. if x \<in> home ?l ` {0..<?n} then 0 - 1 else refs dev t1 x\<rparr>"
    using install_loop [OF t1(2) tr(1) r1 _ _ order_refl, of w] v1 by auto
  let ?t2 = "t2\<lparr>klog := emptied ?l\<rparr>"
  have s2: "store dev ?t2 = (store dev t2)\<lparr>st_log := emptied ?l\<rparr>" by simp
  have i2: "idle dev p (emptied ?l) ?t2" by (rule idle_klog [OF t2(2)]) (simp add: i)
  have hr: "?hb \<in> log_region ?l" by simp
  then have hh: "?hb \<notin> home ?l ` {0..<?n}" using tr(1) unfolding trans_ok_def by blast
  have r2: "refs dev ?t2 = (\<lambda>x. if x \<in> home ?l ` {0..<?n} then - 1 else 0)" using storeD(2) [OF s2] storeD(2) [OF t2(3)] v1 by (simp add: fun_eq_iff)
  have few: "card {x. refs dev ?t2 x \<noteq> 0} < NBUF" using card_image_refs [OF r2] n by simp
  have x2: "?hb = log_block (emptied ?l) 0" "refs dev ?t2 ?hb = 0" using hh by (simp_all add: r2)
  obtain t3 where t3: "write_head w ?t2 = Ret () t3 w" "idle dev p (emptied ?l) t3"
    "store dev t3 = st_all [(?hb, put_head (log_lh (emptied ?l)) (view dev ?t2 ?hb))] (store dev ?t2)"
    by (rule write_head_run [OF i2 x2 few])
  have h2: "view dev ?t2 ?hb = ?h"
    using storeD(1) [OF s2] storeD(1) [OF t2(3)] home_part_out [OF hh] v1 by simp
  have k: "klog t1 = ?l" "klog t2 = ?l" using t1(2) t2(2) by (simp_all add: idle_def)
  have "recover_from_log w s = Ret () t3 w"
    using t1(1) t2(1) t3(1) k
    by (simp add: recover_from_log_def install_trans_def kapply emptied_def)
  moreover have rw: "home_part ?l (view dev t1) ?n @ [(?hb, put_head (log_lh (emptied ?l)) ?h)] = recover_writes l (disk s)"
    unfolding recover_writes_def Let_def v1 tr(2) ..
  have st: "store dev t3 = (st_all (recover_writes l (disk s)) (store dev s))\<lparr>st_refs := refs dev ?t2, st_log := emptied ?l\<rparr>"
    unfolding rw [symmetric] st_all_append t3(3) h2 using storeD(2) [OF s2] by (simp add: s2 t2(3) t1(3) st_all_def)
  have "disk t3 = apply_writes (recover_writes l (disk s)) (disk s)" "disk_writes t3 = disk_writes s @ recover_writes l (disk s)"
    "view dev t3 = disk t3"
    using storeD [OF st] i(3) by simp_all
  moreover have "home ?l ` {0..<?n} = head_block ?h ` {0..<?n}"
    by (rule image_cong) (use loaded_home i(4) n in \<open>simp_all add: NBUF_LOGSIZE\<close>)
  then have "refs dev t3 = (\<lambda>x. if x \<in> head_block ?h ` {0..<?n} then - 1 else 0)" using storeD(2) [OF st] r2 by simp
  moreover have "bio dev p Map.empty t3" "klog t3 = emptied ?l" using t3(2) by (simp_all add: idle_def)
  ultimately show ?thesis using that by blast
qed

section \<open>Crashes\<close>

lemma take_log_part: "k \<le> n \<Longrightarrow> take k (log_part l v n) = log_part l v k"
  by (simp add: log_part_def take_map)

lemma commit_header:
  assumes n: "0 \<le> lh_n (log_lh l)" "lh_n (log_lh l) \<le> int LOGSIZE" "length (lh_block (log_lh l)) = LOGSIZE" and b: "length b = BSIZE"
  defines "h \<equiv> put_head (log_lh l) b"
  shows "length h = BSIZE" "head_n h = lh_n (log_lh l)" "i < nat (lh_n (log_lh l)) \<Longrightarrow> head_block h i = home l i"
    "length (put_head (log_lh (emptied l)) h) = BSIZE" "head_n (put_head (log_lh (emptied l)) h) = 0"
proof -
  show h: "length h = BSIZE" "head_n h = lh_n (log_lh l)" "i < nat (lh_n (log_lh l)) \<Longrightarrow> head_block h i = home l i"
    using put_head [OF b n] by (simp_all add: h_def home_def)
  show "length (put_head (log_lh (emptied l)) h) = BSIZE" "head_n (put_head (log_lh (emptied l)) h) = 0"
    using put_head [OF h(1), of "log_lh (emptied l)"] n by simp_all
qed

lemma commit_final:
  assumes ok: "trans_ok l n" and n: "n = nat (lh_n (log_lh l))" "0 \<le> lh_n (log_lh l)" "length (lh_block (log_lh l)) = LOGSIZE"
    and hd: "head_n (d (log_block l 0)) = 0" "length (d (log_block l 0)) = BSIZE"
    and v: "\<And>x. x \<notin> home l ` {0..<n} \<Longrightarrow> v x = d x"
  defines "e \<equiv> apply_writes (commit_writes l v) d"
  shows "x \<notin> log_region l \<Longrightarrow> e x = v x" "head_n (e (log_block l 0)) = 0" "length (e (log_block l 0)) = BSIZE"
proof -
  let ?hb = "log_block l 0"
  let ?h = "put_head (log_lh l) (v ?hb)" and ?B = "map (\<lambda>i. (home l i, v (home l i))) [0..<n]"
  have nl: "n < LOGSIZE" using ok by (simp add: trans_ok_def NBUF_LOGSIZE)
  have hr: "?hb \<in> log_region l" by simp
  have "?hb \<notin> home l ` {0..<n}" using ok hr unfolding trans_ok_def by blast
  then have vh: "length (v ?hb) = BSIZE" using v hd by simp
  have e: "e = (apply_writes ?B ((apply_writes (log_part l v n) d)(?hb := ?h)))(?hb := put_head (log_lh (emptied l)) ?h)"
    by (simp add: e_def commit_writes_def Let_def n(1))
  show "head_n (e ?hb) = 0" "length (e ?hb) = BSIZE" using commit_header(4,5) [OF n(2) _ n(3) vh] n nl by (simp_all add: e)
  show "e x = v x" if x: "x \<notin> log_region l"
  proof (cases "x \<in> home l ` {0..<n}")
    case True
    then obtain i where i: "i < n" "x = home l i" by auto
    have "apply_writes ?B f x = v x" for f unfolding i(2) by (rule apply_writes_map [OF i(1)]) simp
    then show ?thesis using x hr by (auto simp: e)
  next
    case False
    then have "apply_writes ?B f x = f x" for f by (intro apply_writes_notin) auto
    then show ?thesis unfolding e using log_part_out [OF nl] x hr v [OF False] by auto
  qed
qed

text \<open>Recovery from any first part of the writes of a commit, as a function of the disk.\<close>

lemma crash_disk:
  assumes ok: "trans_ok l n" and n: "n = nat (lh_n (log_lh l))" "0 \<le> lh_n (log_lh l)" "length (lh_block (log_lh l)) = LOGSIZE"
    and hd: "head_n (d (log_block l 0)) = 0" "length (d (log_block l 0)) = BSIZE"
    and v: "\<And>x. x \<notin> home l ` {0..<n} \<Longrightarrow> v x = d x" and l': "log_start l' = log_start l"
  defines "e \<equiv> \<lambda>k. apply_writes (take k (commit_writes l v)) d"
  shows "log_disk_ok l' (e k)" "x \<notin> log_region l \<Longrightarrow>
    apply_writes (recover_writes l' (e k)) (e k) x = (if k \<le> n then d x else v x)"
proof -
  let ?hb = "log_block l 0"
  let ?h = "put_head (log_lh l) (v ?hb)" and ?A = "log_part l v n" and ?B = "map (\<lambda>i. (home l i, v (home l i))) [0..<n]"
  let ?z = "put_head (log_lh (emptied l)) ?h"
  have lb [simp]: "log_block l' = log_block l" "log_region l' = log_region l"
    using l' by (simp_all add: log_block_def log_region_def fun_eq_iff)
  have nl: "n < LOGSIZE" using ok by (simp add: trans_ok_def NBUF_LOGSIZE)
  have hr: "?hb \<in> log_region l" by simp
  have hh: "?hb \<notin> home l ` {0..<n}" using ok hr unfolding trans_ok_def by blast
  have vh: "length (v ?hb) = BSIZE" using v [OF hh] hd by simp
  have h: "length ?h = BSIZE" "head_n ?h = lh_n (log_lh l)" "\<And>i. i < n \<Longrightarrow> head_block ?h i = home l i"
    using commit_header [OF n(2) _ n(3) vh] n nl by simp_all
  have B: "apply_writes (take j ?B) f x = f x" if "x \<notin> home l ` {0..<n}" for j f x
    by (rule apply_writes_notin) (use that in \<open>auto dest!: in_set_takeD\<close>)
  have none: "log_disk_ok l' f" "x \<notin> log_region l \<Longrightarrow> apply_writes (recover_writes l' f) f x = f x"
    if "head_n (f ?hb) = 0" "length (f ?hb) = BSIZE" for f x
    using that hr by (auto simp: log_disk_ok_def recover_writes_def Let_def NBUF_def MAXOPBLOCKS_def)
  have cw: "commit_writes l v = ?A @ [(?hb, ?h)] @ ?B @ [(?hb, ?z)]" unfolding commit_writes_def Let_def n(1) [symmetric] ..
  have len: "length ?A = n" "length ?B = n" by (simp_all add: log_part_def)
  consider (before) "k \<le> n" | (logged) j where "k = n + 1 + j" "j \<le> n" | (after) "2 * n + 2 \<le> k"
  proof (cases "k \<le> n \<or> 2 * n + 2 \<le> k")
    case False
    then have "k = n + 1 + (k - n - 1)" "k - n - 1 \<le> n" by linarith+
    then show ?thesis by (rule that(2))
  qed (use that in blast)
  then have "log_disk_ok l' (e k) \<and> (x \<notin> log_region l \<longrightarrow>
    apply_writes (recover_writes l' (e k)) (e k) x = (if k \<le> n then d x else v x))"
  proof cases
    case before
    have e: "e k = apply_writes (log_part l v k) d"
      using before len by (simp add: e_def cw take_log_part)
    have k: "k < LOGSIZE" using before nl by simp
    have "e k ?hb = d ?hb" "x \<notin> log_region l \<Longrightarrow> e k x = d x" unfolding e using log_part_out [OF k] by simp_all
    then show ?thesis using none(1) [of "e k"] none(2) [of "e k" x] hd before by simp
  next
    case (logged j)
    have e: "e k = apply_writes (take j ?B) ((apply_writes ?A d)(?hb := ?h))"
      using logged len by (simp add: e_def cw)
    have eh: "e k ?hb = ?h" unfolding e using B [OF hh] by simp
    have el: "e k (log_block l (i + 1)) = v (home l i)" if "i < n" for i
    proof -
      have "log_block l (i + 1) \<in> log_region l" by (rule in_region) (use that nl in simp)
      then have "log_block l (i + 1) \<notin> home l ` {0..<n}" using ok unfolding trans_ok_def by blast
      moreover have "log_block l (i + 1) \<noteq> ?hb" using log_block_inj [of "i + 1" 0 l] that nl by simp
      ultimately show ?thesis unfolding e using B log_part_in [OF that nl] by simp
    qed
    have rw: "recover_writes l' (e k) = ?B @ [(?hb, put_head (log_lh (emptied (loaded ?h l'))) ?h)]"
      unfolding recover_writes_def Let_def lb eh h(2) n(1) [symmetric] using el h(3) by simp
    have "log_disk_ok l' (e k)"
    proof -
      have "inj_on (head_block ?h) {0..<n} = inj_on (home l) {0..<n}" by (rule inj_on_cong) (use h in simp)
      moreover have "head_block ?h ` {0..<n} = home l ` {0..<n}" by (rule image_cong) (use h in simp_all)
      ultimately show ?thesis using ok h n by (simp add: log_disk_ok_def Let_def eh trans_ok_def)
    qed
    moreover have "apply_writes (recover_writes l' (e k)) (e k) x = v x" if x: "x \<notin> log_region l"
    proof -
      have xh: "x \<noteq> ?hb" using x hr by blast
      show ?thesis
      proof (cases "x \<in> home l ` {0..<n}")
        case True
        then obtain i where i: "i < n" "x = home l i" by auto
        have "apply_writes ?B (e k) x = v x" unfolding i(2) by (rule apply_writes_map [OF i(1)]) simp
        then show ?thesis using xh by (simp add: rw)
      next
        case False
        then have "e k x = d x" unfolding e using B [OF False] log_part_out [OF nl] x xh by simp
        then show ?thesis using B [OF False, of n] len xh v [OF False] by (simp add: rw)
      qed
    qed
    ultimately show ?thesis using logged by simp
  next
    case after
    have "e k = apply_writes (commit_writes l v) d" using after len by (simp add: e_def cw)
    then show ?thesis using none(1) [of "e k"] none(2) [of "e k" x] commit_final [where d = d and v = v, OF ok n hd v] after by simp
  qed
  then show "log_disk_ok l' (e k)" "x \<notin> log_region l \<Longrightarrow>
    apply_writes (recover_writes l' (e k)) (e k) x = (if k \<le> n then d x else v x)" by simp_all
qed

text \<open>Recovery from any first part of the writes of a recovery.\<close>

lemma recover_header:
  assumes ok: "log_disk_ok l d" and lh: "length (lh_block (log_lh l)) = LOGSIZE"
  defines "z \<equiv> put_head (log_lh (emptied (loaded (d (log_block l 0)) l))) (d (log_block l 0))"
  shows "length z = BSIZE" "head_n z = 0"
proof -
  let ?h = "d (log_block l 0)"
  have "length (lh_block (log_lh (loaded ?h l))) = LOGSIZE"
    using fold_set [of "nat (head_n ?h)" "lh_block (log_lh l)" "head_block ?h"] ok lh
    by (simp add: loaded_def load_blocks_def log_disk_ok_def Let_def NBUF_LOGSIZE)
  then show "length z = BSIZE" "head_n z = 0"
    using put_head [of ?h "log_lh (emptied (loaded ?h l))"] ok by (simp_all add: z_def log_disk_ok_def Let_def)
qed

lemma recover_empty:
  assumes "log_disk_ok l d" "length (lh_block (log_lh l)) = LOGSIZE"
  shows "head_n (apply_writes (recover_writes l d) d (log_block l 0)) = 0"
  using recover_header [OF assms] by (simp add: recover_writes_def Let_def)

lemma recover_again:
  assumes ok: "log_disk_ok l d" and lh: "length (lh_block (log_lh l)) = LOGSIZE" and m: "log_start m = log_start l"
  defines "e \<equiv> \<lambda>k. apply_writes (take k (recover_writes l d)) d"
  shows "log_disk_ok m (e k)" "x \<notin> log_region l \<Longrightarrow>
    apply_writes (recover_writes m (e k)) (e k) x = apply_writes (recover_writes l d) d x"
proof -
  let ?hb = "log_block l 0"
  let ?h = "d ?hb" and ?z = "put_head (log_lh (emptied (loaded (d ?hb) l))) (d ?hb)"
  let ?n = "nat (head_n ?h)"
  let ?B = "map (\<lambda>i. (head_block ?h i, d (log_block l (i + 1)))) [0..<?n]"
  have lb [simp]: "log_block m = log_block l" "log_region m = log_region l"
    using m by (simp_all add: log_block_def log_region_def fun_eq_iff)
  have d: "?n < NBUF" "inj_on (head_block ?h) {0..<?n}" "head_block ?h ` {0..<?n} \<inter> log_region l = {}"
    using ok by (simp_all add: log_disk_ok_def Let_def)
  have B: "apply_writes (take j ?B) f x = f x" if "x \<in> log_region l" for j f x
    by (rule apply_writes_notin) (use that d(3) in \<open>force dest!: in_set_takeD\<close>)
  have hr: "?hb \<in> log_region l" by simp
  have rw: "recover_writes l d = ?B @ [(?hb, ?z)]" by (simp add: recover_writes_def Let_def)
  have "log_disk_ok m (e k) \<and> (x \<notin> log_region l \<longrightarrow>
    apply_writes (recover_writes m (e k)) (e k) x = apply_writes (recover_writes l d) d x)"
  proof (cases "k \<le> ?n")
    case True
    then have e: "e k = apply_writes (take k ?B) d" by (simp add: e_def rw)
    have r: "e k y = d y" if "y \<in> log_region l" for y unfolding e by (rule B [OF that])
    have lr: "log_block l (i + 1) \<in> log_region l" if "i < ?n" for i
      by (rule in_region) (use that d(1) in \<open>simp add: NBUF_LOGSIZE\<close>)
    have em: "recover_writes m (e k) = ?B @ [(?hb, put_head (log_lh (emptied (loaded ?h m))) ?h)]"
      unfolding recover_writes_def Let_def lb r [OF hr] using r lr by simp
    have "log_disk_ok m (e k)" using ok unfolding log_disk_ok_def Let_def lb r [OF hr] .
    moreover have "apply_writes (recover_writes m (e k)) (e k) x = apply_writes (recover_writes l d) d x" if x: "x \<notin> log_region l"
    proof -
      have xh: "x \<noteq> ?hb" using x hr by blast
      have "apply_writes ?B (e k) x = apply_writes ?B d x"
      proof (cases "x \<in> head_block ?h ` {0..<?n}")
        case True
        then obtain i where i: "i < ?n" "x = head_block ?h i" by auto
        have "apply_writes ?B f x = d (log_block l (i + 1))" for f
          unfolding i(2) by (rule apply_writes_map [OF i(1)]) (use d(2) i in \<open>auto dest: inj_onD\<close>)
        then show ?thesis by simp
      next
        case False
        have "e k x = d x" unfolding e by (rule apply_writes_notin) (use False in \<open>auto dest!: in_set_takeD\<close>)
        then show ?thesis by (rule apply_writes_agree)
      qed
      then show ?thesis using xh by (simp add: em rw)
    qed
    ultimately show ?thesis by simp
  next
    case False
    then have e: "e k = apply_writes (recover_writes l d) d" by (simp add: e_def rw)
    have z: "e k ?hb = ?z" by (simp add: e rw)
    have n: "recover_writes m (e k) = [(?hb, put_head (log_lh (emptied (loaded ?z m))) ?z)]"
      unfolding recover_writes_def Let_def lb z recover_header(2) [OF ok lh] by simp
    have "log_disk_ok m (e k)"
      unfolding log_disk_ok_def Let_def lb z using recover_header [OF ok lh] by (simp add: NBUF_def MAXOPBLOCKS_def)
    moreover have "x \<notin> log_region l \<longrightarrow> apply_writes (recover_writes m (e k)) (e k) x = e k x" using hr by (auto simp: n)
    ultimately show ?thesis unfolding e by simp
  qed
  then show "log_disk_ok m (e k)" "x \<notin> log_region l \<Longrightarrow>
    apply_writes (recover_writes m (e k)) (e k) x = apply_writes (recover_writes l d) d x" by simp_all
qed

section \<open>The state between transactions\<close>

text \<open>
  The process \<open>p\<close> is the only one in the file system. Exactly the blocks of the current transaction are pinned,
  once each, the others agree with the disk, and the log on the disk is empty.
\<close>

definition log_inv :: "uint \<Rightarrow> nat \<Rightarrow> kernel \<Rightarrow> bool" where
  "log_inv dev p s \<longleftrightarrow>
     (let l = klog s; n = nat (lh_n (log_lh l))
      in idle dev p l s \<and> 0 \<le> lh_n (log_lh l) \<and> length (lh_block (log_lh l)) = LOGSIZE \<and> trans_ok l n \<and>
         refs dev s = (\<lambda>x. if x \<in> home l ` {0..<n} then 1 else 0) \<and>
         (\<forall>x. x \<notin> home l ` {0..<n} \<longrightarrow> view dev s x = disk s x) \<and>
         head_n (disk s (log_block l 0)) = 0 \<and> length (disk s (log_block l 0)) = BSIZE)"

lemma loglock:
  assumes "quiet p s"
  shows "hw u = hw s \<Longrightarrow> acquire LogLock w u = Ret () (u\<lparr>hw := enter LogLock (hw s)\<rparr>) w"
    and "hw u = enter LogLock (hw s) \<Longrightarrow> release LogLock w u = Ret () (u\<lparr>hw := hw s\<rparr>) w"
    and "hw u = enter LogLock (hw s) \<Longrightarrow> length (procs u) = NPROC \<Longrightarrow>
      wakeup ch w u = Ret () (u\<lparr>procs := map (woken ch) (procs u)\<rparr>) w"
proof -
  have h: "calm (hw s)" "lock_free LogLock (hw s)" "procs_free (hw s)" using assms by (simp_all add: quiet_def procs_free_def)
  show "acquire LogLock w u = Ret () (u\<lparr>hw := enter LogLock (hw s)\<rparr>) w" if "hw u = hw s"
    using acquire_free [of LogLock u w] h that by simp
  show "release LogLock w u = Ret () (u\<lparr>hw := hw s\<rparr>) w" if "hw u = enter LogLock (hw s)"
    by (rule release_enter) (use that h in simp_all)
  show "wakeup ch w u = Ret () (u\<lparr>procs := map (woken ch) (procs u)\<rparr>) w"
    if "hw u = enter LogLock (hw s)" "length (procs u) = NPROC"
    using wakeup_run [of u] procs_free_enter [OF h(3), of LogLock] that by simp
qed

lemma bio_woken:
  assumes "bio dev p H s"
  shows "bio dev p H (s\<lparr>procs := map (woken ch) (procs s)\<rparr>)"
    "store dev (s\<lparr>procs := map (woken ch) (procs s)\<rparr>) = store dev s"
proof -
  let ?t = "s\<lparr>procs := map (woken ch) (procs s)\<rparr>"
  have c: "cached dev ?t = cached dev s" "cache_ok dev ?t = cache_ok dev s" "view dev ?t = view dev s" "refs dev ?t = refs dev s"
    by (rule store_cong; simp)+
  have "p < length (procs s)" using assms by (simp add: bio_def quiet_def)
  then have "p_pid (procs ?t ! p) = p_pid (procs s ! p)" by (simp add: woken_def)
  then show "bio dev p H ?t" using assms c by (simp add: bio_def bheld_def quiet_def)
  show "store dev ?t = store dev s" by (simp add: store_def c)
qed

lemma same_log:
  assumes "log_start l' = log_start l" "log_lh l' = log_lh l"
  shows "log_block l' = log_block l" "home l' = home l" "log_region l' = log_region l" "trans_ok l' = trans_ok l"
    "commit_writes l' = commit_writes l"
proof -
  show a: "log_block l' = log_block l" "home l' = home l" using assms by (simp_all add: log_block_def home_def fun_eq_iff)
  then show b: "log_region l' = log_region l" by (simp add: log_region_def)
  show "trans_ok l' = trans_ok l" by (simp add: trans_ok_def fun_eq_iff a b)
  show "commit_writes l' = commit_writes l" using assms by (simp add: commit_writes_def log_part_def a fun_eq_iff)
qed

text \<open>What a run of \<^verbatim>\<open>commit\<close> leaves, whether or not there is anything to write.\<close>

definition written :: "log \<Rightarrow> (uint \<Rightarrow> byte list) \<Rightarrow> (uint \<times> byte list) list" where
  "written l v = (if 0 < lh_n (log_lh l) then commit_writes l v else [])"

lemma commit_any:
  assumes i: "log_inv dev p s"
  obtains t where "commit w s = Ret () t w" "bio dev p Map.empty t"
    "store dev t = (st_all (written (klog s) (view dev s)) (store dev s))\<lparr>st_refs := \<lambda>_. 0, st_log := emptied (klog s)\<rparr>"
proof (cases "0 < lh_n (log_lh (klog s))")
  case True
  have j: "idle dev p (klog s) s" "trans_ok (klog s) (nat (lh_n (log_lh (klog s))))"
    "refs dev s = (\<lambda>x. if x \<in> home (klog s) ` {0..<nat (lh_n (log_lh (klog s)))} then 1 else 0)"
    "\<And>x. x \<notin> home (klog s) ` {0..<nat (lh_n (log_lh (klog s)))} \<Longrightarrow> view dev s x = disk s x"
    using i by (simp_all add: log_inv_def Let_def)
  obtain t where "commit w s = Ret () t w" "idle dev p (emptied (klog s)) t"
    "store dev t = (st_all (commit_writes (klog s) (view dev s)) (store dev s))\<lparr>st_refs := \<lambda>_. 0, st_log := emptied (klog s)\<rparr>"
    by (rule commit_run [OF j(1) refl True j(2,3,4)])
  then show ?thesis using that True by (simp add: written_def idle_def)
next
  case False
  then have z: "lh_n (log_lh (klog s)) = 0" "bio dev p Map.empty s" "refs dev s = (\<lambda>_. 0)"
    using i by (simp_all add: log_inv_def Let_def idle_def)
  have "(log_lh (klog s))\<lparr>lh_n := 0\<rparr> = log_lh (klog s)" using z(1) by (cases "log_lh (klog s)") simp
  then have "emptied (klog s) = klog s" by (simp add: emptied_def)
  then have "store dev s = (st_all (written (klog s) (view dev s)) (store dev s))\<lparr>st_refs := \<lambda>_. 0, st_log := emptied (klog s)\<rparr>"
    using z by (simp add: written_def store_def)
  moreover have "commit w s = Ret () s w" using z(1) by (simp add: commit_def kapply)
  ultimately show ?thesis using that z(2) by metis
qed

lemma written_new:
  assumes i: "log_inv dev p s"
  shows "x \<notin> log_region (klog s) \<Longrightarrow> apply_writes (written (klog s) (view dev s)) (disk s) x = view dev s x"
    "apply_writes (written (klog s) (view dev s)) (view dev s) = apply_writes (written (klog s) (view dev s)) (disk s)"
    "head_n (apply_writes (written (klog s) (view dev s)) (disk s) (log_block (klog s) 0)) = 0"
    "length (apply_writes (written (klog s) (view dev s)) (disk s) (log_block (klog s) 0)) = BSIZE"
proof -
  let ?l = "klog s" and ?v = "view dev s" and ?W = "written (klog s) (view dev s)"
  let ?n = "nat (lh_n (log_lh ?l))"
  have ok: "trans_ok ?l ?n" and n: "0 \<le> lh_n (log_lh ?l)" "length (lh_block (log_lh ?l)) = LOGSIZE"
    and v: "\<And>x. x \<notin> home ?l ` {0..<?n} \<Longrightarrow> ?v x = disk s x"
    and hd: "head_n (disk s (log_block ?l 0)) = 0" "length (disk s (log_block ?l 0)) = BSIZE"
    using i by (simp_all add: log_inv_def Let_def)
  note d = commit_final [where d = "disk s" and v = ?v, OF ok refl n hd v]
  have hr: "log_block ?l 0 \<in> log_region ?l" by simp
  then have "log_block ?l 0 \<notin> home ?l ` {0..<?n}" using ok unfolding trans_ok_def by blast
  then have "?v (log_block ?l 0) = disk s (log_block ?l 0)" by (rule v)
  then have hv: "head_n (?v (log_block ?l 0)) = 0" "length (?v (log_block ?l 0)) = BSIZE" using hd by simp_all
  show x: "apply_writes ?W (disk s) x = ?v x" if "x \<notin> log_region ?l" for x
    using d(1) [of x] that v [of x] by (cases "0 < lh_n (log_lh ?l)") (simp_all add: written_def)
  show "head_n (apply_writes ?W (disk s) (log_block ?l 0)) = 0" "length (apply_writes ?W (disk s) (log_block ?l 0)) = BSIZE"
    using d(2,3) hd by (simp_all add: written_def)
  show "apply_writes ?W ?v = apply_writes ?W (disk s)"
  proof
    fix x show "apply_writes ?W ?v x = apply_writes ?W (disk s) x"
    proof (cases "x \<in> home ?l ` {0..<?n}")
      case True
      then have "x \<notin> log_region ?l" using ok unfolding trans_ok_def by blast
      moreover from this have "apply_writes ?W ?v x = ?v x" using commit_final(1) [where d = ?v and v = ?v, OF ok refl n hv refl] by (simp add: written_def)
      ultimately show ?thesis using x by simp
    next
      case False
      show ?thesis by (rule apply_writes_agree) (rule v [OF False])
    qed
  qed
qed

lemma end_op_run:
  assumes i: "log_inv dev p s" and o: "log_outstanding (klog s) = 1" "\<not> log_committing (klog s)"
  obtains t where "end_op w s = Ret () t w" "bio dev p Map.empty t"
    "store dev t = (st_all (written (klog s) (view dev s)) (store dev s))
       \<lparr>st_refs := \<lambda>_. 0, st_log := (emptied (klog s))\<lparr>log_outstanding := 0\<rparr>\<rparr>"
proof -
  let ?l = "(klog s)\<lparr>log_outstanding := 0, log_committing := True\<rparr>"
  let ?s = "s\<lparr>klog := ?l\<rparr>"
  have b: "bio dev p Map.empty s" "log_dev (klog s) = dev" using i by (simp_all add: log_inv_def Let_def idle_def)
  have q: "quiet p s" using b by (simp add: bio_def)
  have e: "store dev ?s = (store dev s)\<lparr>st_log := ?l\<rparr>" by simp
  have sl: "log_start ?l = log_start (klog s)" "log_lh ?l = log_lh (klog s)" by simp_all
  have "log_inv dev p ?s"
    using i storeD [OF e] by (simp add: log_inv_def Let_def idle_def same_log [OF sl])
  then obtain t where t: "commit w ?s = Ret () t w" "bio dev p Map.empty t"
    "store dev t = (st_all (written (klog ?s) (view dev ?s)) (store dev ?s))\<lparr>st_refs := \<lambda>_. 0, st_log := emptied (klog ?s)\<rparr>"
    by (rule commit_any)
  let ?l2 = "(emptied (klog s))\<lparr>log_outstanding := 0\<rparr>"
  have k: "klog t = emptied ?l" using storeD(4) [OF t(3)] by simp
  have l2: "(klog t)\<lparr>log_committing := False\<rparr> = ?l2" unfolding k using o(2) by (cases "klog s") (simp add: emptied_def)
  let ?t = "t\<lparr>klog := ?l2\<rparr>"
  let ?u = "?t\<lparr>procs := map (woken ChanLog) (procs ?t)\<rparr>"
  have bt: "bio dev p Map.empty ?t" using t(2) by simp
  have qt: "quiet p t" "length (procs t) = NPROC" using t(2) by (simp_all add: bio_def quiet_def)
  have "end_op w s = Ret () ?u w"
    using t(1) o l2 qt(2)
    by (simp add: end_op_def kbind_apply loglock [OF q] loglock [OF qt(1)] upd_log_apply kget_apply kret_apply kwhen_apply kif_apply)
  moreover have "written (klog ?s) (view dev ?s) = written (klog s) (view dev s)"
    using same_log(5) [OF sl] storeD(1) [OF e] by (simp add: written_def)
  then have "store dev ?u = (st_all (written (klog s) (view dev s)) (store dev s))\<lparr>st_refs := \<lambda>_. 0, st_log := ?l2\<rparr>"
    unfolding bio_woken(2) [OF bt] store_klog t(3) by (simp add: st_all_def)
  ultimately show ?thesis using that bio_woken(1) [OF bt] by blast
qed

section \<open>Properties\<close>

text \<open>
  C2. The log makes a transaction atomic. When the last operation of a transaction ends, \<^verbatim>\<open>end_op\<close> writes the
  blocks of the transaction to their places and leaves the log empty. If the machine stops after any number
  \<open>k\<close> of these block writes, recovery on the disk it leaves returns and gives either the disk from before
  \<^verbatim>\<open>end_op\<close> or all of the new blocks, outside the log itself; the new ones from the write of the header on.
\<close>

theorem end_op_atomic:
  assumes i: "log_inv dev p s" and o: "log_outstanding (klog s) = 1" "\<not> log_committing (klog s)"
  shows "\<exists>t ws. end_op w s = Ret () t w \<and> log_inv dev p t \<and> disk_writes t = disk_writes s @ ws \<and>
    disk t = apply_writes ws (disk s) \<and> (\<forall>x. x \<notin> log_region (klog s) \<longrightarrow> disk t x = view dev s x) \<and>
    (\<forall>k u q l w'. fresh dev q l u \<and> log_start l = log_start (klog s) \<and> disk u = apply_writes (take k ws) (disk s) \<longrightarrow>
       (\<exists>v. recover_from_log w' u = Ret () v w' \<and>
          (\<forall>x. x \<notin> log_region (klog s) \<longrightarrow>
             disk v x = (if int k \<le> lh_n (log_lh (klog s)) then disk s x else view dev s x))))"
proof -
  let ?l = "klog s" and ?v = "view dev s" and ?W = "written (klog s) (view dev s)"
  let ?n = "nat (lh_n (log_lh ?l))"
  have ok: "trans_ok ?l ?n" and n: "0 \<le> lh_n (log_lh ?l)" "length (lh_block (log_lh ?l)) = LOGSIZE" and dv: "log_dev ?l = dev"
    and v: "\<And>x. x \<notin> home ?l ` {0..<?n} \<Longrightarrow> ?v x = disk s x"
    and hd: "head_n (disk s (log_block ?l 0)) = 0" "length (disk s (log_block ?l 0)) = BSIZE"
    using i by (simp_all add: log_inv_def Let_def idle_def)
  let ?m = "(emptied ?l)\<lparr>log_outstanding := 0\<rparr>"
  obtain t where t: "end_op w s = Ret () t w" "bio dev p Map.empty t"
    "store dev t = (st_all ?W (store dev s))\<lparr>st_refs := \<lambda>_. 0, st_log := ?m\<rparr>" by (rule end_op_run [OF i o])
  note st = storeD [OF t(3)]
  have m: "log_block ?m = log_block ?l" "trans_ok ?m 0"
    using same_log(1) [of ?m "emptied ?l"] by (simp_all add: trans_ok_def NBUF_def MAXOPBLOCKS_def)
  have "log_inv dev p t"
    using t(2) st m dv n(2) written_new [OF i] by (simp add: log_inv_def Let_def idle_def)
  moreover have "\<exists>a. recover_from_log w' u = Ret () a w' \<and> (\<forall>x. x \<notin> log_region ?l \<longrightarrow>
      disk a x = (if int k \<le> lh_n (log_lh ?l) then disk s x else ?v x))"
    if u: "fresh dev q l u" "log_start l = log_start ?l" "disk u = apply_writes (take k ?W) (disk s)" for k u q l w'
  proof -
    let ?k = "if 0 < lh_n (log_lh ?l) then k else 0"
    have e: "disk u = apply_writes (take ?k (commit_writes ?l ?v)) (disk s)" using u(3) by (simp add: written_def)
    note c = crash_disk [where d = "disk s" and v = ?v, OF ok refl n hd v u(2)]
    have "log_disk_ok l (disk u)" unfolding e by (rule c(1))
    moreover have "apply_writes (recover_writes l (disk u)) (disk u) x = (if int k \<le> lh_n (log_lh ?l) then disk s x else ?v x)"
      if "x \<notin> log_region ?l" for x
      unfolding e using c(2) [of x ?k] that v [of x] n(1) by (auto simp: le_nat_iff)
    ultimately have "log_disk_ok l (disk u) \<and> (\<forall>x. x \<notin> log_region ?l \<longrightarrow>
        apply_writes (recover_writes l (disk u)) (disk u) x = (if int k \<le> lh_n (log_lh ?l) then disk s x else ?v x))"
      by simp
    then show ?thesis using recover_run [OF u(1), of w'] by metis
  qed
  moreover have "disk_writes t = disk_writes s @ ?W" "disk t = apply_writes ?W (disk s)" using st by simp_all
  moreover have "\<forall>x. x \<notin> log_region ?l \<longrightarrow> disk t x = ?v x" using st written_new(1) [OF i] by simp
  ultimately show ?thesis using t(1) by blast
qed

text \<open>
  C36. Recovery may itself be interrupted. It returns and leaves an empty log; when it stops after any of its
  block writes and starts again from the disk it left, it gives the same blocks outside the log.
\<close>

theorem recovery_restartable:
  assumes s: "fresh dev p l s" and ok: "log_disk_ok l (disk s)"
  shows "\<exists>t ws. recover_from_log w s = Ret () t w \<and> disk_writes t = disk_writes s @ ws \<and> disk t = apply_writes ws (disk s) \<and>
    head_n (disk t (log_block l 0)) = 0 \<and>
    (\<forall>k u q m w'. fresh dev q m u \<and> log_start m = log_start l \<and> disk u = apply_writes (take k ws) (disk s) \<longrightarrow>
       (\<exists>v. recover_from_log w' u = Ret () v w' \<and> (\<forall>x. x \<notin> log_region l \<longrightarrow> disk v x = disk t x)))"
proof -
  let ?W = "recover_writes l (disk s)"
  have lh: "length (lh_block (log_lh l)) = LOGSIZE" using s by (simp add: fresh_def)
  obtain t where t: "recover_from_log w s = Ret () t w" "disk t = apply_writes ?W (disk s)" "disk_writes t = disk_writes s @ ?W"
    using recover_run [OF s ok] by metis
  have "\<exists>a. recover_from_log w' u = Ret () a w' \<and> (\<forall>x. x \<notin> log_region l \<longrightarrow> disk a x = disk t x)"
    if u: "fresh dev q m u" "log_start m = log_start l" "disk u = apply_writes (take k ?W) (disk s)" for k u q m w'
  proof -
    have e: "log_disk_ok m (disk u)" unfolding u(3) by (rule recover_again(1) [OF ok lh u(2)])
    obtain a where "recover_from_log w' u = Ret () a w'" "disk a = apply_writes (recover_writes m (disk u)) (disk u)"
      using recover_run [OF u(1) e] by metis
    then show ?thesis using recover_again(2) [OF ok lh u(2)] t(2) u(3) by simp
  qed
  moreover have "head_n (disk t (log_block l 0)) = 0" unfolding t(2) by (rule recover_empty [OF ok lh])
  ultimately show ?thesis using t by blast
qed

text \<open>
  C37. Recovery corrupts the reference counts. \<^verbatim>\<open>install_trans\<close> unpins every block it installs, also during
  recovery, when none of them is pinned: the unsigned count of each installed block ends at \<^verbatim>\<open>0xffffffff\<close>, and
  the next \<^verbatim>\<open>bread\<close> of the block returns a locked buffer whose count is zero, which \<^verbatim>\<open>bget\<close> may recycle.
\<close>

theorem recovery_refcnt_wraps:
  assumes s: "fresh dev p l s" and ok: "log_disk_ok l (disk s)"
  shows "\<exists>t. recover_from_log w s = Ret () t w \<and> (\<forall>i < nat (head_n (disk s (log_block l 0))).
    let x = head_block (disk s (log_block l 0)) i
    in refs dev t x = 0xffffffff \<and>
       (\<exists>b u. bread dev x w t = Ret b u w \<and> sl_locked (sleeplocks u (BufSL b)) \<noteq> 0 \<and> b_refcnt (bcache u ! b) = 0))"
proof -
  obtain t where t: "recover_from_log w s = Ret () t w" "bio dev p Map.empty t"
    "refs dev t = (\<lambda>x. if x \<in> head_block (disk s (log_block l 0)) ` {0..<nat (head_n (disk s (log_block l 0)))} then - 1 else 0)"
    using recover_run [OF s ok] by metis
  have "\<exists>b u. bread dev x w t = Ret b u w \<and> sl_locked (sleeplocks u (BufSL b)) \<noteq> 0 \<and> b_refcnt (bcache u ! b) = 0"
    if x: "refs dev t x = - 1" for x
  proof -
    have q: "quiet p t" and c: "cache_ok dev t" and h: "bheld dev p Map.empty t" using t(2) by (simp_all add: bio_def)
    obtain xs where xs: "lru (bcache t) xs" using c by (auto simp: cache_ok_def)
    obtain b where b: "cached dev t x = Some b" "b_refcnt (bcache t ! b) = - 1"
      using x by (auto simp: refs_def split: option.splits)
    note lt = cached_lt [OF b(1)]
    have free: "sl_locked (sleeplocks t (BufSL b)) = 0" using free_buf [OF h] lt by simp
    let ?u = "t\<lparr>bcache := (bcache t)[b := (bcache t ! b)\<lparr>b_refcnt := b_refcnt (bcache t ! b) + 1\<rparr>]\<rparr>"
    have "bget dev x w t = Ret b (sl_take p b ?u) w"
      by (rule bget_hit [OF q xs _ free]) (simp add: find_cached [OF c xs] b)
    moreover have "b_valid (bcache t ! b)" using c lt cached_key [OF b(1)] by (auto simp: cache_ok_def buf_ok_def)
    ultimately have "bread dev x w t = Ret b (sl_take p b ?u) w" using lt by (simp add: bread_def kapply)
    then show ?thesis using lt b(2) by (auto simp: sl_take_def taken_by_def)
  qed
  then show ?thesis using t(1,3) by (auto simp: Let_def)
qed

text \<open>A block change in a transaction.\<close>

definition log_add :: "uint \<Rightarrow> log \<Rightarrow> log" where
  "log_add x l = l\<lparr>log_lh := (log_lh l)\<lparr>lh_block := (lh_block (log_lh l))[log_slot (log_lh l) x := x],
     lh_n := (if int (log_slot (log_lh l) x) = lh_n (log_lh l) then lh_n (log_lh l) + 1 else lh_n (log_lh l))\<rparr>\<rparr>"

lemma bpin_under_log:
  assumes q: "quiet p s" and u: "hw u = enter LogLock (hw s)"
  shows "bpin b w u = Ret () (u\<lparr>bcache := (bcache u)[b := (bcache u ! b)\<lparr>b_refcnt := b_refcnt (bcache u ! b) + 1\<rparr>]\<rparr>) w"
proof -
  have h: "calm (hw u)" "lock_free BcacheLock (hw u)" using q u by (simp_all add: quiet_def)
  have "acquire BcacheLock w u = Ret () (u\<lparr>hw := enter BcacheLock (hw u)\<rparr>) w" by (rule acquire_free [OF h(2)])
  moreover have "release BcacheLock w v = Ret () (v\<lparr>hw := hw u\<rparr>) w" if "hw v = enter BcacheLock (hw u)" for v
    by (rule release_enter [OF that h])
  ultimately show ?thesis by (simp add: bpin_def kbind_apply upd_buf_apply kret_apply)
qed

lemma log_write_run:
  assumes s: "bio dev p H s" and b: "H x = Some b" and m: "refs dev s x \<noteq> - 1"
    and l: "lh_n (log_lh (klog s)) < int LOGSIZE" "lh_n (log_lh (klog s)) < log_size (klog s) - 1" "1 \<le> log_outstanding (klog s)"
  obtains t where "log_write b w s = Ret () t w" "bio dev p H t"
    "store dev t = ((if int (log_slot (log_lh (klog s)) x) = lh_n (log_lh (klog s)) then st_ref x else id) (store dev s))
       \<lparr>st_log := log_add x (klog s)\<rparr>"
proof -
  let ?new = "int (log_slot (log_lh (klog s)) x) = lh_n (log_lh (klog s))"
  let ?u = "s\<lparr>bcache := (bcache s)[b := (bcache s ! b)\<lparr>b_refcnt := b_refcnt (bcache s ! b) + 1\<rparr>]\<rparr>"
  let ?s = "if ?new then ?u else s"
  let ?t = "?s\<lparr>klog := log_add x (klog s)\<rparr>"
  have q: "quiet p s" and c: "cached dev s x = Some b" using s held_cached [OF s b] by (simp_all add: bio_def)
  note key = cached_key [OF c]
  have u: "bio dev p H ?u" "store dev ?u = st_ref x (store dev s)"
    using refcnt_run [OF s c, of "\<lambda>x. x + 1"] m by (simp_all add: st_ref_def eq_neg_iff_add_eq_0)
  have "log_write b w s = Ret () ?t w"
  proof (cases ?new)
    case True
    then show ?thesis
      using l key
      by (simp add: log_write_def kbind_apply kget_apply loglock [OF q] get_buf_apply upd_lh_apply bpin_under_log [OF q]
          Let_def kwhen_apply kret_apply log_add_def)
  next
    case False
    then show ?thesis
      using l key
      by (simp add: log_write_def kbind_apply kget_apply loglock [OF q] get_buf_apply upd_lh_apply
          Let_def kwhen_apply kret_apply log_add_def)
  qed
  moreover have "bio dev p H ?t" using u(1) s by simp
  moreover have "store dev ?t = ((if ?new then st_ref x else id) (store dev s))\<lparr>st_log := log_add x (klog s)\<rparr>" using u(2) by simp
  ultimately show ?thesis using that by blast
qed

lemma log_slot_old:
  assumes "x \<in> home l ` {0..<nat (lh_n (log_lh l))}" "nat (lh_n (log_lh l)) \<le> length (lh_block (log_lh l))"
  shows "log_slot (log_lh l) x < nat (lh_n (log_lh l)) \<and> home l (log_slot (log_lh l) x) = x"
proof (cases "find_idx (\<lambda>y. y = x) (take (nat (lh_n (log_lh l))) (lh_block (log_lh l)))")
  case None
  then have "x \<notin> set (take (nat (lh_n (log_lh l))) (lh_block (log_lh l)))" by (auto simp: find_idx_None)
  then show ?thesis using assms by (auto simp: home_def in_set_conv_nth)
next
  case (Some i)
  then have "i < nat (lh_n (log_lh l))" "lh_block (log_lh l) ! i = x" by (auto simp: find_idx_Some)
  then show ?thesis by (simp add: log_slot_def Some home_def)
qed

lemma log_slot_new:
  assumes "x \<notin> home l ` {0..<nat (lh_n (log_lh l))}"
  shows "log_slot (log_lh l) x = nat (lh_n (log_lh l))"
proof -
  have "find_idx (\<lambda>y. y = x) (take (nat (lh_n (log_lh l))) (lh_block (log_lh l))) = None"
    unfolding find_idx_None using assms by (auto simp: home_def in_set_conv_nth)
  then show ?thesis by (simp add: log_slot_def)
qed

lemma log_add_same [simp]:
  "log_dev (log_add x l) = log_dev l" "log_block (log_add x l) = log_block l" "log_region (log_add x l) = log_region l"
  "log_size (log_add x l) = log_size l" "log_outstanding (log_add x l) = log_outstanding l"
  "log_committing (log_add x l) = log_committing l" "log_start (log_add x l) = log_start l"
  "length (lh_block (log_lh (log_add x l))) = length (lh_block (log_lh l))"
  by (auto simp: log_add_def log_block_def fun_eq_iff log_region_def)

lemma log_add_old:
  assumes x: "x \<in> home l ` {0..<nat (lh_n (log_lh l))}" and n: "nat (lh_n (log_lh l)) \<le> length (lh_block (log_lh l))"
  shows "log_add x l = l" "int (log_slot (log_lh l) x) \<noteq> lh_n (log_lh l)"
proof -
  note o = log_slot_old [OF assms]
  then show e: "int (log_slot (log_lh l) x) \<noteq> lh_n (log_lh l)" by auto
  have "(lh_block (log_lh l))[log_slot (log_lh l) x := x] = lh_block (log_lh l)"
    using o n by (simp add: list_update_same_conv home_def)
  then show "log_add x l = l" using e by (simp add: log_add_def)
qed

lemma log_add_new:
  assumes x: "x \<notin> home l ` {0..<nat (lh_n (log_lh l))}" and n: "0 \<le> lh_n (log_lh l)" "nat (lh_n (log_lh l)) < length (lh_block (log_lh l))"
  shows "lh_n (log_lh (log_add x l)) = lh_n (log_lh l) + 1" "int (log_slot (log_lh l) x) = lh_n (log_lh l)"
    "home (log_add x l) ` {0..<nat (lh_n (log_lh l) + 1)} = insert x (home l ` {0..<nat (lh_n (log_lh l))})"
    "inj_on (home l) {0..<nat (lh_n (log_lh l))} \<Longrightarrow> inj_on (home (log_add x l)) {0..<nat (lh_n (log_lh l) + 1)}"
proof -
  let ?n = "nat (lh_n (log_lh l))"
  have e: "log_slot (log_lh l) x = ?n" by (rule log_slot_new [OF x])
  then show "int (log_slot (log_lh l) x) = lh_n (log_lh l)" "lh_n (log_lh (log_add x l)) = lh_n (log_lh l) + 1"
    using n by (simp_all add: log_add_def)
  have sn: "nat (lh_n (log_lh l) + 1) = Suc ?n" using n by simp
  have h: "home (log_add x l) ?n = x" "\<And>i. i < ?n \<Longrightarrow> home (log_add x l) i = home l i"
    using n by (simp_all add: home_def log_add_def e nth_list_update)
  have im: "home (log_add x l) ` {0..<?n} = home l ` {0..<?n}" by (rule image_cong) (use h in simp_all)
  show "home (log_add x l) ` {0..<nat (lh_n (log_lh l) + 1)} = insert x (home l ` {0..<?n})"
    unfolding sn atLeast0_lessThan_Suc image_insert im h(1) ..
  have "inj_on (home (log_add x l)) {0..<?n} = inj_on (home l) {0..<?n}" by (rule inj_on_cong) (use h in simp)
  then show "inj_on (home (log_add x l)) {0..<nat (lh_n (log_lh l) + 1)}" if "inj_on (home l) {0..<?n}"
    unfolding sn atLeast0_lessThan_Suc using that x im h(1) by (simp add: inj_on_insert)
qed

lemma log_update:
  assumes i: "log_inv dev p s" and x: "x \<notin> log_region (klog s)"
    and l: "lh_n (log_lh (klog s)) < log_size (klog s) - 1" "log_size (klog s) \<le> int LOGSIZE" "1 \<le> log_outstanding (klog s)"
  shows "\<exists>b t1 t2 t3 t4. bread dev x w s = Ret b t1 w \<and> upd_buf b (\<lambda>r. r\<lparr>b_data := f (b_data r)\<rparr>) w t1 = Ret () t2 w \<and>
    log_write b w t2 = Ret () t3 w \<and> brelse b w t3 = Ret () t4 w \<and> log_inv dev p t4 \<and>
    view dev t4 = (view dev s)(x := f (view dev s x)) \<and> disk t4 = disk s \<and> disk_writes t4 = disk_writes s \<and>
    klog t4 = log_add x (klog s) \<and>
    home (klog t4) ` {0..<nat (lh_n (log_lh (klog t4)))} = insert x (home (klog s) ` {0..<nat (lh_n (log_lh (klog s)))})"
proof -
  let ?l = "klog s" and ?n = "nat (lh_n (log_lh (klog s)))"
  let ?H = "home ?l ` {0..<?n}"
  have ok: "trans_ok ?l ?n" and n: "0 \<le> lh_n (log_lh ?l)" "length (lh_block (log_lh ?l)) = LOGSIZE"
    and r: "refs dev s = (\<lambda>x. if x \<in> ?H then 1 else 0)" and v: "\<And>y. y \<notin> ?H \<Longrightarrow> view dev s y = disk s y"
    and hd: "head_n (disk s (log_block ?l 0)) = 0" "length (disk s (log_block ?l 0)) = BSIZE"
    and s: "bio dev p Map.empty s" and dv: "log_dev ?l = dev"
    using i by (simp_all add: log_inv_def Let_def idle_def)
  have nl: "?n < LOGSIZE" "?n + 1 < NBUF" using l n ok by (simp_all add: NBUF_LOGSIZE)
  have c: "Map.empty x = None" "\<And>y. y \<in> dom Map.empty \<Longrightarrow> refs dev s y \<noteq> 0" "refs dev s x \<noteq> - 1"
    "refs dev s x \<noteq> 0 \<or> card {y. refs dev s y \<noteq> 0} < NBUF"
    using card_image_refs [OF r] nl by (simp_all add: r)
  obtain b t1 where t1: "bread dev x w s = Ret b t1 w" "bio dev p [x \<mapsto> b] t1" "store dev t1 = st_ref x (store dev s)"
    by (rule bread_run [OF s c])
  have h: "[x \<mapsto> b] x = Some b" by simp
  have s1: "view dev t1 = view dev s" "refs dev t1 x = (if x \<in> ?H then 2 else 1)" "klog t1 = ?l" "refs dev t1 x \<noteq> 0"
    using storeD [OF t1(3)] by (simp_all add: st_ref_def r)
  obtain t2 where t2: "upd_buf b (\<lambda>r. r\<lparr>b_data := f (b_data r)\<rparr>) w t1 = Ret () t2 w" "bio dev p [x \<mapsto> b] t2"
    "store dev t2 = st_put x (f (view dev t1 x)) (store dev t1)" by (rule put_run [OF t1(2) h s1(4)])
  have s2: "refs dev t2 x \<noteq> - 1" "klog t2 = ?l" using storeD [OF t2(3)] s1 by (simp_all add: st_put_def)
  let ?new = "int (log_slot (log_lh ?l) x) = lh_n (log_lh ?l)"
  have l2: "lh_n (log_lh ?l) < int LOGSIZE" using l by simp
  obtain t3 where t3: "log_write b w t2 = Ret () t3 w" "bio dev p [x \<mapsto> b] t3"
    "store dev t3 = ((if ?new then st_ref x else id) (store dev t2))\<lparr>st_log := log_add x ?l\<rparr>"
    by (rule log_write_run [OF t2(2) h s2(1), unfolded s2(2), OF l2 l(1,3)])
  have new: "?new \<longleftrightarrow> x \<notin> ?H" using log_add_old(2) [of x ?l] log_add_new(2) [of x ?l] n nl by auto
  have s3: "store dev t3 = (store dev s)\<lparr>st_view := (view dev s)(x := f (view dev s x)), st_refs := (refs dev s)(x := 2),
      st_log := log_add x ?l\<rparr>"
    unfolding t3(3) t2(3) t1(3) s1(1) using new by (simp add: st_defs r fun_eq_iff)
  then have c3: "refs dev t3 x = 1 \<Longrightarrow> view dev t3 x = disk t3 x" using storeD(2) [OF s3] by simp
  obtain t4 where t4: "brelse b w t3 = Ret () t4 w" "bio dev p Map.empty t4" "store dev t4 = st_unref x (store dev t3)"
    by (rule brelse_to [OF t3(2) h c3 single_drop(1)])
  have s4: "view dev t4 = (view dev s)(x := f (view dev s x))" "disk t4 = disk s" "disk_writes t4 = disk_writes s"
    "klog t4 = log_add x ?l" "refs dev t4 = (refs dev s)(x := 1)"
    using storeD [OF t4(3) [unfolded s3]] by (simp_all add: st_unref_def)
  have H: "home (klog t4) ` {0..<nat (lh_n (log_lh (klog t4)))} = insert x ?H \<and>
      trans_ok (klog t4) (nat (lh_n (log_lh (klog t4)))) \<and> 0 \<le> lh_n (log_lh (klog t4))"
  proof (cases "x \<in> ?H")
    case True
    then show ?thesis using log_add_old(1) [OF True] n nl ok s4(4) by (simp add: insert_absorb)
  next
    case False
    have m: "?n < length (lh_block (log_lh ?l))" using n nl by simp
    note a = log_add_new [OF False n(1) m]
    show ?thesis using a x ok nl n(1) unfolding s4(4) trans_ok_def by (auto simp: nat_add_distrib)
  qed
  then have "log_inv dev p t4"
    unfolding log_inv_def Let_def idle_def using t4(2) s4 v r n(2) hd dv by (simp add: fun_eq_iff)
  then show ?thesis using t1(1) t2(1) t3(1) t4(1) s4 H by blast
qed

text \<open>
  C38. A change of a block in a transaction is buffered. Reading a block, changing it, \<^verbatim>\<open>log_write\<close> and \<^verbatim>\<open>brelse\<close>
  all return; readers then see the new contents, nothing is written to the disk, and the block is in the log's
  header once, however often it is changed, and pinned in the cache until the commit.
\<close>

theorem log_write_buffers:
  assumes i: "log_inv dev p s" and x: "x \<notin> log_region (klog s)"
    and l: "lh_n (log_lh (klog s)) < log_size (klog s) - 1" "log_size (klog s) \<le> int LOGSIZE" "1 \<le> log_outstanding (klog s)"
  shows "\<exists>b t1 t2 t3 t4. bread dev x w s = Ret b t1 w \<and> upd_buf b (\<lambda>r. r\<lparr>b_data := f (b_data r)\<rparr>) w t1 = Ret () t2 w \<and>
    log_write b w t2 = Ret () t3 w \<and> brelse b w t3 = Ret () t4 w \<and> log_inv dev p t4 \<and>
    view dev t4 = (view dev s)(x := f (view dev s x)) \<and> disk t4 = disk s \<and> disk_writes t4 = disk_writes s \<and>
    klog t4 = log_add x (klog s) \<and>
    home (klog t4) ` {0..<nat (lh_n (log_lh (klog t4)))} = insert x (home (klog s) ` {0..<nat (lh_n (log_lh (klog s)))})"
  by (rule log_update [OF assms])

section \<open>Starting up\<close>

lemma bio_initlock:
  fixes s :: kernel and lk :: lockid and n :: string
  assumes "bio dev p H s"
  defines "t \<equiv> s\<lparr>hw := set_lock lk (\<lambda>l. l\<lparr>lname := n, locked := 0, lcpu := None\<rparr>) (hw s)\<rparr>"
  shows "bio dev p H t" "store dev t = store dev s"
proof -
  have c: "cached dev t = cached dev s" "cache_ok dev t = cache_ok dev s" by (rule store_cong; simp add: t_def)+
  have "quiet p t" unfolding t_def by (rule quiet_initlock) (use assms(1) in \<open>simp add: bio_def\<close>)
  then show "bio dev p H t" using assms(1) c by (simp add: bio_def bheld_def t_def)
  show "store dev t = store dev s" by (rule store_cong(5)) (simp_all add: t_def)
qed

text \<open>The log as \<^verbatim>\<open>initlog\<close> finds it in the superblock.\<close>

definition sb_log :: "uint \<Rightarrow> superblock \<Rightarrow> log \<Rightarrow> log" where
  "sb_log dev sblk l = l\<lparr>log_start := sint (sb_logstart sblk), log_size := sint (sb_nlog sblk), log_dev := dev\<rparr>"

lemma initlog_run:
  assumes s: "bio dev p Map.empty s" "refs dev s = (\<lambda>_. 0)" "view dev s = disk s" "length (lh_block (log_lh (klog s))) = LOGSIZE"
    and ok: "log_disk_ok (sb_log dev sblk (klog s)) (disk s)"
  defines "l \<equiv> sb_log dev sblk (klog s)"
  obtains t where "initlog dev sblk w s = Ret () t w" "bio dev p Map.empty t"
    "disk t = apply_writes (recover_writes l (disk s)) (disk s)" "klog t = emptied (loaded (disk s (log_block l 0)) l)" "view dev t = disk t"
    "refs dev t = (\<lambda>x. if x \<in> head_block (disk s (log_block l 0)) ` {0..<nat (head_n (disk s (log_block l 0)))} then - 1 else 0)"
proof -
  let ?u = "s\<lparr>hw := set_lock LogLock (\<lambda>l. l\<lparr>lname := ''log'', locked := 0, lcpu := None\<rparr>) (hw s)\<rparr>"
  let ?t = "?u\<lparr>klog := l\<rparr>"
  note u = bio_initlock [OF s(1), of LogLock "''log''"]
  have e: "store dev ?t = (store dev s)\<lparr>st_log := l\<rparr>" unfolding store_klog u(2) ..
  have d: "disk ?t = disk s" by simp
  have "fresh dev p l ?t"
    using storeD [OF e] u(1) s by (simp add: fresh_def idle_def l_def sb_log_def)
  moreover have "log_disk_ok l (disk ?t)" using ok by (simp add: l_def)
  moreover have "initlog dev sblk w s = recover_from_log w ?t"
    by (simp add: initlog_def BSIZE_def LOGSIZE_def MAXOPBLOCKS_def kbind_apply initlock_def upd_lock_def kmod_apply upd_log_apply
        kret_apply l_def sb_log_def split: outcome.splits)
  ultimately show ?thesis using recover_run [of dev p l ?t w] that unfolding d by metis
qed

lemma boot_run:
  assumes dev: "dev \<noteq> 0" and s: "quiet p s" "bcache s = replicate (NBUF + 1) buf0" "length (lh_block (log_lh (klog s))) = LOGSIZE"
    and e: "head_n (disk s (log_block (sb_log dev sblk (klog s)) 0)) = 0" "length (disk s (log_block (sb_log dev sblk (klog s)) 0)) = BSIZE"
  obtains t u where "binit w s = Ret () t w" "initlog dev sblk w t = Ret () u w" "log_inv dev p u"
    "klog u = emptied (loaded (disk s (log_block (sb_log dev sblk (klog s)) 0)) (sb_log dev sblk (klog s)))"
    "\<And>x. x \<notin> log_region (sb_log dev sblk (klog s)) \<Longrightarrow> disk u x = disk s x"
proof -
  let ?l = "sb_log dev sblk (klog s)"
  let ?h = "disk s (log_block ?l 0)"
  obtain t where t: "binit w s = Ret () t w" "bio dev p Map.empty t" "refs dev t = (\<lambda>_. 0)" "view dev t = disk s" "disk t = disk s"
    "klog t = klog s" using binit_run [OF s(1,2) dev] by metis
  have ok: "log_disk_ok ?l (disk s)" using e by (simp add: log_disk_ok_def Let_def NBUF_def MAXOPBLOCKS_def)
  have "length (lh_block (log_lh (klog t))) = LOGSIZE" "view dev t = disk t" "log_disk_ok (sb_log dev sblk (klog t)) (disk t)"
    using s(3) ok t by simp_all
  from initlog_run [OF t(2,3) this(2,1,3), of w] obtain u where
    u: "initlog dev sblk w t = Ret () u w" "bio dev p Map.empty u" "disk u = apply_writes (recover_writes ?l (disk s)) (disk s)"
      "klog u = emptied (loaded ?h ?l)" "view dev u = disk u"
      "refs dev u = (\<lambda>x. if x \<in> head_block ?h ` {0..<nat (head_n ?h)} then - 1 else 0)"
    unfolding t(5,6) by blast
  have lh: "length (lh_block (log_lh ?l)) = LOGSIZE" using s(3) by (simp add: sb_log_def)
  have rw: "recover_writes ?l (disk s) = [(log_block ?l 0, put_head (log_lh (emptied (loaded ?h ?l))) ?h)]"
    by (simp add: recover_writes_def Let_def e)
  have du: "disk u = (disk s)(log_block ?l 0 := put_head (log_lh (emptied (loaded ?h ?l))) ?h)" unfolding u(3) rw by simp
  have "length (lh_block (log_lh (loaded ?h ?l))) = LOGSIZE" using lh e by (simp add: loaded_def load_blocks_def)
  then have lk: "lh_n (log_lh (klog u)) = 0" "length (lh_block (log_lh (klog u))) = LOGSIZE" "log_dev (klog u) = dev"
    "log_block (klog u) = log_block ?l" unfolding u(4) by (simp_all add: sb_log_def)
  have "head_n (disk u (log_block ?l 0)) = 0" "length (disk u (log_block ?l 0)) = BSIZE"
    using recover_header [OF ok lh] by (simp_all add: du)
  moreover have "refs dev u = (\<lambda>x. 0)" unfolding u(6) e(1) by simp
  ultimately have "log_inv dev p u"
    unfolding log_inv_def Let_def idle_def trans_ok_def lk using u(2,5) by (simp add: NBUF_def MAXOPBLOCKS_def)
  moreover have "disk u x = disk s x" if "x \<notin> log_region ?l" for x
    using that head_in_region [of ?l] by (auto simp: du)
  ultimately show ?thesis using that t(1) u(1,4) by blast
qed

lemma begin_op_run:
  assumes i: "log_inv dev p s" and o: "\<not> log_committing (klog s)"
    and n: "lh_n (log_lh (klog s)) + (log_outstanding (klog s) + 1) * int MAXOPBLOCKS \<le> int LOGSIZE"
  defines "t \<equiv> s\<lparr>klog := (klog s)\<lparr>log_outstanding := log_outstanding (klog s) + 1\<rparr>\<rparr>"
  shows "begin_op w s = Ret () t w" "log_inv dev p t" "view dev t = view dev s"
proof -
  let ?l = "(klog s)\<lparr>log_outstanding := log_outstanding (klog s) + 1\<rparr>"
  have q: "quiet p s" using i by (simp add: log_inv_def Let_def idle_def bio_def)
  show "begin_op w s = Ret () t w"
    unfolding begin_op_def kdo.simps kbind_apply loglock(1) [OF q refl] outcome.case
    by (rule kwaitloop_Ret) (use o n in \<open>simp add: kbind_apply kget_apply loglock(2) [OF q] upd_log_apply kret_apply t_def\<close>)
  have e: "store dev t = (store dev s)\<lparr>st_log := ?l\<rparr>" by (simp add: t_def)
  show "view dev t = view dev s" using storeD(1) [OF e] by simp
  have sl: "log_start ?l = log_start (klog s)" "log_lh ?l = log_lh (klog s)" by simp_all
  show "log_inv dev p t"
    using i storeD [OF e] by (simp add: log_inv_def Let_def idle_def same_log [OF sl]) (simp add: t_def)
qed

text \<open>
  C39. The file system starts. On a disk whose log is empty, \<^verbatim>\<open>binit\<close> and \<^verbatim>\<open>initlog\<close> return and leave the log
  ready for a first transaction, with no block outside the log changed; \<^verbatim>\<open>begin_op\<close> then returns at once.
\<close>

theorem boot_log_ready:
  assumes dev: "dev \<noteq> 0" and s: "quiet p s" "bcache s = replicate (NBUF + 1) buf0" "length (lh_block (log_lh (klog s))) = LOGSIZE"
    and e: "head_n (disk s (log_block (sb_log dev sblk (klog s)) 0)) = 0" "length (disk s (log_block (sb_log dev sblk (klog s)) 0)) = BSIZE"
    and c: "\<not> log_committing (klog s)" "log_outstanding (klog s) = 0"
  shows "\<exists>t u v. binit w s = Ret () t w \<and> initlog dev sblk w t = Ret () u w \<and> begin_op w u = Ret () v w \<and> log_inv dev p v \<and>
    log_outstanding (klog v) = 1 \<and> (\<forall>x. x \<notin> log_region (sb_log dev sblk (klog s)) \<longrightarrow> disk v x = disk s x)"
proof -
  obtain t u where u: "binit w s = Ret () t w" "initlog dev sblk w t = Ret () u w" "log_inv dev p u"
    "klog u = emptied (loaded (disk s (log_block (sb_log dev sblk (klog s)) 0)) (sb_log dev sblk (klog s)))"
    "\<And>x. x \<notin> log_region (sb_log dev sblk (klog s)) \<Longrightarrow> disk u x = disk s x"
    using boot_run [OF dev s e] by blast
  have k: "\<not> log_committing (klog u)" "log_outstanding (klog u) = 0" "lh_n (log_lh (klog u)) = 0"
    unfolding u(4) using c by (simp_all add: emptied_def loaded_def load_blocks_def sb_log_def)
  have n: "lh_n (log_lh (klog u)) + (log_outstanding (klog u) + 1) * int MAXOPBLOCKS \<le> int LOGSIZE"
    by (simp add: k LOGSIZE_def MAXOPBLOCKS_def)
  have "begin_op w u = Ret () (u\<lparr>klog := (klog u)\<lparr>log_outstanding := log_outstanding (klog u) + 1\<rparr>\<rparr>) w"
    "log_inv dev p (u\<lparr>klog := (klog u)\<lparr>log_outstanding := log_outstanding (klog u) + 1\<rparr>\<rparr>)"
    by (rule begin_op_run [OF u(3) k(1) n])+
  then show ?thesis using u(1,2,5) k(2) by (intro exI conjI) auto
qed

text \<open>The examples: an empty disk with the log at block 2, and one that holds a committed transaction of block 40.\<close>

definition sb2 :: superblock where
  "sb2 = (sb kernel0)\<lparr>sb_logstart := 2, sb_nlog := 30\<rparr>"

lemma kernel_p0_log:
  "klog kernel_p0 = \<lparr>log_start = 0, log_size = 0, log_outstanding = 0, log_committing = False, log_dev = 0,
     log_lh = \<lparr>lh_n = 0, lh_block = replicate LOGSIZE 0\<rparr>\<rparr>" "disk kernel_p0 b = replicate 1024 0"
  by (simp_all add: kernel_p0_def kernel0_def bss_def)

lemma zero_head: "head_n (replicate 1024 0) = 0"
  by (simp add: head_n_def get32_def numeral_eq_Suc)

lemma not_in_log: "log_start l = 2 \<Longrightarrow> 40 \<notin> log_region l"
proof
  assume a: "log_start l = 2" "40 \<in> log_region l"
  then obtain i where i: "i < LOGSIZE" "40 = log_block l i" by (auto simp: log_region_def)
  then have "(of_nat 38 :: uint) = of_nat i" using a by (simp add: log_block_def algebra_simps)
  then have "unat (of_nat 38 :: uint) = unat (of_nat i :: uint)" by (rule arg_cong)
  then show False using i(1) by (simp add: unat_of_nat take_bit_nat_eq_self LOGSIZE_def MAXOPBLOCKS_def)
qed

theorem boot_log_ready_witness:
  "\<exists>t u v. binit [] kernel_p0 = Ret () t [] \<and> initlog 1 sb2 [] t = Ret () u [] \<and> begin_op [] u = Ret () v [] \<and> log_inv 1 0 v"
  using boot_log_ready [of 1 0 kernel_p0 sb2 "[]"] kernel_p0
  by (auto simp: kernel_p0_log zero_head BSIZE_def)

lemma ready0:
  obtains s where "log_inv 1 0 s" "log_outstanding (klog s) = 1" "\<not> log_committing (klog s)" "lh_n (log_lh (klog s)) = 0"
    "log_size (klog s) = 30" "log_start (klog s) = 2"
proof -
  let ?l = "sb_log 1 sb2 (klog kernel_p0)"
  obtain t u where u: "log_inv 1 0 u" "klog u = emptied (loaded (disk kernel_p0 (log_block ?l 0)) ?l)"
    by (rule boot_run [of 1 0 kernel_p0 sb2 "[]"]) (use kernel_p0 in \<open>simp_all add: kernel_p0_log zero_head BSIZE_def\<close>)
  have k: "\<not> log_committing (klog u)" "log_outstanding (klog u) = 0" "lh_n (log_lh (klog u)) = 0" "log_size (klog u) = 30" "log_start (klog u) = 2"
    unfolding u(2) by (simp_all add: emptied_def loaded_def load_blocks_def sb_log_def kernel_p0_log sb2_def)
  have n: "lh_n (log_lh (klog u)) + (log_outstanding (klog u) + 1) * int MAXOPBLOCKS \<le> int LOGSIZE"
    by (simp add: k LOGSIZE_def MAXOPBLOCKS_def)
  show ?thesis by (rule that [OF begin_op_run(2) [OF u(1) k(1) n]]) (use k in simp_all)
qed

theorem log_write_buffers_witness:
  "\<exists>s b t1 t2 t3 t4. log_inv 1 0 s \<and> bread 1 40 [] s = Ret b t1 [] \<and>
    upd_buf b (\<lambda>r. r\<lparr>b_data := replicate BSIZE 7\<rparr>) [] t1 = Ret () t2 [] \<and> log_write b [] t2 = Ret () t3 [] \<and>
    brelse b [] t3 = Ret () t4 [] \<and> view 1 t4 40 = replicate BSIZE 7 \<and> disk t4 = disk s"
proof -
  obtain s where s: "log_inv 1 0 s" "log_outstanding (klog s) = 1" "lh_n (log_lh (klog s)) = 0" "log_size (klog s) = 30" "log_start (klog s) = 2"
    by (rule ready0)
  have "lh_n (log_lh (klog s)) < log_size (klog s) - 1" "log_size (klog s) \<le> int LOGSIZE" "1 \<le> log_outstanding (klog s)"
    using s by (simp_all add: LOGSIZE_def MAXOPBLOCKS_def)
  from log_write_buffers [OF s(1) not_in_log [OF s(5)] this, of "[]" "\<lambda>_. replicate BSIZE 7"] s(1) show ?thesis
    by (elim exE conjE) (intro exI conjI; (assumption | simp))
qed

theorem end_op_atomic_witness:
  "\<exists>s t. log_inv 1 0 s \<and> lh_n (log_lh (klog s)) = 1 \<and> end_op [] s = Ret () t [] \<and> log_inv 1 0 t \<and> disk t 40 = view 1 s 40"
proof -
  obtain s where s: "log_inv 1 0 s" "log_outstanding (klog s) = 1" "\<not> log_committing (klog s)" "lh_n (log_lh (klog s)) = 0"
    "log_size (klog s) = 30" "log_start (klog s) = 2" by (rule ready0)
  have l: "lh_n (log_lh (klog s)) < log_size (klog s) - 1" "log_size (klog s) \<le> int LOGSIZE" "1 \<le> log_outstanding (klog s)"
    using s by (simp_all add: LOGSIZE_def MAXOPBLOCKS_def)
  obtain t where t: "log_inv 1 0 t" "klog t = log_add 40 (klog s)"
    using log_update [OF s(1) not_in_log [OF s(6)] l, of "[]" id] by blast
  have n: "0 \<le> lh_n (log_lh (klog s))" "nat (lh_n (log_lh (klog s))) < length (lh_block (log_lh (klog s)))"
    using s(1,4) by (simp_all add: log_inv_def Let_def LOGSIZE_def MAXOPBLOCKS_def)
  have k: "lh_n (log_lh (klog t)) = 1" "log_outstanding (klog t) = 1" "\<not> log_committing (klog t)" "log_start (klog t) = 2"
    unfolding t(2) using log_add_new(1) [OF _ n, of 40] s by simp_all
  show ?thesis using end_op_atomic [OF t(1) k(2,3), of "[]"] t(1) k(1) not_in_log [OF k(4)] by blast
qed

text \<open>A disk that holds a committed transaction of block 40.\<close>

definition log2 :: log where
  "log2 = (klog kernel_p0)\<lparr>log_start := 2, log_dev := 1\<rparr>"

definition disk2 :: "uint \<Rightarrow> byte list" where
  "disk2 b = (if b = 2 then put_head \<lparr>lh_n = 1, lh_block = replicate LOGSIZE 40\<rparr> (replicate BSIZE 0) else replicate BSIZE 0)"

lemma disk2_head: "head_n (disk2 2) = 1" "head_block (disk2 2) 0 = 40" "length (disk2 2) = BSIZE" "log_block log2 0 = 2"
  using put_head [of "replicate BSIZE 0" "\<lparr>lh_n = 1, lh_block = replicate LOGSIZE 40\<rparr>"]
  by (simp_all add: disk2_def LOGSIZE_def MAXOPBLOCKS_def log_block_def log2_def)

lemma fresh2:
  obtains s where "fresh 1 0 log2 s" "disk s = disk2" "log_disk_ok log2 (disk s)"
proof -
  let ?k = "kernel_p0\<lparr>disk := disk2\<rparr>"
  have q: "quiet 0 ?k" "bcache ?k = replicate (NBUF + 1) buf0" using kernel_p0 by (simp_all add: quiet_def)
  obtain t where t: "bio 1 0 Map.empty t" "refs 1 t = (\<lambda>_. 0)" "view 1 t = disk ?k" "disk t = disk ?k"
    using binit_run [OF q one_neq_zero] by metis
  let ?s = "t\<lparr>klog := log2\<rparr>"
  have e: "store 1 ?s = (store 1 t)\<lparr>st_log := log2\<rparr>" by simp
  have "fresh 1 0 log2 ?s"
    using t storeD [OF e] by (simp add: fresh_def idle_def) (simp add: log2_def kernel_p0_log)
  moreover have "disk ?s = disk2" using t(4) by simp
  moreover have "log_disk_ok log2 disk2"
    using disk2_head not_in_log [of log2] by (simp add: log_disk_ok_def Let_def NBUF_def MAXOPBLOCKS_def) (simp add: log2_def)
  ultimately show ?thesis using that by metis
qed

theorem recovery_restartable_witness:
  "\<exists>s t. fresh 1 0 log2 s \<and> disk s = disk2 \<and> recover_from_log [] s = Ret () t [] \<and> head_n (disk t 2) = 0"
proof -
  obtain s where s: "fresh 1 0 log2 s" "disk s = disk2" "log_disk_ok log2 (disk s)" by (rule fresh2)
  show ?thesis using recovery_restartable [OF s(1,3), of "[]"] s(1,2) unfolding disk2_head(4) by blast
qed

theorem recovery_refcnt_wraps_witness:
  "\<exists>s t. fresh 1 0 log2 s \<and> disk s = disk2 \<and> recover_from_log [] s = Ret () t [] \<and> refs 1 t 40 = 0xffffffff"
proof -
  obtain s where s: "fresh 1 0 log2 s" "disk s = disk2" "log_disk_ok log2 (disk s)" by (rule fresh2)
  show ?thesis using recovery_refcnt_wraps [OF s(1,3), of "[]"] s(1,2) disk2_head by (auto simp: Let_def)
qed

end
