(* ===== verification/Fsdata.thy ===== *)
theory Fsdata
  imports Fs
begin

text \<open>
  The data of the file system of \<^verbatim>\<open>kernel/fs.c\<close>: path names as lists of components, inodes as bytes of a
  block, and the bits of the free map.
\<close>

unbundle bit_operations_syntax

section \<open>Path names\<close>

text \<open>The components of a path: what stands between slashes, up to the zero that ends the string.\<close>

primrec components :: "byte list \<Rightarrow> byte list \<Rightarrow> byte list list" where
  "components acc [] = (if acc = [] then [] else [acc])"
| "components acc (x # xs) =
     (if x = 0 then (if acc = [] then [] else [acc])
      else if x = slash then (if acc = [] then [] else [acc]) @ components [] xs
      else components (acc @ [x]) xs)"

lemma slash_nonzero: "slash \<noteq> 0"
  by (simp add: slash_def)

lemma components_skip: "components [] (skip_slashes path) = components [] path"
  by (induction path) (auto simp: skip_slashes_def slash_nonzero)

lemma components_end: "path_end path \<Longrightarrow> components [] path = []"
  by (cases path) (auto simp: path_end_def)

lemma components_word:
  "acc \<noteq> [] \<or> \<not> (path = [] \<or> hd path = slash \<or> hd path = 0) \<Longrightarrow>
   components acc path = (acc @ takeWhile (\<lambda>c. c \<noteq> slash \<and> c \<noteq> 0) path)
     # components [] (dropWhile (\<lambda>c. c \<noteq> slash \<and> c \<noteq> 0) path)"
proof (induction path arbitrary: acc)
  case (Cons x xs)
  then show ?case using Cons.IH [of "acc @ [x]"] by (auto simp: slash_nonzero)
qed simp

lemma cstring_prefix:
  assumes "0 \<notin> set s" shows "cstring (s @ 0 # r) = s"
  using assms unfolding cstring_def by (subst takeWhile_append2) auto

text \<open>
  C26. \<^verbatim>\<open>skipelem\<close> takes a path apart into its components. It fails exactly on a path with none; otherwise
  it puts the first component into the name, cut to 14 bytes and ended by a zero if it is shorter, and
  returns a path whose components are the other ones and which does not start with a slash.
\<close>

theorem skipelem_components:
  assumes "length name = DIRSIZ"
  shows "case components [] path of
      [] \<Rightarrow> skipelem path name = None
    | c # cs \<Rightarrow> \<exists>path' name'. skipelem path name = Some (path', name') \<and> components [] path' = cs \<and>
        length name' = DIRSIZ \<and> cstring name' = take DIRSIZ c \<and> (path' = [] \<or> hd path' \<noteq> slash)"
proof -
  let ?p = "skip_slashes path" and ?P = "\<lambda>c. c \<noteq> slash \<and> c \<noteq> 0"
  show ?thesis
  proof (cases "path_end ?p")
    case True
    then show ?thesis using components_end [of ?p] components_skip [of path] by (simp add: skipelem_def)
  next
    case False
    let ?s = "takeWhile ?P ?p" and ?r = "dropWhile ?P ?p"
    have "?p \<noteq> []" "hd ?p \<noteq> 0" using False by (auto simp: path_end_def split: list.splits)
    moreover have "hd ?p \<noteq> slash" using \<open>?p \<noteq> []\<close> hd_dropWhile [of "\<lambda>c. c = slash" path] by (auto simp: skip_slashes_def)
    ultimately have c: "components [] path = ?s # components [] ?r"
      using components_word [of "[]" ?p] components_skip [of path] by simp
    define nm where "nm = (if DIRSIZ \<le> length ?s then overwrite name (take DIRSIZ ?s) else overwrite name (?s @ [0]))"
    have nz: "0 \<notin> set ?s" by (auto dest: set_takeWhileD)
    have "length nm = DIRSIZ" using assms by (auto simp: nm_def overwrite_def)
    moreover have "cstring nm = take DIRSIZ ?s"
    proof (cases "DIRSIZ \<le> length ?s")
      case True
      then have "nm = take DIRSIZ ?s" using assms by (simp add: nm_def overwrite_def)
      moreover have "0 \<notin> set (take DIRSIZ ?s)" using nz by (auto dest: in_set_takeD)
      ultimately show ?thesis by (auto simp: cstring_def takeWhile_eq_all_conv)
    next
      case False
      then show ?thesis using cstring_prefix [OF nz] by (simp add: nm_def overwrite_def)
    qed
    moreover have "skipelem path name = Some (skip_slashes ?r, nm)"
      using False by (simp add: skipelem_def Let_def nm_def)
    moreover have "skip_slashes ?r = [] \<or> hd (skip_slashes ?r) \<noteq> slash"
      using hd_dropWhile [of "\<lambda>c. c = slash" ?r] by (auto simp: skip_slashes_def)
    ultimately show ?thesis unfolding c using components_skip [of ?r] by simp
  qed
qed

theorem skipelem_components_witness:
  "\<exists>path' name'. skipelem [slash, slash, 97, 98, slash, 99] (replicate 14 7) = Some (path', name') \<and>
     components [] path' = [[99]] \<and> cstring name' = [97, 98]"
proof -
  have "components [] [slash, slash, 97, 98, slash, 99] = [[97, 98], [99]]" by (simp add: slash_def)
  then show ?thesis
    using skipelem_components [of "replicate 14 7" "[slash, slash, 97, 98, slash, 99]"] by (auto simp: DIRSIZ_def)
qed

section \<open>Inodes on the disk\<close>

lemma put_addrs_props:
  "off + 4 * length xs \<le> length bs \<Longrightarrow> length (put_addrs bs off xs) = length bs \<and>
   (\<forall>o'. o' + 2 \<le> off \<or> off + 4 * length xs \<le> o' \<longrightarrow> get16 (put_addrs bs off xs) o' = get16 bs o') \<and>
   (\<forall>o'. o' + 4 \<le> off \<or> off + 4 * length xs \<le> o' \<longrightarrow> get32 (put_addrs bs off xs) o' = get32 bs o') \<and>
   (\<forall>i < length xs. get32 (put_addrs bs off xs) (off + 4 * i) = xs ! i)"
proof (induction xs arbitrary: bs off)
  case Nil
  then show ?case by simp
next
  case (Cons x xs)
  let ?b = "put32 bs off x"
  have l: "off + 4 \<le> length bs" "length ?b = length bs" using Cons.prems by simp_all
  have ih: "length (put_addrs ?b (off + 4) xs) = length ?b"
    "\<And>o'. o' + 2 \<le> off + 4 \<or> off + 4 + 4 * length xs \<le> o' \<Longrightarrow> get16 (put_addrs ?b (off + 4) xs) o' = get16 ?b o'"
    "\<And>o'. o' + 4 \<le> off + 4 \<or> off + 4 + 4 * length xs \<le> o' \<Longrightarrow> get32 (put_addrs ?b (off + 4) xs) o' = get32 ?b o'"
    "\<And>i. i < length xs \<Longrightarrow> get32 (put_addrs ?b (off + 4) xs) (off + 4 + 4 * i) = xs ! i"
    using Cons.IH [of "off + 4" ?b] Cons.prems l by auto
  have "get32 (put_addrs bs off (x # xs)) (off + 4 * i) = (x # xs) ! i" if "i < length (x # xs)" for i
    using that ih(3) [of off] ih(4) [of "i - 1"] l by (cases i) (simp_all add: algebra_simps)
  then show ?case using ih(1-3) l by (auto simp: get16_put32_other get32_put32_other)
qed

text \<open>
  An inode that is written into a block at its place is read back unchanged, and every inode at
  another place of the block is as it was.
\<close>

lemma dinode_stored:
  assumes "off + 64 \<le> length bs" "length (d_addrs d) = NDIRECT + 1"
  shows "dinode_of (put_dinode bs off d) off = d" "length (put_dinode bs off d) = length bs"
    "\<forall>o'. o' + 64 \<le> off \<or> off + 64 \<le> o' \<longrightarrow> dinode_of (put_dinode bs off d) o' = dinode_of bs o'"
proof -
  let ?b = "put32 (put16 (put16 (put16 (put16 bs off (d_type d)) (off + 2) (d_major d)) (off + 4) (d_minor d))
    (off + 6) (d_nlink d)) (off + 8) (d_size d)"
  have n: "length (d_addrs d) = 13" using assms(2) by (simp add: NDIRECT_def)
  have l: "length ?b = length bs" using assms(1) by simp
  have p: "put_dinode bs off d = put_addrs ?b (off + 12) (d_addrs d)" by (simp add: put_dinode_def)
  note pa = put_addrs_props [of "off + 12" "d_addrs d" ?b, unfolded l n]
  have "map (\<lambda>i. get32 (put_dinode bs off d) (off + 12 + 4 * i)) [0..<NDIRECT + 1] = d_addrs d"
    unfolding p using pa assms(1) n by (intro nth_equalityI) (simp_all add: NDIRECT_def del: upt_Suc)
  then have "dinode_of (put_dinode bs off d) off = d"
    using pa assms(1) unfolding p
    by (simp add: dinode_of_def get16_put32_other get16_put16_other get32_put16_other)
  moreover have g16: "get16 (put_dinode bs off d) x = get16 bs x" if "x + 2 \<le> off \<or> off + 64 \<le> x" for x
    using pa assms(1) that unfolding p by (auto simp: get16_put32_other get16_put16_other)
  moreover have g32: "get32 (put_dinode bs off d) x = get32 bs x" if "x + 4 \<le> off \<or> off + 64 \<le> x" for x
    using pa assms(1) that unfolding p by (auto simp: get32_put32_other get32_put16_other)
  moreover have "dinode_of (put_dinode bs off d) o' = dinode_of bs o'" if o: "o' + 64 \<le> off \<or> off + 64 \<le> o'" for o'
  proof -
    have "get32 (put_dinode bs off d) (o' + 12 + 4 * i) = get32 bs (o' + 12 + 4 * i)" if "i < 13" for i
      using o that by (intro g32) auto
    then show ?thesis using o by (auto simp: dinode_of_def NDIRECT_def intro!: g16 g32)
  qed
  ultimately show "dinode_of (put_dinode bs off d) off = d" "length (put_dinode bs off d) = length bs"
    "\<forall>o'. o' + 64 \<le> off \<or> off + 64 \<le> o' \<longrightarrow> dinode_of (put_dinode bs off d) o' = dinode_of bs o'"
    using pa assms(1) p by simp_all
qed

section \<open>The free map\<close>

lemma bit_clear_bit: "bit_clear data bi \<longleftrightarrow> \<not> bit (data ! (bi div 8)) (bi mod 8)"
  unfolding bit_clear_def bit_iff_and_push_bit_not_eq_0 by simp

lemma same_bit: "bi div 8 = bj div 8 \<Longrightarrow> bi mod 8 = bj mod 8 \<Longrightarrow> bi = (bj :: nat)"
  by (metis div_mult_mod_eq)

text \<open>
  C28. In one block of the free map, the assignments with which \<^verbatim>\<open>balloc\<close> sets and \<^verbatim>\<open>bfree\<close> clears a bit
  change that bit and no other: after the one exactly that block is no longer free, after the other exactly that block
  has become free, and freeing a block just allocated restores the map.
\<close>

theorem free_map_bits:
  assumes "bi < 8 * length data" "bj < 8 * length data"
  shows "bit_clear (mark_used data bi) bj = (bj \<noteq> bi \<and> bit_clear data bj) \<and>
    bit_clear (mark_free data bi) bj = (bj = bi \<or> bit_clear data bj) \<and>
    (bit_clear data bi \<longrightarrow> mark_free (mark_used data bi) bi = data)"
proof (intro conjI impI)
  have i: "bi div 8 < length data" "bj div 8 < length data" using assms by (simp_all add: less_mult_imp_div_less mult.commute)
  have m: "bi mod 8 < 8" "bj mod 8 < 8" by simp_all
  show "bit_clear (mark_used data bi) bj = (bj \<noteq> bi \<and> bit_clear data bj)"
    using i m same_bit [of bi bj] unfolding bit_clear_bit mark_used_def
    by (cases "bi div 8 = bj div 8") (auto simp: bit_or_iff bit_exp_iff possible_bit_word)
  show "bit_clear (mark_free data bi) bj = (bj = bi \<or> bit_clear data bj)"
    using i m same_bit [of bi bj] unfolding bit_clear_bit mark_free_def
    by (cases "bi div 8 = bj div 8") (auto simp: bit_and_iff bit_not_iff bit_exp_iff possible_bit_word)
  assume c: "bit_clear data bi"
  have "(data ! (bi div 8) OR push_bit (bi mod 8) 1) AND NOT (push_bit (bi mod 8) 1) = data ! (bi div 8)"
    using c unfolding bit_clear_bit
    by (intro bit_word_eqI) (auto simp: bit_or_iff bit_and_iff bit_not_iff bit_exp_iff possible_bit_word)
  then show "mark_free (mark_used data bi) bi = data" using i(1) by (simp add: mark_free_def mark_used_def)
qed

theorem free_map_bits_witness:
  "\<not> bit_clear (mark_used (replicate 1024 0) 77) 77 \<and> bit_clear (mark_used (replicate 1024 0) 77) 78"
  using free_map_bits [of 77 "replicate 1024 0" 77] free_map_bits [of 77 "replicate 1024 0" 78]
  by (simp add: bit_clear_def)

end
