(* ===== verification/Inodes.thy ===== *)
theory Inodes
  imports Logsafe Fsdata
begin

text \<open>
  Inodes between memory and disk: \<^verbatim>\<open>iupdate()\<close> and \<^verbatim>\<open>ilock()\<close> of \<^verbatim>\<open>kernel/fs.c\<close> in a transaction, through
  the log and the buffer cache. \<open>on_disk\<close> is the inode that a reader of the inode blocks finds.
\<close>

section \<open>Where an inode is\<close>

definition on_disk :: "uint \<Rightarrow> superblock \<Rightarrow> kernel \<Rightarrow> uint \<Rightarrow> dinode" where
  "on_disk dev sblk s inum = dinode_of (view dev s (IBLOCK inum sblk)) (dinode_off inum)"

lemma dinode_off_bound: "dinode_off inum + 64 \<le> BSIZE"
proof -
  have "inum mod IPB < 16" unfolding IPB_def by (rule word_mod_less_divisor) simp
  then have "unat (inum mod IPB) < 16" by (simp add: word_less_nat_alt)
  then show ?thesis by (simp add: dinode_off_def BSIZE_def)
qed

text \<open>Different inodes have different places, which do not overlap.\<close>

lemma inode_place:
  assumes "i \<noteq> j" "IBLOCK i sblk = IBLOCK j sblk"
  shows "dinode_off i + 64 \<le> dinode_off j \<or> dinode_off j + 64 \<le> dinode_off i"
proof -
  have d: "i div IPB = j div IPB" using assms(2) by (simp add: IBLOCK_def)
  have "i mod IPB \<noteq> j mod IPB"
  proof
    assume "i mod IPB = j mod IPB"
    then have "i div IPB * IPB + i mod IPB = j div IPB * IPB + j mod IPB" using d by simp
    then show False using assms(1) by (simp add: word_mod_div_equality)
  qed
  then have "unat (i mod IPB) \<noteq> unat (j mod IPB)" by (simp add: word_unat_eq_iff)
  then show ?thesis unfolding dinode_off_def by linarith
qed

section \<open>Frame\<close>

lemma bio_icache [simp]: "bio dev p H (s\<lparr>icache := c\<rparr>) = bio dev p H s"
proof -
  have "cached dev (s\<lparr>icache := c\<rparr>) = cached dev s" "cache_ok dev (s\<lparr>icache := c\<rparr>) = cache_ok dev s" by (rule store_cong; simp)+
  then show ?thesis by (simp add: bio_def bheld_def quiet_def)
qed

lemma store_icache [simp]: "store dev (s\<lparr>icache := c\<rparr>) = store dev s"
  by (rule store_cong(5)) simp_all

lemma bio_inode_lock:
  assumes "bio dev p H s"
  shows "bio dev p H (s\<lparr>sleeplocks := (sleeplocks s)(InodeSL j := l)\<rparr>)"
    "store dev (s\<lparr>sleeplocks := (sleeplocks s)(InodeSL j := l)\<rparr>) = store dev s"
proof -
  let ?t = "s\<lparr>sleeplocks := (sleeplocks s)(InodeSL j := l)\<rparr>"
  have "cached dev ?t = cached dev s" "cache_ok dev ?t = cache_ok dev s" by (rule store_cong; simp)+
  then show "bio dev p H ?t" using assms by (simp add: bio_def bheld_def quiet_def)
  show "store dev ?t = store dev s" by (rule store_cong(5)) simp_all
qed

lemma log_inv_cong:
  assumes "log_inv dev p s" "bio dev p Map.empty t" "store dev t = store dev s"
  shows "log_inv dev p t"
  using assms(1,2) storeD [OF assms(3)] by (simp add: log_inv_def idle_def Let_def)

text \<open>Reading a block and giving it back touches neither the table of inodes nor their locks.\<close>

definition fs_same :: "kernel \<Rightarrow> kernel \<Rightarrow> bool" where
  "fs_same s t \<longleftrightarrow> icache t = icache s \<and> sb t = sb s \<and> (\<forall>j. sleeplocks t (InodeSL j) = sleeplocks s (InodeSL j)) \<and>
     map p_pid (procs t) = map p_pid (procs s)"

lemma bread_same:
  assumes s: "bio dev p Map.empty s" and e: "bread dev bno w s = Ret b t w"
  shows "fs_same s t"
proof -
  have q: "quiet p s" and ok: "cache_ok dev s" and h: "bheld dev p Map.empty s" using s by (simp_all add: bio_def)
  obtain xs where l: "lru (bcache s) xs" using ok by (auto simp: cache_ok_def)
  have free: "sl_locked (sleeplocks s (BufSL a)) = 0" if "a < NBUF" for a using h that by (simp add: bheld_def)
  have *: "\<exists>a u. bget dev bno w s = Ret a (sl_take p a (s\<lparr>bcache := u\<rparr>)) w \<or> bget dev bno w s = Panic ''bget: no buffers''"
  proof (cases "find (\<lambda>i. b_dev (bcache s ! i) = dev \<and> b_blockno (bcache s ! i) = bno) xs")
    case hit: (Some a)
    then have "a < NBUF" using find_in [OF hit] lru_in [OF l] by simp
    then show ?thesis using bget_hit [OF q l hit free] by blast
  next
    case miss: None
    show ?thesis
    proof (cases "find (\<lambda>i. b_refcnt (bcache s ! i) = 0) (rev xs)")
      case None
      then show ?thesis using bget_full [OF q l miss] by blast
    next
      case (Some a)
      then have "a < NBUF" using find_in [OF Some] lru_in [OF l] by simp
      then show ?thesis using bget_miss [OF q l miss Some free] by blast
    qed
  qed
  then show ?thesis using e
    by (auto simp: bread_def kapply disk_rw_def fs_same_def sl_take_def split: if_splits)
qed

lemma brelse_same:
  assumes s: "bio dev p H s" and b: "H bno = Some b" and e: "brelse b w s = Ret () t w"
  shows "fs_same s t"
proof -
  have q: "quiet p s" and h: "bheld dev p H s" using s by (simp_all add: bio_def)
  have "b < length (bcache s)" using cached_lt bheldD(1) [OF h b] by blast
  from brelse_exact [OF q bheldD(2,3) [OF h b] this, of w] e show ?thesis
    by (auto simp: fs_same_def sl_drop_def woken_def)
qed

section \<open>Reading a block in a transaction\<close>

lemma log_read:
  assumes i: "log_inv dev p s"
  obtains b t where "bread dev x w s = Ret b t w" "bio dev p [x \<mapsto> b] t" "store dev t = st_ref x (store dev s)"
    "b_data (bcache t ! b) = view dev s x" "refs dev t x = 1 \<longrightarrow> view dev t x = disk t x" "fs_same s t"
proof -
  let ?l = "klog s" and ?n = "nat (lh_n (log_lh (klog s)))"
  let ?H = "home ?l ` {0..<?n}"
  have ok: "trans_ok ?l ?n" and r: "refs dev s = (\<lambda>x. if x \<in> ?H then 1 else 0)"
    and v: "\<And>y. y \<notin> ?H \<Longrightarrow> view dev s y = disk s y" and s: "bio dev p Map.empty s"
    using i by (simp_all add: log_inv_def Let_def idle_def)
  have "?n < NBUF" using ok by (simp add: trans_ok_def)
  then have c: "Map.empty x = None" "\<And>y. y \<in> dom Map.empty \<Longrightarrow> refs dev s y \<noteq> 0" "refs dev s x \<noteq> - 1"
    "refs dev s x \<noteq> 0 \<or> card {y. refs dev s y \<noteq> 0} < NBUF"
    using card_image_refs [OF r] by (simp_all add: r)
  obtain b t where t: "bread dev x w s = Ret b t w" "bio dev p [x \<mapsto> b] t" "store dev t = st_ref x (store dev s)"
    by (rule bread_run [OF s c])
  have st: "view dev t = view dev s" "refs dev t x = (if x \<in> ?H then 2 else 1)" "disk t = disk s"
    using storeD [OF t(3)] by (simp_all add: st_ref_def r)
  have "b_data (bcache t ! b) = view dev s x" using held_data [OF t(2), of x b] st(1) by simp
  moreover have "refs dev t x = 1 \<longrightarrow> view dev t x = disk t x" using st v [of x] by (auto split: if_splits)
  ultimately show thesis using that t bread_same [OF s t(1)] by blast
qed

section \<open>\<^verbatim>\<open>ilock\<close>\<close>

definition loaded_inode :: "dinode \<Rightarrow> inode \<Rightarrow> inode" where
  "loaded_inode d q = q\<lparr>i_type := d_type d, i_major := d_major d, i_minor := d_minor d, i_nlink := d_nlink d,
     i_size := d_size d, i_addrs := d_addrs d, i_valid := True\<rparr>"

lemma ilock_loads:
  assumes i: "log_inv dev p u" and j: "j < length (icache u)"
    and q: "i_dev (icache u ! j) = dev" "1 \<le> i_ref (icache u ! j)" "\<not> i_valid (icache u ! j)"
    and free: "sl_locked (sleeplocks u (InodeSL j)) = 0"
  defines "d \<equiv> on_disk dev (sb u) u (i_inum (icache u ! j))"
  shows "d_type d = 0 \<Longrightarrow> ilock (Some j) w u = Panic ''ilock: no type''"
    "d_type d \<noteq> 0 \<Longrightarrow> \<exists>v. ilock (Some j) w u = Ret () v w \<and> log_inv dev p v \<and> view dev v = view dev u \<and> disk v = disk u \<and>
       icache v = (icache u)[j := loaded_inode d (icache u ! j)] \<and>
       sleeplocks v (InodeSL j) = taken_by (p_pid (procs u ! p)) (sleeplocks u (InodeSL j))"
proof -
  let ?q = "icache u ! j" and ?x = "IBLOCK (i_inum (icache u ! j)) (sb u)"
  let ?sl = "taken_by (p_pid (procs u ! p)) (sleeplocks u (InodeSL j))"
  define u1 where "u1 = u\<lparr>sleeplocks := (sleeplocks u)(InodeSL j := ?sl)\<rparr>"
  have s: "bio dev p Map.empty u" using i by (simp add: log_inv_def Let_def idle_def)
  then have qt: "quiet p u" by (simp add: bio_def)
  have a: "acquiresleep (InodeSL j) w u = Ret () u1 w"
    unfolding u1_def by (rule acquiresleep_free [OF quiet_runs [OF qt] free])
  have u1: "bio dev p Map.empty u1" "store dev u1 = store dev u" unfolding u1_def by (rule bio_inode_lock [OF s])+
  have i1: "log_inv dev p u1" by (rule log_inv_cong [OF i u1])
  have f1: "icache u1 = icache u" "sb u1 = sb u" "sleeplocks u1 (InodeSL j) = ?sl" by (simp_all add: u1_def)
  obtain b t where t: "bread dev ?x w u1 = Ret b t w" "bio dev p [?x \<mapsto> b] t" "store dev t = st_ref ?x (store dev u1)"
    "b_data (bcache t ! b) = view dev u1 ?x" "refs dev t ?x = 1 \<longrightarrow> view dev t ?x = disk t ?x" "fs_same u1 t"
    by (rule log_read [OF i1])
  have vu: "view dev u1 = view dev u" using storeD(1) [OF u1(2)] by simp
  have d: "dinode_of (b_data (bcache t ! b)) (dinode_off (i_inum ?q)) = d" by (simp add: d_def on_disk_def t(4) vu)
  define q1 where "q1 = ?q\<lparr>i_type := d_type d, i_major := d_major d, i_minor := d_minor d,
    i_nlink := d_nlink d, i_size := d_size d, i_addrs := d_addrs d\<rparr>"
  define t1 where "t1 = t\<lparr>icache := (icache u)[j := q1]\<rparr>"
  have ft: "icache t = icache u" "sleeplocks t (InodeSL j) = ?sl" using t(6) f1 by (simp_all add: fs_same_def)
  have bt1: "bio dev p [?x \<mapsto> b] t1" "store dev t1 = store dev t" using t(2) by (simp_all add: t1_def)
  have h: "[?x \<mapsto> b] ?x = Some b" by simp
  have c1: "refs dev t1 ?x = 1 \<Longrightarrow> view dev t1 ?x = disk t1 ?x" using t(5) storeD [OF bt1(2)] by simp
  obtain v where v: "brelse b w t1 = Ret () v w" "bio dev p Map.empty v" "store dev v = st_unref ?x (store dev t1)"
    by (rule brelse_to [OF bt1(1) h c1 single_drop(1)])
  have sv: "store dev v = store dev u" unfolding v(3) bt1(2) t(3) u1(2) by (simp add: st_unref_def st_ref_def)
  have fv: "icache v = (icache u)[j := q1]" "sleeplocks v (InodeSL j) = ?sl"
    using brelse_same [OF bt1(1) h v(1)] ft by (simp_all add: fs_same_def t1_def)
  define v1 where "v1 = v\<lparr>icache := (icache v)[j := (icache v ! j)\<lparr>i_valid := True\<rparr>]\<rparr>"
  have e: "ilock (Some j) w u = (if d_type d = 0 then Panic ''ilock: no type'' else Ret () v1 w)"
    using q a t(1) v(1) j f1 ft d
    by (simp add: ilock_def kbind_apply get_inode_apply kget_apply get_buf_apply upd_inode_def kmod_apply kret_apply
        kpanic_apply Let_def q1_def [symmetric] t1_def [symmetric] v1_def [symmetric])
  then show "d_type d = 0 \<Longrightarrow> ilock (Some j) w u = Panic ''ilock: no type''" by simp
  assume "d_type d \<noteq> 0"
  then have "ilock (Some j) w u = Ret () v1 w" using e by simp
  moreover have "log_inv dev p v1" by (rule log_inv_cong [OF i]) (use v(2) sv in \<open>simp_all add: v1_def\<close>)
  moreover have "view dev v1 = view dev u" "disk v1 = disk u"
    using storeD [of dev v1 "store dev u"] sv by (simp_all add: v1_def)
  moreover have "icache v1 = (icache u)[j := loaded_inode d ?q]" using j by (simp add: v1_def fv q1_def loaded_inode_def)
  moreover have "sleeplocks v1 (InodeSL j) = ?sl" by (simp add: v1_def fv)
  ultimately show "\<exists>v. ilock (Some j) w u = Ret () v w \<and> log_inv dev p v \<and> view dev v = view dev u \<and> disk v = disk u \<and>
       icache v = (icache u)[j := loaded_inode d ?q] \<and> sleeplocks v (InodeSL j) = ?sl" by blast
qed

section \<open>\<^verbatim>\<open>iupdate\<close>\<close>

lemma iupdate_stores:
  assumes i: "log_inv dev p s" and ip: "i_dev (icache s ! k) = dev" "length (i_addrs (icache s ! k)) = NDIRECT + 1"
    and x: "IBLOCK (i_inum (icache s ! k)) (sb s) \<notin> log_region (klog s)" "length (view dev s (IBLOCK (i_inum (icache s ! k)) (sb s))) = BSIZE"
    and l: "lh_n (log_lh (klog s)) < log_size (klog s) - 1" "log_size (klog s) \<le> int LOGSIZE" "1 \<le> log_outstanding (klog s)"
  obtains t where "iupdate k w s = Ret () t w" "log_inv dev p t" "disk t = disk s"
    "on_disk dev (sb s) t = (on_disk dev (sb s) s)(i_inum (icache s ! k) := dinode_of_inode (icache s ! k))"
    "\<forall>y. y \<noteq> IBLOCK (i_inum (icache s ! k)) (sb s) \<longrightarrow> view dev t y = view dev s y"
proof -
  let ?ip = "icache s ! k" and ?x = "IBLOCK (i_inum (icache s ! k)) (sb s)" and ?o = "dinode_off (i_inum (icache s ! k))"
  let ?f = "\<lambda>bs. put_dinode bs ?o (dinode_of_inode ?ip)"
  obtain b t1 t2 t3 t where t: "bread dev ?x w s = Ret b t1 w" "upd_buf b (\<lambda>r. r\<lparr>b_data := ?f (b_data r)\<rparr>) w t1 = Ret () t2 w"
    "log_write b w t2 = Ret () t3 w" "brelse b w t3 = Ret () t w" "log_inv dev p t"
    and v: "view dev t = (view dev s)(?x := ?f (view dev s ?x))" and d: "disk t = disk s"
    using log_update [OF i x(1) l, of w ?f] by blast
  have "iupdate k w s = Ret () t w"
    using t(1-4) ip(1) by (simp add: iupdate_def kbind_apply get_inode_apply kget_apply kret_apply)
  moreover have "length (d_addrs (dinode_of_inode ?ip)) = NDIRECT + 1" using ip(2) by (simp add: dinode_of_inode_def)
  note r = dinode_stored [OF _ this]
  have o: "?o + 64 \<le> length (view dev s ?x)" using dinode_off_bound x(2) by simp
  have "on_disk dev (sb s) t = (on_disk dev (sb s) s)(i_inum ?ip := dinode_of_inode ?ip)"
  proof
    fix n
    show "on_disk dev (sb s) t n = ((on_disk dev (sb s) s)(i_inum ?ip := dinode_of_inode ?ip)) n"
    proof (cases "IBLOCK n (sb s) = ?x \<and> n \<noteq> i_inum ?ip")
      case True
      then have "?o + 64 \<le> dinode_off n \<or> dinode_off n + 64 \<le> ?o" using inode_place [of n "i_inum ?ip" "sb s"] by auto
      then show ?thesis using True r(3) [OF o] by (auto simp: on_disk_def v)
    next
      case False
      then show ?thesis using r(1) [OF o] by (auto simp: on_disk_def v)
    qed
  qed
  ultimately show thesis using that t(5) d v by simp
qed

section \<open>Property\<close>

text \<open>
  C27. What \<^verbatim>\<open>iupdate\<close> stores, \<^verbatim>\<open>ilock\<close> loads. In a transaction with room in the log, \<^verbatim>\<open>iupdate\<close> of an inode in
  memory returns, changes the inode of that number on disk as readers see it to the fields in memory, and
  changes no other inode and no other block. A later \<^verbatim>\<open>ilock\<close> of an entry for that number that is not valid
  takes its lock, loads exactly these fields into the entry and no other, and marks it valid, or panics if
  the type is 0.
\<close>

theorem inode_roundtrip:
  assumes "log_inv dev p s" "i_dev (icache s ! k) = dev" "length (i_addrs (icache s ! k)) = NDIRECT + 1"
    and "IBLOCK (i_inum (icache s ! k)) (sb s) \<notin> log_region (klog s)" "length (view dev s (IBLOCK (i_inum (icache s ! k)) (sb s))) = BSIZE"
    and "lh_n (log_lh (klog s)) < log_size (klog s) - 1" "log_size (klog s) \<le> int LOGSIZE" "1 \<le> log_outstanding (klog s)"
  defines "ip \<equiv> icache s ! k"
  shows "\<exists>t. iupdate k w s = Ret () t w \<and> log_inv dev p t \<and> disk t = disk s \<and>
    (\<forall>y. y \<noteq> IBLOCK (i_inum ip) (sb s) \<longrightarrow> view dev t y = view dev s y) \<and>
    (\<forall>n. n \<noteq> i_inum ip \<longrightarrow> on_disk dev (sb s) t n = on_disk dev (sb s) s n) \<and>
    (\<forall>u j q. log_inv dev p u \<and> view dev u = view dev t \<and> sb u = sb s \<and> j < length (icache u) \<and> q = icache u ! j \<and>
        i_dev q = dev \<and> i_inum q = i_inum ip \<and> 1 \<le> i_ref q \<and> \<not> i_valid q \<and> sl_locked (sleeplocks u (InodeSL j)) = 0 \<longrightarrow>
      (i_type ip = 0 \<longrightarrow> ilock (Some j) w u = Panic ''ilock: no type'') \<and>
      (i_type ip \<noteq> 0 \<longrightarrow>
        (\<exists>v. ilock (Some j) w u = Ret () v w \<and> log_inv dev p v \<and> view dev v = view dev u \<and> disk v = disk u \<and>
           icache v = (icache u)[j := q\<lparr>i_type := i_type ip, i_major := i_major ip, i_minor := i_minor ip, i_nlink := i_nlink ip,
             i_size := i_size ip, i_addrs := i_addrs ip, i_valid := True\<rparr>] \<and>
           sl_locked (sleeplocks v (InodeSL j)) \<noteq> 0 \<and> sl_pid (sleeplocks v (InodeSL j)) = p_pid (procs u ! p))))"
proof -
  obtain t where t: "iupdate k w s = Ret () t w" "log_inv dev p t" "disk t = disk s"
    "on_disk dev (sb s) t = (on_disk dev (sb s) s)(i_inum (icache s ! k) := dinode_of_inode (icache s ! k))"
    "\<forall>y. y \<noteq> IBLOCK (i_inum (icache s ! k)) (sb s) \<longrightarrow> view dev t y = view dev s y"
    by (rule iupdate_stores [OF assms(1-8)])
  have on: "on_disk dev (sb s) u n = on_disk dev (sb s) t n" if "view dev u = view dev t" for u n
    using that by (simp add: on_disk_def)
  have ld: "loaded_inode (dinode_of_inode ip) q = q\<lparr>i_type := i_type ip, i_major := i_major ip, i_minor := i_minor ip,
      i_nlink := i_nlink ip, i_size := i_size ip, i_addrs := i_addrs ip, i_valid := True\<rparr>" "d_type (dinode_of_inode ip) = i_type ip" for q
    by (simp_all add: loaded_inode_def dinode_of_inode_def)
  show ?thesis
  proof (rule exI [of _ t], intro conjI allI impI, goal_cases)
    case (6 u j q)
    then have "on_disk dev (sb u) u (i_inum (icache u ! j)) = dinode_of_inode ip" using on [of u] t(4) by (auto simp: ip_def)
    then show ?case using ilock_loads(1) [of dev p u j w] 6 ld(2) by auto
  next
    case (7 u j q)
    then have d: "on_disk dev (sb u) u (i_inum (icache u ! j)) = dinode_of_inode ip" using on [of u] t(4) by (auto simp: ip_def)
    have "\<exists>v. ilock (Some j) w u = Ret () v w \<and> log_inv dev p v \<and> view dev v = view dev u \<and> disk v = disk u \<and>
       icache v = (icache u)[j := loaded_inode (dinode_of_inode ip) (icache u ! j)] \<and>
       sleeplocks v (InodeSL j) = taken_by (p_pid (procs u ! p)) (sleeplocks u (InodeSL j))"
      by (rule ilock_loads(2) [of dev p u j w, unfolded d]) (use 7 ld(2) in auto)
    then show ?case using 7 unfolding ld(1) by (auto simp: taken_by_def)
  qed (use t ip_def in auto)
qed

lemma log_inv_fs: "log_inv dev p s \<Longrightarrow> log_inv dev p (s\<lparr>icache := c, sb := b, sleeplocks := (sleeplocks s)(InodeSL j := l)\<rparr>)"
proof (rule log_inv_cong)
  let ?t = "s\<lparr>icache := c, sb := b, sleeplocks := (sleeplocks s)(InodeSL j := l)\<rparr>"
  assume "log_inv dev p s"
  then have s: "bio dev p Map.empty s" by (simp add: log_inv_def Let_def idle_def)
  have "cached dev ?t = cached dev s" "cache_ok dev ?t = cache_ok dev s" by (rule store_cong; simp)+
  then show "bio dev p Map.empty ?t" using s by (simp add: bio_def bheld_def quiet_def)
  show "store dev ?t = store dev s" by (rule store_cong(5)) simp_all
qed assumption

theorem inode_roundtrip_witness:
  "\<exists>s t u v. iupdate 0 [] s = Ret () t [] \<and> view 1 u = view 1 t \<and> \<not> i_valid (icache u ! 1) \<and>
     ilock (Some 1) [] u = Ret () v [] \<and> i_valid (icache v ! 1) \<and> i_size (icache v ! 1) = 70000 \<and> i_type (icache v ! 1) = 2"
proof -
  let ?a = "\<lparr>i_dev = 1, i_inum = 130, i_ref = 1, i_valid = True, i_type = 2, i_major = 0, i_minor = 0, i_nlink = 1,
    i_size = 70000, i_addrs = replicate 13 500\<rparr>"
  let ?b = "\<lparr>i_dev = 1, i_inum = 130, i_ref = 1, i_valid = False, i_type = 0, i_major = 0, i_minor = 0, i_nlink = 0,
    i_size = 0, i_addrs = []\<rparr>"
  let ?sl = "\<lparr>sl_locked = 0, sl_name = [], sl_pid = 0\<rparr>"
  obtain r where r: "log_inv 1 0 r" "log_outstanding (klog r) = 1" "lh_n (log_lh (klog r)) = 0" "log_size (klog r) = 30" "log_start (klog r) = 2"
    by (rule ready0)
  have "lh_n (log_lh (klog r)) < log_size (klog r) - 1" "log_size (klog r) \<le> int LOGSIZE" "1 \<le> log_outstanding (klog r)"
    using r by (simp_all add: LOGSIZE_def MAXOPBLOCKS_def)
  from log_update [OF r(1) not_in_log [OF r(5)] this, of "[]" "\<lambda>_. replicate BSIZE 0"]
  obtain q where q: "log_inv 1 0 q" "view 1 q 40 = replicate BSIZE 0" "klog q = log_add 40 (klog r)" by auto
  have n: "0 \<le> lh_n (log_lh (klog r))" "nat (lh_n (log_lh (klog r))) < length (lh_block (log_lh (klog r)))"
    using r(1,3) by (simp_all add: log_inv_def Let_def LOGSIZE_def MAXOPBLOCKS_def)
  have k: "lh_n (log_lh (klog q)) = 1" "log_outstanding (klog q) = 1" "log_size (klog q) = 30" "log_start (klog q) = 2"
    unfolding q(3) using log_add_new(1) [OF _ n, of 40] r by simp_all
  define s where "s = q\<lparr>icache := [?a, ?b], sb := sb2\<lparr>sb_inodestart := 32\<rparr>, sleeplocks := (sleeplocks q)(InodeSL 1 := ?sl)\<rparr>"
  have s: "log_inv 1 0 s" unfolding s_def by (rule log_inv_fs [OF q(1)])
  have v: "view 1 s = view 1 q" unfolding s_def by (rule store_cong) simp_all
  have sk: "klog s = klog q" "icache s = [?a, ?b]" "sb_inodestart (sb s) = 32" by (simp_all add: s_def)
  have x: "IBLOCK 130 (sb s) = 40" by (simp add: IBLOCK_def IPB_def sk)
  have nl: "40 \<notin> log_region (klog q)" using not_in_log [OF k(4)] .
  let ?ip = "icache s ! 0"
  have "i_dev ?ip = 1" "length (i_addrs ?ip) = NDIRECT + 1" "IBLOCK (i_inum ?ip) (sb s) \<notin> log_region (klog s)"
    "length (view 1 s (IBLOCK (i_inum ?ip) (sb s))) = BSIZE" "lh_n (log_lh (klog s)) < log_size (klog s) - 1"
    "log_size (klog s) \<le> int LOGSIZE" "1 \<le> log_outstanding (klog s)"
    using v x nl k q(2) by (simp_all add: sk NDIRECT_def LOGSIZE_def MAXOPBLOCKS_def)
  note rt = inode_roundtrip [OF s this, of "[]"]
  obtain t where t: "iupdate 0 [] s = Ret () t []" "log_inv 1 0 t"
    and l: "\<forall>u j q. log_inv 1 0 u \<and> view 1 u = view 1 t \<and> sb u = sb s \<and> j < length (icache u) \<and> q = icache u ! j \<and>
        i_dev q = 1 \<and> i_inum q = i_inum ?ip \<and> 1 \<le> i_ref q \<and> \<not> i_valid q \<and> sl_locked (sleeplocks u (InodeSL j)) = 0 \<longrightarrow>
      (i_type ?ip = 0 \<longrightarrow> ilock (Some j) [] u = Panic ''ilock: no type'') \<and>
      (i_type ?ip \<noteq> 0 \<longrightarrow>
        (\<exists>v. ilock (Some j) [] u = Ret () v [] \<and> log_inv 1 0 v \<and> view 1 v = view 1 u \<and> disk v = disk u \<and>
           icache v = (icache u)[j := q\<lparr>i_type := i_type ?ip, i_major := i_major ?ip, i_minor := i_minor ?ip, i_nlink := i_nlink ?ip,
             i_size := i_size ?ip, i_addrs := i_addrs ?ip, i_valid := True\<rparr>] \<and>
           sl_locked (sleeplocks v (InodeSL j)) \<noteq> 0 \<and> sl_pid (sleeplocks v (InodeSL j)) = p_pid (procs u ! 0)))"
    using rt by (elim exE conjE) (rule that)
  define u where "u = t\<lparr>icache := [?a, ?b], sb := sb s, sleeplocks := (sleeplocks t)(InodeSL 1 := ?sl)\<rparr>"
  have u: "log_inv 1 0 u" unfolding u_def by (rule log_inv_fs [OF t(2)])
  have vu: "view 1 u = view 1 t" unfolding u_def by (rule store_cong) simp_all
  have "\<exists>v. ilock (Some 1) [] u = Ret () v [] \<and> icache v = (icache u)[1 := ?b\<lparr>i_type := i_type ?ip, i_major := i_major ?ip,
      i_minor := i_minor ?ip, i_nlink := i_nlink ?ip, i_size := i_size ?ip, i_addrs := i_addrs ?ip, i_valid := True\<rparr>]"
    using l [THEN spec [of _ u], THEN spec [of _ 1], THEN spec [of _ ?b]] u vu by (auto simp: u_def sk)
  then obtain v where "ilock (Some 1) [] u = Ret () v []" "icache v ! 1 = ?b\<lparr>i_type := i_type ?ip, i_major := i_major ?ip,
      i_minor := i_minor ?ip, i_nlink := i_nlink ?ip, i_size := i_size ?ip, i_addrs := i_addrs ?ip, i_valid := True\<rparr>"
    by (auto simp: u_def)
  then show ?thesis using t(1) vu by (intro exI [of _ s] exI [of _ t] exI [of _ u] exI [of _ v]) (simp add: u_def sk)
qed

end
