(* ===== verification/Printint.thy ===== *)
theory Printint
  imports Printf
begin

text \<open>
  The numbers that \<^verbatim>\<open>printint()\<close> of \<^verbatim>\<open>kernel/printf.c\<close> prints: the digits it stores are those of its
  argument, and they fit in its buffer.
\<close>

section \<open>Digits\<close>

definition value_of :: "nat \<Rightarrow> nat list \<Rightarrow> nat" where
  "value_of base ds = foldr (\<lambda>d a. d + base * a) ds 0"

lemma digit_loop_value:
  assumes "2 \<le> base"
  shows "0 < n \<Longrightarrow> x < base ^ n \<Longrightarrow> n \<le> fuel \<Longrightarrow>
    \<exists>ds. digit_loop fuel base x = map ((!) digits) ds \<and> (\<forall>d \<in> set ds. d < base) \<and>
      value_of base ds = x \<and> ds \<noteq> [] \<and> (x \<noteq> 0 \<longrightarrow> last ds \<noteq> 0) \<and> (x = 0 \<longrightarrow> ds = [0]) \<and> length ds \<le> n"
proof (induction n arbitrary: x fuel)
  case 0
  then show ?case by simp
next
  case (Suc n)
  then obtain f where f: "fuel = Suc f" by (cases fuel) auto
  show ?case
  proof (cases "x div base = 0")
    case True
    then have "x < base" using assms by (simp add: div_eq_0_iff)
    then show ?thesis using f True by (intro exI [of _ "[x]"]) (simp add: value_of_def)
  next
    case False
    have lt: "x div base < base ^ n" using Suc.prems(2) assms by (simp add: less_mult_imp_div_less mult.commute)
    then have "0 < n" using False by (cases n) auto
    then obtain ds where ds: "digit_loop f base (x div base) = map ((!) digits) ds" "\<forall>d \<in> set ds. d < base"
      "value_of base ds = x div base" "ds \<noteq> []" "last ds \<noteq> 0" "length ds \<le> n"
      using Suc.IH [of "x div base" f] lt Suc.prems(3) f False by auto
    have "x mod base < base" using assms by simp
    moreover have "x \<noteq> 0" using False by (cases "x = 0") auto
    ultimately show ?thesis
      using ds f False by (intro exI [of _ "x mod base # ds"]) (simp add: value_of_def)
  qed
qed

text \<open>
  C23. For a base from 10 to 16 and an \<^verbatim>\<open>int\<close> argument other than the least one in a signed call,
  \<^verbatim>\<open>printint\<close> stores the digits of the number, lowest first and without leading zeros, and then the sign:
  of the absolute value if the call is signed, and of the number modulo \<open>2 ^ 32\<close> otherwise. It stores at
  most 11 characters, so it stays within its buffer of 16. A signed call with the least \<^verbatim>\<open>int\<close> is
  undefined, since its negation is no \<^verbatim>\<open>int\<close>.
\<close>

theorem printint_digits:
  assumes "10 \<le> base" "base \<le> 16" "- (2 ^ 31) \<le> xx" "xx < 2 ^ 31"
  shows "(sign \<and> xx = - (2 ^ 31) \<longrightarrow> printint_buf xx base sign = None) \<and>
    (\<not> (sign \<and> xx = - (2 ^ 31)) \<longrightarrow>
      (\<exists>ds. printint_buf xx base sign = Some (map ((!) digits) ds @ (if sign \<and> xx < 0 then [chr CHR ''-''] else [])) \<and>
        (\<forall>d \<in> set ds. d < base) \<and> ds \<noteq> [] \<and> (ds = [0] \<or> last ds \<noteq> 0) \<and> length ds \<le> 10 \<and>
        int (value_of base ds) = (if sign then \<bar>xx\<bar> else xx mod 2 ^ 32)))"
proof (intro conjI impI)
  show "printint_buf xx base sign = None" if "sign \<and> xx = - (2 ^ 31)"
    using that by (simp add: printint_buf_def)
  assume ok: "\<not> (sign \<and> xx = - (2 ^ 31))"
  define x :: uint where "x = (if sign \<and> xx < 0 then of_int (- xx) else of_int xx)"
  have x: "int (unat x) = (if sign then \<bar>xx\<bar> else xx mod 2 ^ 32)"
    using assms(3,4) by (auto simp: x_def uint_word_of_int simp del: of_int_minus)
  have "unat x < 2 ^ 32" by (rule unat_32_bound)
  also have "(2 :: nat) ^ 32 \<le> 10 ^ 10" by simp
  also have "(10 :: nat) ^ 10 \<le> base ^ 10" using assms(1) by (rule power_mono) simp
  finally obtain ds where ds: "digit_loop 32 base (unat x) = map ((!) digits) ds" "\<forall>d \<in> set ds. d < base"
    "value_of base ds = unat x" "ds \<noteq> []" "unat x \<noteq> 0 \<longrightarrow> last ds \<noteq> 0" "unat x = 0 \<longrightarrow> ds = [0]" "length ds \<le> 10"
    using digit_loop_value [of base 10 "unat x" 32] assms(1) by auto
  let ?buf = "map ((!) digits) ds @ (if sign \<and> xx < 0 then [chr CHR ''-''] else [])"
  have "length ?buf \<le> 16" using ds(7) by simp
  moreover have "\<not> (sign \<and> xx < 0 \<and> 2 ^ 31 \<le> - xx)" using ok assms(3) by auto
  ultimately have "printint_buf xx base sign = Some ?buf"
    unfolding printint_buf_def Let_def x_def [symmetric] ds(1) by (simp only: not_less [symmetric] conj_assoc if_False)
  then show "\<exists>ds. printint_buf xx base sign = Some (map ((!) digits) ds @ (if sign \<and> xx < 0 then [chr CHR ''-''] else [])) \<and>
      (\<forall>d \<in> set ds. d < base) \<and> ds \<noteq> [] \<and> (ds = [0] \<or> last ds \<noteq> 0) \<and> length ds \<le> 10 \<and>
      int (value_of base ds) = (if sign then \<bar>xx\<bar> else xx mod 2 ^ 32)"
    using ds x by (intro exI [of _ ds]) auto
qed

lemma digit_loop_numeral:
  "digit_loop (numeral k) base x =
     digits ! (x mod base) # (if x div base \<noteq> 0 then digit_loop (pred_numeral k) base (x div base) else [])"
  by (simp add: numeral_eq_Suc)

theorem printint_digits_witness:
  "\<exists>buf. printint_buf (- 2147483647) 10 True = Some buf \<and> rev buf = bytes_of ''-2147483647'' \<and>
     printint_buf (- 2147483648) 10 True = None"
proof -
  obtain buf where buf: "printint_buf (- 2147483647) 10 True = Some buf"
    using printint_digits [of 10 "- 2147483647" True] by auto
  then have "rev buf = bytes_of ''-2147483647''"
    by (simp add: printint_buf_def digit_loop_numeral digits_def bytes_of_def)
  with buf printint_digits [of 10 "- 2147483648" True] show ?thesis by simp
qed

end
