(* ===== verification/Ulib.thy ===== *)
theory Ulib
  imports Printint Strings
begin

text \<open>
  Routines of the user library: \<^verbatim>\<open>user/ulib.c\<close> and \<^verbatim>\<open>user/printf.c\<close>. Their names have a \<open>u\<close> in front, since
  the kernel has routines of the same names. A C string is the list of its bytes before the zero; what
  is printed is the list of bytes that \<^verbatim>\<open>putc\<close> writes, in order. An \<^verbatim>\<open>int\<close> is an integer; where the C
  code would leave the range of \<^verbatim>\<open>int\<close>, which is undefined, the result is \<^const>\<open>None\<close>.
\<close>

unbundle bit_operations_syntax

section \<open>\<^verbatim>\<open>ulib.c\<close>\<close>

primrec ustrcmp :: "byte list \<Rightarrow> byte list \<Rightarrow> int" where
  "ustrcmp [] q = 0 - (case q of [] \<Rightarrow> 0 | d # _ \<Rightarrow> uint d)"
| "ustrcmp (c # p) q =
     (case q of [] \<Rightarrow> uint c | d # q' \<Rightarrow> if c = d then ustrcmp p q' else uint c - uint d)"

primrec umemset :: "memory \<Rightarrow> addr \<Rightarrow> byte \<Rightarrow> nat \<Rightarrow> memory" where
  "umemset m dst c 0 = m"
| "umemset m dst c (Suc n) = (umemset m dst c n)(dst + of_nat n := c)"

text \<open>\<^verbatim>\<open>gets\<close> on the bytes that the reads will yield, one each; a read that yields none ends the loop.\<close>

primrec ugets_loop :: "byte list \<Rightarrow> nat \<Rightarrow> nat \<Rightarrow> byte list" where
  "ugets_loop [] i mx = []"
| "ugets_loop (c # input) i mx =
     (if i + 1 < mx then c # (if c = 10 \<or> c = 13 then [] else ugets_loop input (i + 1) mx) else [])"

definition ugets :: "byte list \<Rightarrow> nat \<Rightarrow> byte list" where
  "ugets input mx = ugets_loop input 0 mx @ [0]"

text \<open>\<^verbatim>\<open>atoi\<close> adds the character before it subtracts \<^verbatim>\<open>'0'\<close>. A sum that is no \<^verbatim>\<open>int\<close> is undefined.\<close>

primrec uatoi_loop :: "int \<Rightarrow> byte list \<Rightarrow> int option" where
  "uatoi_loop n [] = Some n"
| "uatoi_loop n (c # s) =
     (if chr CHR ''0'' \<le> c \<and> c \<le> chr CHR ''9''
      then if 2 ^ 31 \<le> n * 10 + uint c then None
           else uatoi_loop (n * 10 + uint c - uint (chr CHR ''0'')) s
      else Some n)"

definition uatoi :: "byte list \<Rightarrow> int option" where
  "uatoi s = uatoi_loop 0 s"

definition umemmove :: "memory \<Rightarrow> addr \<Rightarrow> addr \<Rightarrow> int \<Rightarrow> memory" where
  "umemmove m dst src n =
     (if src > dst then copy_up m dst src (nat n)
      else copy_down m (dst + of_int n) (src + of_int n) (nat n))"

primrec umemcmp :: "memory \<Rightarrow> addr \<Rightarrow> addr \<Rightarrow> nat \<Rightarrow> int" where
  "umemcmp m p1 p2 0 = 0"
| "umemcmp m p1 p2 (Suc n) =
     (if m p1 \<noteq> m p2 then uint (m p1) - uint (m p2) else umemcmp m (p1 + 1) (p2 + 1) n)"

definition umemcpy :: "memory \<Rightarrow> addr \<Rightarrow> addr \<Rightarrow> int \<Rightarrow> memory" where
  "umemcpy m dst src n = umemmove m dst src n"

section \<open>\<^verbatim>\<open>printf.c\<close>\<close>

definition udigits :: "byte list" where
  "udigits = bytes_of ''0123456789ABCDEF''"

primrec udigit_loop :: "nat \<Rightarrow> nat \<Rightarrow> nat \<Rightarrow> byte list" where
  "udigit_loop 0 base x = []"
| "udigit_loop (Suc fuel) base x =
     udigits ! (x mod base) # (if x div base \<noteq> 0 then udigit_loop fuel base (x div base) else [])"

text \<open>
  The negation of the least \<^verbatim>\<open>int\<close> is undefined, and so is a store past the 16 bytes of \<^verbatim>\<open>buf\<close>.
\<close>

definition uprintint :: "int \<Rightarrow> nat \<Rightarrow> bool \<Rightarrow> byte list option" where
  "uprintint xx base sign =
     (let neg = (sign \<and> xx < 0);
          x = (if neg then of_int (- xx) else of_int xx) :: uint;
          buf = udigit_loop 32 base (unat x) @ (if neg then [chr CHR ''-''] else [])
      in if neg \<and> 2 ^ 31 \<le> - xx then None
         else if 16 < length buf then None
         else Some (rev buf))"

definition uprintptr :: "uint64 \<Rightarrow> byte list" where
  "uprintptr x = bytes_of ''0x'' @ map (\<lambda>i. udigits ! unat (drop_bit 60 (push_bit (4 * i) x))) [0..<16]"

text \<open>The argument of \<^verbatim>\<open>%l\<close> is cut to the \<^verbatim>\<open>int\<close> that \<^verbatim>\<open>printint\<close> takes.\<close>

definition then_put :: "byte list option \<Rightarrow> byte list option \<Rightarrow> byte list option" where
  "then_put out rest = Option.bind out (\<lambda>bs. map_option (append bs) rest)"

fun uvprintf :: "byte list \<Rightarrow> vararg list \<Rightarrow> byte list option" where
  "uvprintf [] ap = Some []"
| "uvprintf [c] ap = (if c = chr CHR ''%'' then Some [] else Some [c])"
| "uvprintf (c # d # fmt) ap =
     (if c \<noteq> chr CHR ''%'' then map_option (Cons c) (uvprintf (d # fmt) ap)
      else if d = chr CHR ''d'' then
        (case ap of VInt x # ap' \<Rightarrow> then_put (uprintint x 10 True) (uvprintf fmt ap') | _ \<Rightarrow> None)
      else if d = chr CHR ''l'' then
        (case ap of VPtr x # ap' \<Rightarrow>
           then_put (uprintint (sint (ucast x :: uint)) 10 False) (uvprintf fmt ap') | _ \<Rightarrow> None)
      else if d = chr CHR ''x'' then
        (case ap of VInt x # ap' \<Rightarrow> then_put (uprintint x 16 False) (uvprintf fmt ap') | _ \<Rightarrow> None)
      else if d = chr CHR ''p'' then
        (case ap of VPtr x # ap' \<Rightarrow> map_option (append (uprintptr x)) (uvprintf fmt ap') | _ \<Rightarrow> None)
      else if d = chr CHR ''s'' then
        (case ap of VStr x # ap' \<Rightarrow>
           map_option (append (case x of None \<Rightarrow> bytes_of ''(null)'' | Some s \<Rightarrow> cstring s)) (uvprintf fmt ap')
         | _ \<Rightarrow> None)
      else if d = chr CHR ''c'' then
        (case ap of VInt x # ap' \<Rightarrow> map_option (Cons (of_int x)) (uvprintf fmt ap') | _ \<Rightarrow> None)
      else if d = chr CHR ''%'' then map_option (Cons d) (uvprintf fmt ap)
      else map_option (append [chr CHR ''%'', d]) (uvprintf fmt ap))"

section \<open>Numbers\<close>

primrec digit_values :: "nat \<Rightarrow> nat \<Rightarrow> nat \<Rightarrow> nat list" where
  "digit_values 0 base x = []"
| "digit_values (Suc fuel) base x =
     x mod base # (if x div base \<noteq> 0 then digit_values fuel base (x div base) else [])"

lemma udigit_loop_values: "udigit_loop fuel base x = map ((!) udigits) (digit_values fuel base x)"
  by (induction fuel arbitrary: x) simp_all

lemma digit_values_value:
  "2 \<le> base \<Longrightarrow> x < base ^ fuel \<Longrightarrow>
   value_of base (digit_values fuel base x) = x \<and> (\<forall>d \<in> set (digit_values fuel base x). d < base)"
proof (induction fuel arbitrary: x)
  case (Suc fuel)
  then have "x div base < base ^ fuel" by (simp add: less_mult_imp_div_less mult.commute)
  then have ih: "value_of base (digit_values fuel base (x div base)) = x div base"
    "\<forall>d \<in> set (digit_values fuel base (x div base)). d < base"
    using Suc.IH [OF Suc.prems(1)] by blast+
  have m: "x mod base < base" using Suc.prems(1) by simp
  show ?case
  proof (cases "x div base = 0")
    case True
    then have "x < base" using Suc.prems(1) by (simp add: div_eq_0_iff)
    then show ?thesis using True by (simp add: value_of_def)
  next
    case False
    have "value_of base (digit_values (Suc fuel) base x) = x mod base + base * (x div base)"
      using False ih(1) by (simp add: value_of_def)
    then show ?thesis using False ih(2) m by simp
  qed
qed (simp add: value_of_def)

lemma udigit_char:
  assumes "d < 10"
  shows "chr CHR ''0'' \<le> udigits ! d \<and> udigits ! d \<le> chr CHR ''9'' \<and> uint (udigits ! d) - uint (chr CHR ''0'') = int d"
proof -
  have "d \<in> {0, 1, 2, 3, 4, 5, 6, 7, 8, 9}" using assms by auto
  then show ?thesis by (auto simp: udigits_def bytes_of_def chr_def)
qed

lemma uatoi_loop_digit:
  "d < 10 \<Longrightarrow> uatoi_loop n (udigits ! d # s) =
     (if 2 ^ 31 \<le> n * 10 + int d + 48 then None else uatoi_loop (n * 10 + int d) s)"
proof -
  assume d: "d < 10"
  have z: "uint (chr CHR ''0'') = 48" by (simp add: chr_def)
  have u: "uint (udigits ! d) = int d + 48" using udigit_char [OF d] z by simp
  show ?thesis using udigit_char [OF d] unfolding uatoi_loop.simps u z by (simp add: add.assoc)
qed

lemma uatoi_loop_digits:
  "\<forall>d \<in> set ds. d < 10 \<Longrightarrow> n * 10 ^ length ds + int (value_of 10 ds) + 48 < 2 ^ 31 \<Longrightarrow> 0 \<le> n \<Longrightarrow>
   uatoi_loop n (map ((!) udigits) (rev ds) @ s) = uatoi_loop (n * 10 ^ length ds + int (value_of 10 ds)) s"
proof (induction ds arbitrary: n s)
  case (Cons d ds)
  let ?m = "n * 10 ^ length ds + int (value_of 10 ds)"
  have v: "n * 10 ^ length (d # ds) + int (value_of 10 (d # ds)) = ?m * 10 + int d" by (simp add: value_of_def algebra_simps)
  have m: "0 \<le> ?m" using Cons.prems(3) by simp
  then have "?m + 48 < 2 ^ 31" using Cons.prems(2) unfolding v by simp
  then have "uatoi_loop n (map ((!) udigits) (rev (d # ds)) @ s) = uatoi_loop ?m (udigits ! d # s)"
    using Cons.IH [of n "udigits ! d # s"] Cons.prems by simp
  also have "\<dots> = uatoi_loop (?m * 10 + int d) s"
    using Cons.prems unfolding v by (subst uatoi_loop_digit) simp_all
  finally show ?case unfolding v .
qed (simp add: value_of_def)

lemma length_digit_values: "x < base ^ n \<Longrightarrow> 0 < n \<Longrightarrow> 2 \<le> base \<Longrightarrow> length (digit_values fuel base x) \<le> n"
proof (induction fuel arbitrary: x n)
  case (Suc fuel)
  show ?case
  proof (cases "x div base = 0")
    case False
    then have m: "1 < n" using Suc.prems by (cases n) (auto simp: div_eq_0_iff intro: gr0I)
    have "x div base < base ^ (n - 1)" using Suc.prems m
      by (cases n) (simp_all add: less_mult_imp_div_less mult.commute)
    then have "length (digit_values fuel base (x div base)) \<le> n - 1" using Suc.IH Suc.prems m by simp
    then show ?thesis using False m by simp
  qed (use Suc.prems in simp)
qed simp

text \<open>
  C29. \<^verbatim>\<open>atoi\<close> reads what \<^verbatim>\<open>printf\<close> prints for \<^verbatim>\<open>%d\<close>: for every number from 0 to 2147483599, the number
  itself, whatever follows that does not start with a digit. From 2147483600 on, \<^verbatim>\<open>printf\<close> still prints
  the number, and \<^verbatim>\<open>atoi\<close> leaves the range of \<^verbatim>\<open>int\<close> when it adds the last character.
\<close>

theorem atoi_printint:
  assumes "0 \<le> xx" "xx < 2 ^ 31"
    and "s = [] \<or> hd s < chr CHR ''0'' \<or> chr CHR ''9'' < hd s"
  shows "\<exists>out. uprintint xx 10 True = Some out \<and>
    uatoi (out @ s) = (if xx \<le> 2147483599 then Some xx else None)"
proof -
  define x where "x = unat (of_int xx :: uint)"
  define ds where "ds = digit_values 32 10 x"
  have x: "int x = xx" using assms(1,2) by (simp add: x_def uint_word_of_int)
  have lt: "x < 2 ^ 32" unfolding x_def by (rule unat_32_bound)
  have v: "value_of 10 ds = x" "\<forall>d \<in> set ds. d < 10"
    using digit_values_value [of 10 x 32] lt unfolding ds_def by simp_all
  have "length ds \<le> 10" unfolding ds_def by (rule length_digit_values) (use lt in simp_all)
  then have p: "uprintint xx 10 True = Some (map ((!) udigits) (rev ds))"
    using assms(1) unfolding uprintint_def Let_def udigit_loop_values by (simp add: rev_map x_def [symmetric] ds_def [symmetric])
  have e: "uatoi_loop n s = Some n" for n using assms(3) by (cases s) auto
  have "uatoi (map ((!) udigits) (rev ds) @ s) = (if xx \<le> 2147483599 then Some xx else None)"
  proof (cases "xx \<le> 2147483599")
    case True
    then have "uatoi (map ((!) udigits) (rev ds) @ s) = uatoi_loop xx s"
      unfolding uatoi_def using uatoi_loop_digits [OF v(2), of 0 s] v(1) x by simp
    then show ?thesis using True e by simp
  next
    case False
    then obtain d ds' where ds: "ds = d # ds'" using v(1) x by (cases ds) (auto simp: value_of_def)
    have m: "xx = int (value_of 10 ds') * 10 + int d" "d < 10" "\<forall>d \<in> set ds'. d < 10"
      using v x unfolding ds by (auto simp: value_of_def)
    have "uatoi (map ((!) udigits) (rev ds) @ s) = uatoi_loop (int (value_of 10 ds')) (udigits ! d # s)"
      unfolding uatoi_def ds using uatoi_loop_digits [OF m(3), of 0 "udigits ! d # s"] m(1) assms(2) by simp
    also have "\<dots> = None" using False m(1) by (subst uatoi_loop_digit [OF m(2)]) simp
    finally show ?thesis using False by simp
  qed
  then show ?thesis using p by blast
qed

theorem atoi_printint_witness:
  "\<exists>out out'. uprintint 2147483599 10 True = Some out \<and> uatoi (out @ [chr CHR '' '']) = Some 2147483599 \<and>
     uprintint 2147483600 10 True = Some out' \<and> uatoi out' = None"
  using atoi_printint [of 2147483599 "[chr CHR '' '']"] atoi_printint [of 2147483600 "[]"] by (simp add: chr_def)

text \<open>\<^verbatim>\<open>%l\<close> prints only the low 32 bits of its 64-bit argument.\<close>

lemma printf_l_truncates: "uvprintf (bytes_of ''%l'') [VPtr (2 ^ 32 + 7)] = uvprintf (bytes_of ''%l'') [VPtr 7]"
  by (simp add: bytes_of_def chr_def)

section \<open>Memory and strings\<close>

text \<open>
  C30. The library's \<^verbatim>\<open>memmove\<close> copies the bytes that the source held before the call, whatever the
  overlap, and changes nothing else, as long as neither range runs past the end of the address space.
\<close>

theorem umemmove_copies:
  assumes "0 \<le> n" "unat src + nat n < 2 ^ 64" "unat dst + nat n < 2 ^ 64"
  shows "umemmove m dst src n = writebytes m dst (readbytes m src (nat n))"
proof -
  have at: "unat (a + of_nat i) = unat a + i" if "i \<le> nat n" "unat a + nat n < 2 ^ 64" for a :: addr and i
    using that by (simp add: unat_word_ariths unat_of_nat64)
  have n: "of_int n = (of_nat (nat n) :: addr)" using assms(1) by simp
  show ?thesis
  proof (cases "src > dst")
    case True
    have "src + of_nat i \<noteq> dst + of_nat j" if "j < i" "i < nat n" for i j
    proof
      assume "src + of_nat i = dst + of_nat j"
      then have "unat src + i = unat dst + j" using at [of i src] at [of j dst] that assms by simp
      then show False using True that by (simp add: word_less_nat_alt)
    qed
    then have "copy_up m dst src (nat n) = writebytes m dst (readbytes m src (nat n))"
      using assms by (intro copy_up_eq) auto
    then show ?thesis using True by (simp add: umemmove_def)
  next
    case False
    let ?d = "dst + of_nat (nat n)" and ?s = "src + of_nat (nat n)"
    have "?d - 1 - of_nat i \<noteq> ?s - 1 - of_nat j" if "i < j" "j < nat n" for i j
    proof
      assume e: "?d - 1 - of_nat i = ?s - 1 - of_nat j"
      then have "dst + of_nat j = src + of_nat i" by (simp add: algebra_simps)
      then have "unat dst + j = unat src + i" using at [of i src] at [of j dst] that assms by simp
      then show False using False that by (simp add: word_less_nat_alt not_less)
    qed
    then have "copy_down m ?d ?s (nat n) = writebytes m (?d - of_nat (nat n)) (readbytes m (?s - of_nat (nat n)) (nat n))"
      using assms by (intro copy_down_eq) auto
    then show ?thesis using False by (simp add: umemmove_def n)
  qed
qed

theorem umemmove_copies_witness:
  "umemmove (\<lambda>a. ucast a) 102 100 5 = writebytes (\<lambda>a. ucast a) 102 [100, 101, 102, 103, 104]"
  using umemmove_copies [of 5 100 102 "\<lambda>a. ucast a"] by (simp add: readbytes_def upt_rec)

text \<open>
  C31. \<^verbatim>\<open>strcmp\<close> compares strings in lexicographic order of unsigned bytes: its result is zero for equal
  strings, and negative exactly when the first comes before the second.
\<close>

theorem strcmp_order:
  assumes "0 \<notin> set p" "0 \<notin> set q"
  shows "(ustrcmp p q = 0 \<longleftrightarrow> p = q) \<and> (ustrcmp p q < 0 \<longleftrightarrow> (p, q) \<in> lexord {(a, b). a < b})"
  using assms
proof (induction p arbitrary: q)
  case Nil
  then show ?case by (cases q) (auto simp: word_less_def word_neq_0_conv)
next
  case (Cons c p)
  then show ?case
    by (cases q) (auto simp: word_less_def word_uint_eq_iff word_neq_0_conv)
qed

theorem strcmp_order_witness: "ustrcmp [97, 98] [97, 200] < 0"
  using strcmp_order [of "[97, 98]" "[97, 200]"] by simp

end
