(* ===== verification/Grep.thy ===== *)
theory Grep
  imports Prelude
begin

text \<open>
  \<^verbatim>\<open>user/grep.c\<close> with \<^verbatim>\<open>strchr()\<close> of \<^verbatim>\<open>user/ulib.c\<close>. A C string is the list of its characters before the
  terminating zero. The matcher is compared with the language of the pattern, and the loop over the
  buffer with the lines of the input, however \<^verbatim>\<open>read()\<close> cuts it into pieces.
\<close>

section \<open>The matcher\<close>

fun matchhere :: "string \<Rightarrow> string \<Rightarrow> bool" and matchstar :: "char \<Rightarrow> string \<Rightarrow> string \<Rightarrow> bool" where
  "matchhere re text =
     (case re of
        [] \<Rightarrow> True
      | c # re1 \<Rightarrow>
          if re1 \<noteq> [] \<and> hd re1 = CHR ''*'' then matchstar c (tl re1) text
          else if c = CHR ''$'' \<and> re1 = [] then text = []
          else if text \<noteq> [] \<and> (c = CHR ''.'' \<or> c = hd text) then matchhere re1 (tl text)
          else False)"
| "matchstar c re text =
     (if matchhere re text then True
      else if text \<noteq> [] \<and> (hd text = c \<or> c = CHR ''.'') then matchstar c re (tl text)
      else False)"

declare matchhere.simps [simp del] matchstar.simps [simp del]

fun match_from :: "string \<Rightarrow> string \<Rightarrow> bool" where
  "match_from re text =
     (if matchhere re text then True else case text of [] \<Rightarrow> False | _ # text1 \<Rightarrow> match_from re text1)"

declare match_from.simps [simp del]

definition match :: "string \<Rightarrow> string \<Rightarrow> bool" where
  "match re text =
     (case re of
        c # re1 \<Rightarrow> if c = CHR ''^'' then matchhere re1 text else match_from re text
      | [] \<Rightarrow> match_from re text)"

section \<open>The loop over the input\<close>

definition newline_char :: char where "newline_char = CHR 0x0A"
definition grep_bufsize :: nat where "grep_bufsize = 1024"

primrec strchr :: "string \<Rightarrow> char \<Rightarrow> nat option" where
  "strchr [] c = None"
| "strchr (x # xs) c =
     (if x = CHR 0x00 then None else if x = c then Some 0 else map_option Suc (strchr xs c))"

lemma strchr_less: "strchr s c = Some i \<Longrightarrow> i < length s"
  by (induction s arbitrary: i) (auto split: if_splits)

text \<open>
  The inner loop on the bytes from \<^verbatim>\<open>p\<close> on: what is written, and the bytes that stay in the buffer.
\<close>

function grep_lines :: "string \<Rightarrow> string \<Rightarrow> string list \<times> string" where
  "grep_lines pattern p =
     (case strchr p newline_char of
        None \<Rightarrow> ([], p)
      | Some q \<Rightarrow>
          let (out, rest) = grep_lines pattern (drop (q + 1) p)
          in ((if match pattern (take q p) then [take (q + 1) p] else []) @ out, rest))"
  by auto
termination
  by (relation "measure (\<lambda>(pattern, p). length p)") (auto dest: strchr_less)

declare grep_lines.simps [simp del]

lemma grep_lines_rest: "length (snd (grep_lines pattern p)) \<le> length p"
proof (induction pattern p rule: grep_lines.induct)
  case (1 pattern p)
  then show ?case
    by (subst grep_lines.simps) (fastforce split: option.splits prod.splits dest: strchr_less)
qed

text \<open>
  The outer loop. The input is the list of pieces that \<^verbatim>\<open>read()\<close> would yield one after the other given
  room enough; a call yields no more than it asks for, and 0 bytes, the end, for an empty piece or
  when it asks for none.
\<close>

function grep_loop :: "string \<Rightarrow> string list \<Rightarrow> string \<Rightarrow> string list" where
  "grep_loop pattern input buf =
     (case input of
        [] \<Rightarrow> []
      | c # cs \<Rightarrow>
          let n = min (length c) (grep_bufsize - length buf - 1) in
          if n = 0 then []
          else let (out, rest) = grep_lines pattern (buf @ take n c)
               in out @ grep_loop pattern (if n = length c then cs else drop n c # cs) rest)"
  by auto
termination
  by (relation "measure (\<lambda>(pattern, input, buf). length (concat input))") auto

declare grep_loop.simps [simp del]

definition grep :: "string \<Rightarrow> string list \<Rightarrow> string list" where
  "grep pattern input = grep_loop pattern input []"

section \<open>The language of a pattern\<close>

datatype item = One char | Many char | End

fun items :: "string \<Rightarrow> item list" where
  "items [] = []"
| "items [c] = (if c = CHR ''$'' then [End] else [One c])"
| "items (c # d # re) = (if d = CHR ''*'' then Many c # items re else One c # items (d # re))"

definition accepts :: "char \<Rightarrow> char \<Rightarrow> bool" where
  "accepts c x \<longleftrightarrow> c = CHR ''.'' \<or> c = x"

text \<open>\<open>matches is x y\<close>: the items match the text \<open>x\<close> when \<open>y\<close> follows it.\<close>

inductive matches :: "item list \<Rightarrow> string \<Rightarrow> string \<Rightarrow> bool" where
  matches_Nil: "matches [] [] y"
| matches_One: "accepts c a \<Longrightarrow> matches is x y \<Longrightarrow> matches (One c # is) (a # x) y"
| matches_Many: "\<forall>a \<in> set as. accepts c a \<Longrightarrow> matches is x y \<Longrightarrow> matches (Many c # is) (as @ x) y"
| matches_End: "matches [End] [] []"

inductive_simps matches_simps: "matches [] x y" "matches (One c # is) x y" "matches [End] x y"
inductive_cases matches_ManyE: "matches (Many c # is) x y"

definition matches_prefix :: "item list \<Rightarrow> string \<Rightarrow> bool" where
  "matches_prefix is text \<longleftrightarrow> (\<exists>x y. text = x @ y \<and> matches is x y)"

lemma prefix_Nil [simp]: "matches_prefix [] text"
  by (auto simp: matches_prefix_def matches_simps)

lemma prefix_End [simp]: "matches_prefix [End] text \<longleftrightarrow> text = []"
  by (auto simp: matches_prefix_def matches_simps)

lemma prefix_One: "matches_prefix (One c # is) text \<longleftrightarrow> text \<noteq> [] \<and> accepts c (hd text) \<and> matches_prefix is (tl text)"
  by (cases "text") (auto simp: matches_prefix_def matches_simps Cons_eq_append_conv)

lemma prefix_Many:
  "matches_prefix (Many c # is) text \<longleftrightarrow>
     matches_prefix is text \<or> text \<noteq> [] \<and> accepts c (hd text) \<and> matches_prefix (Many c # is) (tl text)"
  (is "?l \<longleftrightarrow> ?n \<or> ?m")
proof
  assume ?l
  then obtain as x y where a: "text = as @ x @ y" "\<forall>a \<in> set as. accepts c a" "matches is x y"
    by (auto simp: matches_prefix_def elim!: matches_ManyE)
  show "?n \<or> ?m"
  proof (cases as)
    case Nil
    then show ?thesis using a by (auto simp: matches_prefix_def)
  next
    case (Cons b bs)
    then have "matches (Many c # is) (bs @ x) y" using a by (intro matches_Many) auto
    then have "matches_prefix (Many c # is) (tl text)"
      unfolding matches_prefix_def using a(1) Cons by (intro exI [of _ "bs @ x"] exI [of _ y]) simp
    then show ?thesis using a Cons by simp
  qed
next
  assume "?n \<or> ?m"
  then show ?l
  proof
    assume ?n
    then show ?l using matches_Many [of "[]" c] unfolding matches_prefix_def by fastforce
  next
    assume m: ?m
    then obtain as x y where a: "tl text = as @ x @ y" "\<forall>a \<in> set as. accepts c a" "matches is x y"
      by (auto simp: matches_prefix_def elim!: matches_ManyE)
    then have "matches (Many c # is) ((hd text # as) @ x) y" using m by (intro matches_Many) auto
    moreover have "text = ((hd text # as) @ x) @ y" using m a(1) by (metis append_Cons append_assoc list.collapse)
    ultimately show ?l unfolding matches_prefix_def by blast
  qed
qed

lemma matchhere_items:
  "matchhere re text \<longleftrightarrow> matches_prefix (items re) text"
  "matchstar c re text \<longleftrightarrow> matches_prefix (Many c # items re) text"
proof (induction re "text" and c re "text" rule: matchhere_matchstar.induct)
  case (1 re tx)
  show ?case
  proof (cases re rule: items.cases)
    case 1
    then show ?thesis by (simp add: matchhere.simps)
  next
    case (2 c)
    then show ?thesis using "1.IH"(2) by (subst matchhere.simps) (auto simp: prefix_One accepts_def)
  next
    case (3 c d re')
    then show ?thesis using "1.IH" by (subst matchhere.simps) (auto simp: prefix_One accepts_def)
  qed
next
  case (2 c re tx)
  then show ?case by (subst matchstar.simps, subst prefix_Many) (auto simp: accepts_def)
qed

lemma match_from_iff: "match_from re text \<longleftrightarrow> (\<exists>a b. text = a @ b \<and> matchhere re b)"
proof (induction "text")
  case Nil
  then show ?case by (simp add: match_from.simps)
next
  case (Cons t ts)
  have "(\<exists>a b. t # ts = a @ b \<and> matchhere re b) \<longleftrightarrow> matchhere re (t # ts) \<or> (\<exists>a b. ts = a @ b \<and> matchhere re b)"
    by (auto simp: Cons_eq_append_conv)
  then show ?case using Cons by (subst match_from.simps) simp
qed

text \<open>
  C18. \<^verbatim>\<open>match\<close> decides the language of the pattern: a pattern that starts with \<^verbatim>\<open>^\<close> matches a text iff
  some prefix of it is matched by the rest, any other iff some part of the text is; a character
  followed by \<^verbatim>\<open>*\<close> stands for any number of characters that it accepts, \<^verbatim>\<open>.\<close> accepts every one, and
  \<^verbatim>\<open>$\<close> at the end of the pattern matches only at the end of the text.
\<close>

theorem match_language:
  "match re text =
     (if re \<noteq> [] \<and> hd re = CHR ''^'' then \<exists>x y. text = x @ y \<and> matches (items (tl re)) x y
      else \<exists>a x y. text = a @ x @ y \<and> matches (items re) x y)"
  by (cases re) (auto simp: match_def match_from_iff matchhere_items matches_prefix_def)

section \<open>The lines of the input\<close>

primrec lines_of :: "string \<Rightarrow> string \<Rightarrow> string list" where
  "lines_of l [] = []"
| "lines_of l (x # xs) = (if x = newline_char then l # lines_of [] xs else lines_of (l @ [x]) xs)"

primrec last_line :: "string \<Rightarrow> string \<Rightarrow> string" where
  "last_line l [] = l"
| "last_line l (x # xs) = (if x = newline_char then last_line [] xs else last_line (l @ [x]) xs)"

lemma lines_of_append: "lines_of l (xs @ ys) = lines_of l xs @ lines_of (last_line l xs) ys"
  by (induction xs arbitrary: l) auto

lemma line_plain:
  "newline_char \<notin> set xs \<Longrightarrow> lines_of l xs = []"
  "newline_char \<notin> set xs \<Longrightarrow> last_line l xs = l @ xs"
  by (induction xs arbitrary: l) auto

lemma last_line_append: "last_line l (xs @ ys) = last_line (last_line l xs) ys"
  by (induction xs arbitrary: l) auto

lemma last_line_newline: "newline_char \<notin> set l \<Longrightarrow> newline_char \<notin> set (last_line l xs)"
  by (induction xs arbitrary: l) auto

lemma last_line_sub: "set (last_line l xs) \<subseteq> set l \<union> set xs"
proof (induction xs arbitrary: l)
  case (Cons a xs)
  then show ?case using Cons [of "[]"] Cons [of "l @ [a]"] by auto
qed simp

lemma lines_of_long: "lines_of l xs \<noteq> [] \<Longrightarrow> \<exists>x \<in> set (lines_of l xs). length l \<le> length x"
proof (induction xs arbitrary: l)
  case (Cons a xs)
  then show ?case using Cons.IH [of "l @ [a]"] by (cases "a = newline_char") (auto intro: bexI dest: Suc_leD)
qed simp

lemma strchr_newline:
  assumes "CHR 0x00 \<notin> set p"
  shows "strchr p newline_char = None \<Longrightarrow> newline_char \<notin> set p"
    "strchr p newline_char = Some q \<Longrightarrow>
       p = take q p @ newline_char # drop (q + 1) p \<and> newline_char \<notin> set (take q p)"
proof -
  show "strchr p newline_char = None \<Longrightarrow> newline_char \<notin> set p"
    using assms by (induction p) (auto split: if_splits)
  show "strchr p newline_char = Some q \<Longrightarrow>
      p = take q p @ newline_char # drop (q + 1) p \<and> newline_char \<notin> set (take q p)"
    using assms by (induction p arbitrary: q) (auto split: if_splits)
qed

lemma grep_lines_spec:
  "CHR 0x00 \<notin> set p \<Longrightarrow>
   grep_lines pattern p =
     (map (\<lambda>l. l @ [newline_char]) (filter (match pattern) (lines_of [] p)), last_line [] p)"
proof (induction pattern p rule: grep_lines.induct)
  case (1 pattern p)
  show ?case
  proof (cases "strchr p newline_char")
    case None
    then show ?thesis
      using strchr_newline(1) [OF "1.prems" None] by (simp add: grep_lines.simps line_plain)
  next
    case (Some q)
    let ?l = "take q p" and ?r = "drop (q + 1) p"
    have p: "p = ?l @ newline_char # ?r" "newline_char \<notin> set ?l" using strchr_newline(2) [OF "1.prems" Some] by auto
    have ih: "grep_lines pattern ?r =
        (map (\<lambda>l. l @ [newline_char]) (filter (match pattern) (lines_of [] ?r)), last_line [] ?r)"
      using "1.IH" [OF Some] "1.prems" by (meson in_set_dropD)
    have q: "take (q + 1) p = ?l @ [newline_char]"
      using strchr_less [OF Some] p(1) by (metis Suc_eq_plus1 nth_append_length length_take min.absorb4 take_Suc_conv_app_nth)
    have sp: "lines_of [] p = ?l # lines_of [] ?r" "last_line [] p = last_line [] ?r"
      by (subst p(1), simp add: lines_of_append last_line_append line_plain p(2))+
    show ?thesis unfolding sp by (subst grep_lines.simps) (simp only: Some option.case ih q prod.case Let_def, simp)
  qed
qed

lemma grep_loop_spec:
  assumes "CHR 0x00 \<notin> set buf" "\<forall>c \<in> set input. c \<noteq> [] \<and> CHR 0x00 \<notin> set c" "newline_char \<notin> set buf"
    and "\<forall>l \<in> set (lines_of buf (concat input)). length l + 1 < grep_bufsize"
  shows "grep_loop pattern input buf =
    map (\<lambda>l. l @ [newline_char]) (filter (match pattern) (lines_of buf (concat input)))"
  using assms
proof (induction pattern input buf rule: grep_loop.induct)
  case (1 pattern input buf)
  show ?case
  proof (cases input)
    case Nil
    then show ?thesis by (simp add: grep_loop.simps)
  next
    case (Cons c cs)
    define n where "n = min (length c) (grep_bufsize - length buf - 1)"
    define rest where "rest = (if n = length c then cs else drop n c # cs)"
    show ?thesis
    proof (cases "n = 0")
      case True
      then have "grep_bufsize \<le> length buf + 1" using "1.prems"(2) Cons by (auto simp: n_def min_def split: if_splits)
      then have "lines_of buf (concat input) = []" using lines_of_long [of buf "concat input"] "1.prems"(4) by fastforce
      then show ?thesis using True unfolding Cons n_def by (simp add: grep_loop.simps)
    next
      case False
      let ?b = "buf @ take n c"
      have split: "concat input = take n c @ concat rest" by (auto simp: Cons rest_def n_def)
      have nul: "CHR 0x00 \<notin> set ?b" using "1.prems"(1,2) Cons by (auto dest: in_set_takeD)
      have lines: "lines_of [] ?b = lines_of buf (take n c)" "last_line [] ?b = last_line buf (take n c)"
        by (simp_all add: lines_of_append last_line_append line_plain "1.prems"(3))
      have gl: "grep_lines pattern ?b = (map (\<lambda>l. l @ [newline_char]) (filter (match pattern) (lines_of buf (take n c))),
          last_line buf (take n c))" using grep_lines_spec [OF nul] by (simp only: lines)
      have "grep_loop pattern rest (last_line buf (take n c)) =
          map (\<lambda>l. l @ [newline_char]) (filter (match pattern) (lines_of (last_line buf (take n c)) (concat rest)))"
        unfolding rest_def
      proof (rule "1.IH" [OF Cons n_def False gl [symmetric] refl])
        show "CHR 0x00 \<notin> set (last_line buf (take n c))" using last_line_sub [of buf "take n c"] nul by auto
        show "newline_char \<notin> set (last_line buf (take n c))" by (rule last_line_newline) (rule "1.prems"(3))
        show "\<forall>c\<in>set (if n = length c then cs else drop n c # cs). c \<noteq> [] \<and> CHR 0x00 \<notin> set c"
          using "1.prems"(2) Cons by (auto simp: n_def dest: in_set_dropD)
        show "\<forall>l\<in>set (lines_of (last_line buf (take n c)) (concat (if n = length c then cs else drop n c # cs))).
            length l + 1 < grep_bufsize"
          using "1.prems"(4) unfolding split lines_of_append rest_def by auto
      qed
      moreover have "grep_loop pattern input buf = fst (grep_lines pattern ?b) @ grep_loop pattern rest (snd (grep_lines pattern ?b))"
        using False unfolding rest_def n_def Cons by (subst grep_loop.simps) (simp add: Let_def split: prod.splits)
      ultimately show ?thesis unfolding split lines_of_append gl by simp
    qed
  qed
qed

text \<open>
  C19. \<^verbatim>\<open>grep\<close> writes exactly the lines of its input that match the pattern, in order and each with its
  newline, however \<^verbatim>\<open>read\<close> cuts the input into pieces, as long as the input has no zero byte and every
  line fits in the buffer, that is, has at most 1022 characters.
\<close>

theorem grep_prints_matching_lines:
  assumes "\<forall>c \<in> set input. c \<noteq> [] \<and> CHR 0x00 \<notin> set c"
    and "\<forall>l \<in> set (lines_of [] (concat input)). length l \<le> 1022"
  shows "grep pattern input =
    map (\<lambda>l. l @ [newline_char]) (filter (match pattern) (lines_of [] (concat input)))"
  unfolding grep_def using assms by (intro grep_loop_spec) (auto simp: grep_bufsize_def)

theorem grep_prints_matching_lines_witness:
  "grep ''^a*b$'' [''aab'' @ [CHR 0x0A] @ ''xb'', [CHR 0x0A, CHR ''b''], [CHR 0x0A]] =
     [''aab'' @ [CHR 0x0A], ''b'' @ [CHR 0x0A]]"
proof -
  let ?in = "[''aab'' @ [CHR 0x0A] @ ''xb'', [CHR 0x0A, CHR ''b''], [CHR 0x0A]]"
  have l: "lines_of [] (concat ?in) = [''aab'', ''xb'', ''b'']" by (simp add: newline_char_def)
  have "match ''^a*b$'' ''aab''" "\<not> match ''^a*b$'' ''xb''" "match ''^a*b$'' ''b''"
    by (simp_all add: match_def matchhere.simps matchstar.simps)
  moreover have "grep ''^a*b$'' ?in = map (\<lambda>l. l @ [newline_char]) (filter (match ''^a*b$'') (lines_of [] (concat ?in)))"
    by (rule grep_prints_matching_lines) (simp_all only: l, simp_all)
  ultimately show ?thesis by (simp only: l) (simp add: newline_char_def)
qed

end
