(* ===== verification/Sh.thy ===== *)
theory Sh
  imports Syscall Grep
begin

unbundle bit_operations_syntax

text \<open>
  The parser of \<^verbatim>\<open>user/sh.c\<close>. The text from \<^verbatim>\<open>*ps\<close> to \<^verbatim>\<open>es\<close> is a list of characters, none of them zero;
  each function returns what is left of it. A token is the text between \<^verbatim>\<open>*q\<close> and \<^verbatim>\<open>*eq\<close>, which is what
  the string is once \<^verbatim>\<open>nulterminate()\<close> has put a zero at its end.
\<close>

section \<open>Commands\<close>

datatype cmd =
    Exec "string list"
  | Redir cmd string uint int
  | Pipe cmd cmd
  | List cmd cmd
  | Back cmd

definition MAXARGS :: nat where "MAXARGS = 10"

text \<open>The outcome of a parser: a value and the rest of the text, a \<^verbatim>\<open>panic()\<close>, or no more fuel.\<close>

datatype 'a parsed = Parsed 'a string | Syntax string | Unfinished

definition pbind :: "'a parsed \<Rightarrow> ('a \<Rightarrow> string \<Rightarrow> 'b parsed) \<Rightarrow> 'b parsed" where
  "pbind m f = (case m of Parsed x s \<Rightarrow> f x s | Syntax e \<Rightarrow> Syntax e | Unfinished \<Rightarrow> Unfinished)"

lemma pbind_simps [simp]:
  "pbind (Parsed x s) f = f x s" "pbind (Syntax e) f = Syntax e" "pbind Unfinished f = Unfinished"
  by (simp_all add: pbind_def)

section \<open>Tokens\<close>

definition whitespace :: string where
  "whitespace = [CHR '' '', CHR 0x09, CHR 0x0D, CHR 0x0A, CHR 0x0B]"

definition symbols :: string where "symbols = ''<|>&;()''"

definition is_in :: "string \<Rightarrow> char \<Rightarrow> bool" where
  "is_in cs c \<longleftrightarrow> strchr cs c \<noteq> None"

definition skip_white :: "string \<Rightarrow> string" where
  "skip_white s = dropWhile (is_in whitespace) s"

definition word_char :: "char \<Rightarrow> bool" where
  "word_char c \<longleftrightarrow> \<not> is_in whitespace c \<and> \<not> is_in symbols c"

text \<open>The result code, the token and the rest; the code of the end of the text is the zero character.\<close>

definition gettoken :: "string \<Rightarrow> char \<times> string \<times> string" where
  "gettoken ps =
     (case skip_white ps of
        [] \<Rightarrow> (CHR 0x00, [], [])
      | c # s \<Rightarrow>
          if c \<in> set ''|();&<'' then (c, [c], skip_white s)
          else if c = CHR ''>'' then
            (case s of
               d # s' \<Rightarrow> if d = CHR ''>'' then (CHR ''+'', [c, d], skip_white s') else (c, [c], skip_white s)
             | [] \<Rightarrow> (c, [c], skip_white s))
          else (CHR ''a'', takeWhile word_char (c # s), skip_white (dropWhile word_char (c # s))))"

definition peek :: "string \<Rightarrow> string \<Rightarrow> bool \<times> string" where
  "peek ps toks =
     (let s = skip_white ps in (s \<noteq> [] \<and> is_in toks (hd s), s))"

lemma is_in_set: "CHR 0x00 \<notin> set cs \<Longrightarrow> is_in cs c \<longleftrightarrow> c \<in> set cs"
  unfolding is_in_def by (induction cs) auto

lemma skip_white_length: "length (skip_white s) \<le> length s"
  by (simp add: skip_white_def length_dropWhile_le)

lemma peek_length: "peek ps toks = (b, s) \<Longrightarrow> length s \<le> length ps"
  using skip_white_length [of ps] by (auto simp: peek_def Let_def)

lemma gettoken_less:
  assumes "gettoken ps = (tok, q, s)" "tok \<noteq> CHR 0x00"
  shows "length s < length ps"
proof -
  obtain c r where c: "skip_white ps = c # r" using assms by (cases "skip_white ps") (auto simp: gettoken_def)
  have len: "Suc (length r) \<le> length ps" using skip_white_length [of ps] c by simp
  have nw: "\<not> is_in whitespace c" using c hd_dropWhile [of "is_in whitespace" ps] by (auto simp: skip_white_def)
  have "length (dropWhile word_char (c # r)) \<le> length r"
    if "c \<notin> set ''|();&<''" "c \<noteq> CHR ''>''"
  proof -
    have "\<not> is_in symbols c" using that by (simp add: is_in_set symbols_def)
    then have "word_char c" using nw by (simp add: word_char_def)
    then show ?thesis by (simp add: length_dropWhile_le)
  qed
  moreover have "length (skip_white x) \<le> length x" for x by (rule skip_white_length)
  ultimately show ?thesis using assms(1) len le_trans
    unfolding gettoken_def c by (auto split: if_splits list.splits intro!: le_less_trans [OF skip_white_length])
qed

lemma gettoken_le:
  assumes "gettoken ps = (tok, q, s)" shows "length s \<le> length ps"
  using gettoken_less [OF assms] assms by (cases "tok = CHR 0x00") (auto simp: gettoken_def split: list.splits if_splits)

section \<open>The parser\<close>

text \<open>
  The redirections that the loop of \<^verbatim>\<open>parseredirs\<close> reads: file, mode and descriptor, in order.
\<close>

type_synonym redir = "string \<times> uint \<times> int"

definition redir_of :: "char \<Rightarrow> string \<Rightarrow> redir list" where
  "redir_of tok q =
     (if tok = CHR ''<'' then [(q, O_RDONLY, 0)]
      else if tok = CHR ''>'' then [(q, O_WRONLY OR O_CREATE OR O_TRUNC, 1)]
      else if tok = CHR ''+'' then [(q, O_WRONLY OR O_CREATE, 1)]
      else [])"

function parseredirs_loop :: "string \<Rightarrow> redir list parsed" where
  "parseredirs_loop ps =
     (let (more, s) = peek ps ''<>'' in
      if \<not> more then Parsed [] s else
      let (tok, _, s1) = gettoken s; (tok2, q, s2) = gettoken s1 in
      if tok2 \<noteq> CHR ''a'' then Syntax ''missing file for redirection''
      else pbind (parseredirs_loop s2) (\<lambda>rs s3. Parsed (redir_of tok q @ rs) s3))"
  by auto

termination
proof (relation "measure length")
  show "wf (measure length)" by simp
next
  fix ps x more s y tok y1 q' s1 z tok2 y2 q s2
  assume a: "x = peek ps ''<>''" "(more, s) = x" "y = gettoken s" "(tok, y1) = y" "(q', s1) = y1"
    "z = gettoken s1" "(tok2, y2) = z" "(q, s2) = y2" "\<not> tok2 \<noteq> CHR ''a''"
  have "peek ps ''<>'' = (more, s)" "gettoken s = (tok, q', s1)" "gettoken s1 = (tok2, q, s2)" "tok2 \<noteq> CHR 0x00"
    using a by simp_all
  then have "length s \<le> length ps" "length s1 \<le> length s" "length s2 < length s1"
    using peek_length gettoken_le gettoken_less by blast+
  then show "(s2, ps) \<in> measure length" by simp
qed

declare parseredirs_loop.simps [simp del]

fun redircmds :: "cmd \<Rightarrow> redir list \<Rightarrow> cmd" where
  "redircmds cmd [] = cmd"
| "redircmds cmd ((file, mode, fd) # rs) = redircmds (Redir cmd file mode fd) rs"

definition parseredirs :: "cmd \<Rightarrow> string \<Rightarrow> cmd parsed" where
  "parseredirs cmd ps = pbind (parseredirs_loop ps) (\<lambda>rs s. Parsed (redircmds cmd rs) s)"

text \<open>
  The loop of \<^verbatim>\<open>parseexec\<close> yields the arguments and the redirections among them. The code fills the
  arguments into the \<^verbatim>\<open>execcmd\<close> that the redirections are wrapped around, so these end up around the
  command with all its arguments. Each round takes a word, so the length of the text bounds them.
\<close>

primrec parseexec_loop :: "nat \<Rightarrow> nat \<Rightarrow> string \<Rightarrow> (string list \<times> redir list) parsed" where
  "parseexec_loop 0 argc ps = Unfinished"
| "parseexec_loop (Suc fuel) argc ps =
     (let (stop, s) = peek ps ''|)&;'' in
      if stop then Parsed ([], []) s else
      let (tok, q, s1) = gettoken s in
      if tok = CHR 0x00 then Parsed ([], []) s1
      else if tok \<noteq> CHR ''a'' then Syntax ''syntax''
      else if MAXARGS \<le> argc + 1 then Syntax ''too many args''
      else pbind (parseredirs_loop s1) (\<lambda>rs s2.
           pbind (parseexec_loop fuel (argc + 1) s2) (\<lambda>(args, rs') s3. Parsed (q # args, rs @ rs') s3)))"

primrec parseback_loop :: "nat \<Rightarrow> cmd \<Rightarrow> string \<Rightarrow> cmd parsed" where
  "parseback_loop 0 cmd ps = Unfinished"
| "parseback_loop (Suc fuel) cmd ps =
     (let (more, s) = peek ps ''&'' in
      if more then let (tok, _, s1) = gettoken s in parseback_loop fuel (Back cmd) s1
      else Parsed cmd s)"

fun parseline :: "nat \<Rightarrow> string \<Rightarrow> cmd parsed" and parsepipe :: "nat \<Rightarrow> string \<Rightarrow> cmd parsed"
  and parseexec :: "nat \<Rightarrow> string \<Rightarrow> cmd parsed" and parseblock :: "nat \<Rightarrow> string \<Rightarrow> cmd parsed" where
  "parseline 0 ps = Unfinished"
| "parseline (Suc fuel) ps =
     pbind (parsepipe fuel ps) (\<lambda>cmd s.
     pbind (parseback_loop (length s + 1) cmd s) (\<lambda>cmd s1.
     let (more, s2) = peek s1 '';'' in
     if more then let (tok, _, s3) = gettoken s2 in
       pbind (parseline fuel s3) (\<lambda>right s4. Parsed (List cmd right) s4)
     else Parsed cmd s2))"
| "parsepipe 0 ps = Unfinished"
| "parsepipe (Suc fuel) ps =
     pbind (parseexec fuel ps) (\<lambda>cmd s.
     let (more, s1) = peek s ''|'' in
     if more then let (tok, _, s2) = gettoken s1 in
       pbind (parsepipe fuel s2) (\<lambda>right s3. Parsed (Pipe cmd right) s3)
     else Parsed cmd s1)"
| "parseexec 0 ps = Unfinished"
| "parseexec (Suc fuel) ps =
     (let (block, s) = peek ps ''('' in
      if block then parseblock fuel s else
      pbind (parseredirs_loop s) (\<lambda>rs s1.
      pbind (parseexec_loop (length s1 + 1) 0 s1) (\<lambda>(args, rs') s2.
      Parsed (redircmds (Exec args) (rs @ rs')) s2)))"
| "parseblock 0 ps = Unfinished"
| "parseblock (Suc fuel) ps =
     (let (block, s) = peek ps ''('' in
      if \<not> block then Syntax ''parseblock'' else
      let (tok, _, s1) = gettoken s in
      pbind (parseline fuel s1) (\<lambda>cmd s2.
      let (close, s3) = peek s2 '')'' in
      if \<not> close then Syntax ''syntax - missing )'' else
      let (tok, _, s4) = gettoken s3 in
      parseredirs cmd s4))"

text \<open>Four calls at most go by before a character is consumed.\<close>

definition parsecmd :: "string \<Rightarrow> cmd parsed" where
  "parsecmd s =
     pbind (parseline (4 * length s + 4) s) (\<lambda>cmd s1.
     let (_, s2) = peek s1 [] in
     if s2 \<noteq> [] then Syntax ''syntax'' else Parsed cmd s2)"

section \<open>The parser ends\<close>

text \<open>An outcome that is not for want of fuel and leaves at most \<open>n\<close> characters.\<close>

fun within :: "nat \<Rightarrow> 'a parsed \<Rightarrow> bool" where
  "within n (Parsed x s) \<longleftrightarrow> length s \<le> n"
| "within n (Syntax e) \<longleftrightarrow> True"
| "within n Unfinished \<longleftrightarrow> False"

lemma within_pbind:
  "within n m \<Longrightarrow> (\<And>x s. length s \<le> n \<Longrightarrow> within k (f x s)) \<Longrightarrow> within k (pbind m f)"
  by (cases m) auto

lemma peek_gettoken:
  assumes "peek ps toks = (True, s)" "gettoken s = (tok, q, s1)"
  shows "length s1 < length ps" "tok = CHR 0x00 \<Longrightarrow> False"
proof -
  have s: "s = skip_white ps" "s \<noteq> []" "is_in toks (hd s)" using assms(1) by (auto simp: peek_def Let_def)
  have ss: "skip_white s = s" by (simp add: s(1) skip_white_def)
  show nz: False if "tok = CHR 0x00"
    using that assms(2) s ss by (auto simp: gettoken_def is_in_def split: list.splits if_splits)
  then show "length s1 < length ps" using gettoken_less [OF assms(2)] peek_length [OF assms(1)] by (meson order_less_le_trans)
qed

lemma parseredirs_loop_within: "within (length ps) (parseredirs_loop ps)"
proof (induction ps rule: parseredirs_loop.induct)
  case (1 ps)
  obtain more s where p: "peek ps ''<>'' = (more, s)" by (cases "peek ps ''<>''")
  obtain tok q' s1 where t: "gettoken s = (tok, q', s1)" by (cases "gettoken s") auto
  obtain tok2 q s2 where t2: "gettoken s1 = (tok2, q, s2)" by (cases "gettoken s1") auto
  note len = peek_length [OF p] gettoken_le [OF t] gettoken_le [OF t2]
  have "within (length s2) (parseredirs_loop s2)" if "more" "tok2 = CHR ''a''"
    using "1.IH" [OF p [symmetric] refl _ t [symmetric] refl refl t2 [symmetric] refl refl] that by simp
  then have "within (length ps) (pbind (parseredirs_loop s2) (\<lambda>rs s3. Parsed (redir_of tok q @ rs) s3))"
    if "more" "tok2 = CHR ''a''"
    using that len by (auto intro!: within_pbind [of "length s2"])
  then show ?case using len by (subst parseredirs_loop.simps) (simp add: p t t2)
qed

lemma parseexec_loop_within: "length ps < fuel \<Longrightarrow> within (length ps) (parseexec_loop fuel argc ps)"
proof (induction fuel arbitrary: argc ps)
  case 0
  then show ?case by simp
next
  case (Suc fuel)
  obtain stop s where p: "peek ps ''|)&;'' = (stop, s)" by (cases "peek ps ''|)&;''")
  obtain tok q s1 where t: "gettoken s = (tok, q, s1)" by (cases "gettoken s") auto
  note len = peek_length [OF p] gettoken_le [OF t]
  have "within (length ps) (pbind (parseredirs_loop s1) (\<lambda>rs s2.
      pbind (parseexec_loop fuel (argc + 1) s2) (\<lambda>(args, rs') s3. Parsed (q # args, rs @ rs') s3)))"
    if "tok = CHR ''a''"
  proof (rule within_pbind [OF parseredirs_loop_within])
    fix rs :: "redir list" and s2 :: string assume "length s2 \<le> length s1"
    moreover have "length s1 < length s" by (rule gettoken_less [OF t]) (simp add: that)
    ultimately have "length s2 < fuel" "length s2 \<le> length ps" using Suc.prems len by simp_all
    then show "within (length ps) (pbind (parseexec_loop fuel (argc + 1) s2) (\<lambda>(args, rs') s3. Parsed (q # args, rs @ rs') s3))"
      by (intro within_pbind [OF Suc.IH]) auto
  qed
  then show ?case using len by (simp add: p t)
qed

lemma parseback_loop_within: "length ps < fuel \<Longrightarrow> within (length ps) (parseback_loop fuel cmd ps)"
proof (induction fuel arbitrary: cmd ps)
  case 0
  then show ?case by simp
next
  case (Suc fuel)
  obtain more s where p: "peek ps ''&'' = (more, s)" by (cases "peek ps ''&''")
  obtain tok q s1 where t: "gettoken s = (tok, q, s1)" by (cases "gettoken s") auto
  have "within (length ps) (parseback_loop fuel (Back cmd) s1)" if "more"
  proof -
    have lt: "length s1 < length ps" by (rule peek_gettoken(1) [OF _ t]) (use p that in simp)
    then have "within (length s1) (parseback_loop fuel (Back cmd) s1)" using Suc.prems by (intro Suc.IH) simp
    then show ?thesis using lt by (cases "parseback_loop fuel (Back cmd) s1") auto
  qed
  then show ?case using peek_length [OF p] by (simp add: p t)
qed

lemma within_mono: "within n m \<Longrightarrow> n \<le> k \<Longrightarrow> within k m"
  by (cases m) auto

lemma parse_within:
  "4 * length ps + 4 \<le> fuel \<Longrightarrow> within (length ps) (parseline fuel ps)"
  "4 * length ps + 3 \<le> fuel \<Longrightarrow> within (length ps) (parsepipe fuel ps)"
  "4 * length ps + 2 \<le> fuel \<Longrightarrow> within (length ps) (parseexec fuel ps)"
  "4 * length ps + 1 \<le> fuel \<Longrightarrow> within (length ps) (parseblock fuel ps)"
proof (induction fuel arbitrary: ps)
  case 0
  { case 1 then show ?case by simp next case 2 then show ?case by simp
    next case 3 then show ?case by simp next case 4 then show ?case by simp }
next
  case (Suc fuel)
  {
    case 1
    show ?case
      unfolding parseline.simps
    proof (rule within_pbind [OF Suc.IH(2)], use 1 in simp, rule within_pbind [OF parseback_loop_within], simp)
      fix cmd c :: cmd and s s1 :: string assume l: "length (s :: string) \<le> length ps" "length (s1 :: string) \<le> length s"
      obtain more s2 where p: "peek s1 '';'' = (more, s2)" by (cases "peek s1 '';''")
      obtain tok q s3 where t: "gettoken s2 = (tok, q, s3)" by (cases "gettoken s2") auto
      have "within (length ps) (pbind (parseline fuel s3) (\<lambda>right s4. Parsed (List c right) s4))" if "more"
      proof -
        have lt: "length s3 < length s1" by (rule peek_gettoken(1) [OF _ t]) (use p that in simp)
        then have "within (length s3) (parseline fuel s3)" using 1 l by (intro Suc.IH(1)) simp
        then show ?thesis by (rule within_pbind) (use lt l in simp)
      qed
      then show "within (length ps) (let (more, s2) = peek s1 '';'' in
          if more then let (tok, _, s3) = gettoken s2 in pbind (parseline fuel s3) (\<lambda>right s4. Parsed (List c right) s4)
          else Parsed c s2)"
        using peek_length [OF p] l by (simp add: p t)
    qed
  next
    case 2
    show ?case
      unfolding parsepipe.simps
    proof (rule within_pbind [OF Suc.IH(3)], use 2 in simp)
      fix c :: cmd and s1 :: string assume l: "length (s1 :: string) \<le> length ps"
      obtain more s2 where p: "peek s1 ''|'' = (more, s2)" by (cases "peek s1 ''|''")
      obtain tok q s3 where t: "gettoken s2 = (tok, q, s3)" by (cases "gettoken s2") auto
      have "within (length ps) (pbind (parsepipe fuel s3) (\<lambda>right s4. Parsed (Pipe c right) s4))" if "more"
      proof -
        have lt: "length s3 < length s1" by (rule peek_gettoken(1) [OF _ t]) (use p that in simp)
        then have "within (length s3) (parsepipe fuel s3)" using 2 l by (intro Suc.IH(2)) simp
        then show ?thesis by (rule within_pbind) (use lt l in simp)
      qed
      then show "within (length ps) (let (more, s2) = peek s1 ''|'' in
          if more then let (tok, _, s3) = gettoken s2 in pbind (parsepipe fuel s3) (\<lambda>right s4. Parsed (Pipe c right) s4)
          else Parsed c s2)"
        using peek_length [OF p] l by (simp add: p t)
    qed
  next
    case 3
    obtain block s where p: "peek ps ''('' = (block, s)" by (cases "peek ps ''(''")
    have l: "length s \<le> length ps" by (rule peek_length [OF p])
    have "within (length ps) (parseblock fuel s)"
      by (rule within_mono [OF Suc.IH(4)]) (use 3 l in simp_all)
    moreover have "within (length ps) (pbind (parseredirs_loop s) (\<lambda>rs s1.
        pbind (parseexec_loop (length s1 + 1) 0 s1) (\<lambda>(args, rs') s2. Parsed (redircmds (Exec args) (rs @ rs')) s2)))"
      by (rule within_pbind [OF parseredirs_loop_within], rule within_pbind [OF parseexec_loop_within])
        (use l in auto)
    ultimately show ?case by (simp add: p)
  next
    case 4
    obtain block s where p: "peek ps ''('' = (block, s)" by (cases "peek ps ''(''")
    obtain tok q s1 where t: "gettoken s = (tok, q, s1)" by (cases "gettoken s") auto
    have "within (length ps) (pbind (parseline fuel s1) (\<lambda>cmd s2. let (close, s3) = peek s2 '')'' in
        if \<not> close then Syntax ''syntax - missing )'' else let (tok, _, s4) = gettoken s3 in parseredirs cmd s4))"
      if "block"
    proof -
      have lt: "length s1 < length ps" by (rule peek_gettoken(1) [OF _ t]) (use p that in simp)
      then have line: "within (length s1) (parseline fuel s1)" using 4 by (intro Suc.IH(1)) simp
      show ?thesis
      proof (rule within_pbind [OF line])
        fix cmd :: cmd and s2 :: string assume l: "length (s2 :: string) \<le> length s1"
        obtain close s3 where p': "peek s2 '')'' = (close, s3)" by (cases "peek s2 '')''")
        obtain tok q s4 where t': "gettoken s3 = (tok, q, s4)" by (cases "gettoken s3") auto
        have "length s4 \<le> length ps" using peek_length [OF p'] gettoken_le [OF t'] l lt by simp
        then have "within (length ps) (parseredirs cmd s4)"
          unfolding parseredirs_def by (intro within_pbind [OF parseredirs_loop_within]) simp
        then show "within (length ps) (let (close, s3) = peek s2 '')'' in
          if \<not> close then Syntax ''syntax - missing )'' else let (tok, _, s4) = gettoken s3 in parseredirs cmd s4)"
          by (simp add: p' t')
      qed
    qed
    then show ?case by (simp add: p t)
  }
qed

text \<open>
  C24. The parser of the shell ends on every input, with a command or with one of its error messages:
  the bound on the depth of its recursion that the model carries, four calls per character of the
  text, is never reached.
\<close>

theorem parsecmd_ends: "(\<exists>cmd. parsecmd s = Parsed cmd []) \<or> (\<exists>e. parsecmd s = Syntax e)"
proof -
  have "within (length s) (parseline (4 * length s + 4) s)" by (rule parse_within) simp
  then show ?thesis
    by (cases "parseline (4 * length s + 4) s") (auto simp: parsecmd_def split: prod.splits)
qed

end
