(* ===== verification/Shprint.thy ===== *)
theory Shprint
  imports Sh
begin

text \<open>
  A printer for commands of the shell, and that its parser reads back what the printer writes. Every
  token is followed by a blank; a command that stands where the grammar allows only a simple one is put
  in parentheses.
\<close>

unbundle bit_operations_syntax

section \<open>The printer\<close>

definition show_redir :: "redir \<Rightarrow> string" where
  "show_redir x = (case x of (file, mode, fd) \<Rightarrow>
     (if mode = O_RDONLY then ''< '' else if mode = O_WRONLY OR O_CREATE OR O_TRUNC then ''> '' else ''>> '')
     @ file @ '' '')"

definition show_words :: "string list \<Rightarrow> string" where
  "show_words ws = concat (map (\<lambda>w. w @ '' '') ws)"

definition paren :: "bool \<Rightarrow> string \<Rightarrow> string" where
  "paren b s = (if b then ''( '' @ s @ '') '' else s)"

text \<open>The levels of the grammar: 0 a line, 1 a pipeline with \<^verbatim>\<open>&\<close>s, 2 a pipeline, 3 a simple command.\<close>

primrec show_cmd :: "nat \<Rightarrow> cmd \<Rightarrow> string" where
  "show_cmd p (Exec ws) = show_words ws"
| "show_cmd p (Redir c file mode fd) = show_cmd 3 c @ show_redir (file, mode, fd)"
| "show_cmd p (Pipe l r) = paren (2 < p) (show_cmd 3 l @ ''| '' @ show_cmd 2 r)"
| "show_cmd p (List l r) = paren (0 < p) (show_cmd 1 l @ ''; '' @ show_cmd 0 r)"
| "show_cmd p (Back c) = paren (1 < p) (show_cmd 1 c @ ''& '')"

text \<open>Words, redirections and commands that the syntax can express.\<close>

definition word :: "string \<Rightarrow> bool" where
  "word w \<longleftrightarrow> w \<noteq> [] \<and> (\<forall>c \<in> set w. word_char c \<and> c \<noteq> CHR 0x00)"

definition redir_ok :: "redir \<Rightarrow> bool" where
  "redir_ok x = (case x of (file, mode, fd) \<Rightarrow> word file \<and>
     (mode = O_RDONLY \<and> fd = 0 \<or> mode = O_WRONLY OR O_CREATE OR O_TRUNC \<and> fd = 1 \<or>
      mode = O_WRONLY OR O_CREATE \<and> fd = 1))"

primrec cmd_ok :: "cmd \<Rightarrow> bool" where
  "cmd_ok (Exec ws) \<longleftrightarrow> length ws < MAXARGS \<and> (\<forall>w \<in> set ws. word w)"
| "cmd_ok (Redir c file mode fd) \<longleftrightarrow> cmd_ok c \<and> redir_ok (file, mode, fd)"
| "cmd_ok (Pipe l r) \<longleftrightarrow> cmd_ok l \<and> cmd_ok r"
| "cmd_ok (List l r) \<longleftrightarrow> cmd_ok l \<and> cmd_ok r"
| "cmd_ok (Back c) \<longleftrightarrow> cmd_ok c"

section \<open>Tokens\<close>

definition trimmed :: "string \<Rightarrow> bool" where
  "trimmed s \<longleftrightarrow> skip_white s = s"

text \<open>The text ends, or goes on with one of the given characters.\<close>

definition follows :: "string \<Rightarrow> string \<Rightarrow> bool" where
  "follows cs s \<longleftrightarrow> s = [] \<or> hd s \<in> set cs"

lemma white_set: "is_in whitespace c \<longleftrightarrow> c \<in> set whitespace"
  by (rule is_in_set) (simp add: whitespace_def)

lemma white_iff: "is_in whitespace c \<longleftrightarrow> c \<in> {CHR '' '', CHR 0x09, CHR 0x0D, CHR 0x0A, CHR 0x0B}"
  unfolding white_set by (simp add: whitespace_def)

lemma symbol_set: "is_in symbols c \<longleftrightarrow> c \<in> set symbols"
  by (rule is_in_set) (simp add: symbols_def)

lemma trimmed_iff: "trimmed s \<longleftrightarrow> s = [] \<or> hd s \<notin> set whitespace"
  by (cases s) (auto simp: trimmed_def skip_white_def white_set dest: arg_cong [of _ _ length]
      intro: le_antisym simp: impossible_Cons length_dropWhile_le)

lemma skip_blank [simp]: "trimmed r \<Longrightarrow> skip_white (CHR '' '' # r) = r"
  by (simp add: trimmed_def skip_white_def white_iff)

lemma peek_trimmed:
  "trimmed s \<Longrightarrow> CHR 0x00 \<notin> set toks \<Longrightarrow> peek s toks = (s \<noteq> [] \<and> hd s \<in> set toks, s)"
  by (simp add: peek_def trimmed_def is_in_set Let_def)

lemma word_hd:
  assumes "word w" shows "w \<noteq> []" "hd w \<notin> set whitespace" "hd w \<notin> set symbols"
  using assms list.set_sel(1) [of w] by (auto simp: word_def word_char_def white_set symbol_set)

lemma gettoken_word:
  assumes w: "word w" and r: "trimmed r"
  shows "gettoken (w @ CHR '' '' # r) = (CHR ''a'', w, r)"
proof -
  obtain c v where c: "w = c # v" using w by (cases w) (auto simp: word_def)
  have n: "c \<notin> set whitespace" "c \<notin> set symbols" using word_hd [OF w] c by auto
  have "\<not> word_char CHR '' ''" by (simp add: word_char_def white_iff)
  then have tw: "takeWhile word_char (w @ CHR '' '' # r) = w" "dropWhile word_char (w @ CHR '' '' # r) = CHR '' '' # r"
    using w by (auto simp: word_def takeWhile_append2 dropWhile_append2)
  have "skip_white (w @ CHR '' '' # r) = w @ CHR '' '' # r" using n(1) by (simp add: c skip_white_def white_set)
  then show ?thesis using n(2) tw r by (simp add: gettoken_def c symbols_def)
qed

lemma gettoken_symbol:
  assumes "c \<in> set ''|();&<>''" "trimmed r"
  shows "gettoken (c # CHR '' '' # r) = (c, [c], r)"
  using assms by (auto simp: gettoken_def skip_white_def white_iff trimmed_def)

lemma gettoken_append: "trimmed r \<Longrightarrow> gettoken (''>> '' @ r) = (CHR ''+'', ''>>'', r)"
  by (simp add: gettoken_def skip_white_def white_iff trimmed_def)

section \<open>Redirections and arguments\<close>

lemma trimmed_show:
  "word w \<Longrightarrow> trimmed (w @ r)"
  "trimmed (show_redir x @ r)"
  "trimmed r \<Longrightarrow> trimmed (concat (map show_redir rs) @ r)"
  "\<forall>w \<in> set ws. word w \<Longrightarrow> trimmed r \<Longrightarrow> trimmed (show_words ws @ r)"
proof -
  show w: "word w \<Longrightarrow> trimmed (w @ r)" for w r using word_hd [of w] by (simp add: trimmed_iff)
  show x: "trimmed (show_redir x @ r)" for x r
    by (cases x) (simp add: show_redir_def trimmed_iff whitespace_def)
  show "trimmed r \<Longrightarrow> trimmed (concat (map show_redir rs) @ r)" by (cases rs) (simp_all add: x)
  show "\<forall>w \<in> set ws. word w \<Longrightarrow> trimmed r \<Longrightarrow> trimmed (show_words ws @ r)"
    by (cases ws) (simp_all add: show_words_def w)
qed

lemma modes: "O_WRONLY OR O_CREATE OR O_TRUNC \<noteq> O_RDONLY" "O_WRONLY OR O_CREATE \<noteq> O_RDONLY"
  "O_WRONLY OR O_CREATE \<noteq> O_WRONLY OR O_CREATE OR O_TRUNC"
  by (simp_all add: O_WRONLY_def O_CREATE_def O_TRUNC_def O_RDONLY_def)

lemma parseredirs_loop_show:
  "\<forall>x \<in> set rs. redir_ok x \<Longrightarrow> trimmed r \<Longrightarrow> \<not> (r \<noteq> [] \<and> hd r \<in> set ''<>'') \<Longrightarrow>
   parseredirs_loop (concat (map show_redir rs) @ r) = Parsed rs r"
proof (induction rs)
  case Nil
  then show ?case by (subst parseredirs_loop.simps) (auto simp: peek_trimmed)
next
  case (Cons x rs)
  obtain f m d where x: "x = (f, m, d)" by (cases x)
  let ?r = "concat (map show_redir rs) @ r"
  have f: "word f" and r: "trimmed ?r" using Cons.prems x trimmed_show(3) by (auto simp: redir_ok_def)
  obtain tok q where t: "gettoken (show_redir x @ ?r) = (tok, q, f @ CHR '' '' # ?r)" "redir_of tok f = [x]"
    using Cons.prems(1) trimmed_show(1) [OF f, of "CHR '' '' # ?r"] modes
    by (auto simp: x redir_ok_def show_redir_def redir_of_def gettoken_symbol gettoken_append [simplified])
  have p: "peek (show_redir x @ ?r) ''<>'' = (True, show_redir x @ ?r)"
    using trimmed_show(2) [of x ?r] by (simp add: peek_trimmed) (simp add: x show_redir_def)
  have "concat (map show_redir (x # rs)) @ r = show_redir x @ ?r" by simp
  then show ?case
    using Cons by (subst parseredirs_loop.simps) (simp add: p t gettoken_word [OF f r])
qed

lemma redirs_stop:
  "follows ''|)&;'' r \<Longrightarrow> \<not> (r \<noteq> [] \<and> hd r \<in> set ''<>'')"
  "word w \<Longrightarrow> \<not> (w @ r \<noteq> [] \<and> hd (w @ r) \<in> set ''<>'')"
  using word_hd [of w] by (auto simp: follows_def symbols_def hd_append)

lemma simple_start:
  assumes "\<forall>w \<in> set ws. word w" "follows ''|)&;'' r"
  shows "\<not> (show_words ws @ concat (map show_redir rs) @ r \<noteq> [] \<and>
    hd (show_words ws @ concat (map show_redir rs) @ r) = CHR ''('')"
proof (cases ws)
  case Nil
  then show ?thesis
    using assms(2) by (cases rs) (auto simp: show_words_def show_redir_def follows_def split: prod.splits)
next
  case (Cons w vs)
  then show ?thesis using word_hd [of w] assms(1) by (auto simp: show_words_def symbols_def hd_append)
qed

lemma show_words_Cons: "show_words (w # ws) @ s = w @ CHR '' '' # show_words ws @ s"
  by (simp add: show_words_def)

lemma show_words_Nil [simp]: "show_words [] = []"
  by (simp add: show_words_def)

lemma parseexec_loop_show:
  "\<forall>w \<in> set ws. word w \<Longrightarrow> \<forall>x \<in> set rs. redir_ok x \<Longrightarrow> trimmed r \<Longrightarrow> follows ''|)&;'' r \<Longrightarrow>
   (ws = [] \<longrightarrow> rs = []) \<Longrightarrow> argc + length ws < MAXARGS \<Longrightarrow>
   length (show_words ws @ concat (map show_redir rs) @ r) < fuel \<Longrightarrow>
   parseexec_loop fuel argc (show_words ws @ concat (map show_redir rs) @ r) = Parsed (ws, rs) r"
proof (induction ws arbitrary: fuel argc rs)
  case Nil
  then obtain f where "fuel = Suc f" by (cases fuel) auto
  then show ?case
    using Nil by (cases r) (auto simp: peek_trimmed follows_def gettoken_def skip_white_def)
next
  case (Cons w ws)
  let ?rest = "show_words ws @ concat (map show_redir rs) @ r"
  obtain f where f: "fuel = Suc f" using Cons.prems(7) by (cases fuel) auto
  have w: "word w" "\<forall>w \<in> set ws. word w" using Cons.prems(1) by auto
  have tr: "trimmed ?rest" using Cons.prems w trimmed_show(3,4) by blast
  have s: "show_words (w # ws) @ concat (map show_redir rs) @ r = w @ CHR '' '' # ?rest" by (rule show_words_Cons)
  have p: "peek (w @ CHR '' '' # ?rest) ''|)&;'' = (False, w @ CHR '' '' # ?rest)"
    using word_hd [OF w(1)] trimmed_show(1) [OF w(1)] by (auto simp: peek_trimmed symbols_def)
  have len: "length ?rest < f" using Cons.prems(7) unfolding s f by simp
  define rs1 where "rs1 = (if ws = [] then rs else [])"
  define rs2 where "rs2 = (if ws = [] then [] else rs)"
  have red: "parseredirs_loop ?rest = Parsed rs1 (show_words ws @ concat (map show_redir rs2) @ r)"
  proof (cases ws)
    case Nil
    then show ?thesis
      using parseredirs_loop_show [OF Cons.prems(2,3) redirs_stop(1) [OF Cons.prems(4)]] by (simp add: rs1_def rs2_def)
  next
    case (Cons v vs)
    then have "\<not> (?rest \<noteq> [] \<and> hd ?rest \<in> set ''<>'')"
      unfolding Cons show_words_Cons by (intro redirs_stop(2)) (use w(2) Cons in simp)
    then show ?thesis using parseredirs_loop_show [of "[]" ?rest] tr Cons by (simp add: rs1_def rs2_def)
  qed
  have "parseexec_loop f (argc + 1) (show_words ws @ concat (map show_redir rs2) @ r) = Parsed (ws, rs2) r"
    by (rule Cons.IH) (use Cons.prems len w(2) in \<open>auto simp: rs2_def\<close>)
  moreover have "rs1 @ rs2 = rs" by (simp add: rs1_def rs2_def)
  ultimately show ?case
    using Cons.prems(6) unfolding s f by (simp add: p gettoken_word [OF w(1) tr] red)
qed

section \<open>Commands\<close>

text \<open>The redirections around a command, and what they are around.\<close>

primrec base :: "cmd \<Rightarrow> cmd" where
  "base (Redir c f m d) = base c"
| "base (Exec ws) = Exec ws" | "base (Pipe l r) = Pipe l r" | "base (List l r) = List l r" | "base (Back c) = Back c"

primrec redirs :: "cmd \<Rightarrow> redir list" where
  "redirs (Redir c f m d) = redirs c @ [(f, m, d)]"
| "redirs (Exec ws) = []" | "redirs (Pipe l r) = []" | "redirs (List l r) = []" | "redirs (Back c) = []"

lemma redircmds_append: "redircmds c (xs @ ys) = redircmds (redircmds c xs) ys"
  by (induction c xs rule: redircmds.induct) auto

lemma base_redirs:
  "redircmds (base c) (redirs c) = c" "show_cmd 3 c = show_cmd 3 (base c) @ concat (map show_redir (redirs c))"
  "cmd_ok c \<Longrightarrow> cmd_ok (base c) \<and> (\<forall>x \<in> set (redirs c). redir_ok x)" "size (base c) \<le> size c"
  by (induction c) (auto simp: redircmds_append)

definition exec_ok :: "cmd \<Rightarrow> bool" where
  "exec_ok c \<longleftrightarrow> (\<forall>r fuel. trimmed r \<longrightarrow> follows ''|)&;'' r \<longrightarrow> 4 * length (show_cmd 3 c @ r) + 2 \<le> fuel \<longrightarrow>
     parseexec fuel (show_cmd 3 c @ r) = Parsed c r)"

definition pipe_line_ok :: "cmd \<Rightarrow> bool" where
  "pipe_line_ok c \<longleftrightarrow> (\<forall>r fuel. trimmed r \<longrightarrow> follows '')&;'' r \<longrightarrow> 4 * length (show_cmd 2 c @ r) + 3 \<le> fuel \<longrightarrow>
     parsepipe fuel (show_cmd 2 c @ r) = Parsed c r)"

definition line_ok :: "cmd \<Rightarrow> bool" where
  "line_ok c \<longleftrightarrow> (\<forall>r fuel. trimmed r \<longrightarrow> follows '')'' r \<longrightarrow> 4 * length (show_cmd 0 c @ r) + 4 \<le> fuel \<longrightarrow>
     parseline fuel (show_cmd 0 c @ r) = Parsed c r)"

lemma exec_simple:
  assumes ok: "cmd_ok c" and b: "base c = Exec ws" shows "exec_ok c"
  unfolding exec_ok_def
proof (intro allI impI)
  fix r fuel assume r: "trimmed r" "follows ''|)&;'' r" and "4 * length (show_cmd 3 c @ r) + 2 \<le> fuel"
  then obtain f where f: "fuel = Suc f" by (cases fuel) auto
  let ?rs = "redirs c"
  have k: "\<forall>w \<in> set ws. word w" "length ws < MAXARGS" "\<forall>x \<in> set ?rs. redir_ok x"
    using base_redirs(3) [OF ok] b by auto
  have s: "show_cmd 3 c @ r = show_words ws @ concat (map show_redir ?rs) @ r"
    using base_redirs(2) [of c] b by simp
  have tr: "trimmed (show_words ws @ concat (map show_redir ?rs) @ r)" using k r trimmed_show(3,4) by blast
  have p: "peek (show_words ws @ concat (map show_redir ?rs) @ r) ''('' = (False, show_words ws @ concat (map show_redir ?rs) @ r)"
    using peek_trimmed [OF tr, of "''(''"] simple_start [OF k(1) r(2), of ?rs] by auto
  show "parseexec fuel (show_cmd 3 c @ r) = Parsed c r"
  proof (cases ws)
    case Nil
    have "parseredirs_loop (concat (map show_redir ?rs) @ r) = Parsed ?rs r"
      by (rule parseredirs_loop_show [OF k(3) r(1) redirs_stop(1) [OF r(2)]])
    moreover have "parseexec_loop (length r + 1) 0 r = Parsed ([], []) r"
      using parseexec_loop_show [of "[]" "[]" r 0 "length r + 1"] r
      by (simp add: MAXARGS_def del: parseexec_loop.simps)
    ultimately show ?thesis using p base_redirs(1) [of c] unfolding s f Nil b by (simp del: parseexec_loop.simps)
  next
    case (Cons v vs)
    let ?s = "show_words ws @ concat (map show_redir ?rs) @ r"
    have "\<not> (?s \<noteq> [] \<and> hd ?s \<in> set ''<>'')"
      unfolding Cons show_words_Cons by (rule redirs_stop(2)) (use k(1) Cons in simp)
    then have "parseredirs_loop ?s = Parsed [] ?s" using parseredirs_loop_show [of "[]" ?s] tr by simp
    moreover have "parseexec_loop (length ?s + 1) 0 ?s = Parsed (ws, ?rs) r"
      by (rule parseexec_loop_show) (use k r Cons in auto)
    ultimately show ?thesis using p base_redirs(1) [of c] unfolding s f b by (simp del: parseexec_loop.simps)
  qed
qed

lemma trimmed_symbol: "c \<notin> set whitespace \<Longrightarrow> trimmed (c # s)"
  by (simp add: trimmed_iff)

lemma trimmed_cmd: "cmd_ok c \<Longrightarrow> trimmed r \<Longrightarrow> trimmed (show_cmd p c @ r)"
proof (induction c arbitrary: p r)
  case (Exec ws)
  then show ?case using trimmed_show(4) by simp
next
  case (Redir c f m d)
  then show ?case using trimmed_show(2) [of "(f, m, d)" r] by simp
next
  case (Pipe l q)
  then have "trimmed (show_cmd 3 l @ ''| '' @ show_cmd 2 q @ r)"
    using Pipe.IH(1) [of "''| '' @ show_cmd 2 q @ r" 3] by (simp add: trimmed_symbol whitespace_def)
  then show ?case by (simp add: paren_def trimmed_symbol whitespace_def)
next
  case (List l q)
  then have "trimmed (show_cmd 1 l @ ''; '' @ show_cmd 0 q @ r)"
    using List.IH(1) [of "''; '' @ show_cmd 0 q @ r" 1] by (simp add: trimmed_symbol whitespace_def)
  then show ?case by (simp add: paren_def trimmed_symbol whitespace_def)
next
  case (Back c)
  then have "trimmed (show_cmd 1 c @ ''& '' @ r)"
    using Back.IH [of "''& '' @ r" 1] by (simp add: trimmed_symbol whitespace_def)
  then show ?case by (simp add: paren_def trimmed_symbol whitespace_def)
qed

lemma peek_symbol: "c \<notin> set whitespace \<Longrightarrow> d \<noteq> CHR 0x00 \<Longrightarrow> peek (c # s) [d] = (c = d, c # s)"
  using peek_trimmed [OF trimmed_symbol, of c "[d]" s] by simp

lemma exec_paren:
  assumes ok: "cmd_ok c" and line: "line_ok (base c)"
    and sh: "show_cmd 3 (base c) = ''( '' @ show_cmd 0 (base c) @ '') ''"
  shows "exec_ok c"
  unfolding exec_ok_def
proof (intro allI impI)
  fix r fuel assume r: "trimmed r" "follows ''|)&;'' r" and fl: "4 * length (show_cmd 3 c @ r) + 2 \<le> fuel"
  let ?b = "base c" and ?rs = "redirs c"
  let ?t = "concat (map show_redir ?rs) @ r"
  obtain f where f: "fuel = Suc (Suc f)" using fl by (cases fuel; cases "fuel - 1") auto
  have k: "cmd_ok ?b" "\<forall>x \<in> set ?rs. redir_ok x" using base_redirs(3) [OF ok] by auto
  have t: "trimmed ?t" using r(1) by (rule trimmed_show)
  let ?u = "CHR '')'' # CHR '' '' # ?t"
  have s: "show_cmd 3 c @ r = CHR ''('' # CHR '' '' # show_cmd 0 ?b @ ?u" unfolding base_redirs(2) [of c] sh by simp
  have u: "trimmed ?u" "follows '')'' ?u" by (simp_all add: trimmed_symbol whitespace_def follows_def)
  have "4 * length (show_cmd 0 ?b @ ?u) + 4 \<le> f" using fl unfolding s f by simp
  then have pl: "parseline f (show_cmd 0 ?b @ ?u) = Parsed ?b ?u" using line u unfolding line_ok_def by blast
  have rd: "parseredirs ?b ?t = Parsed c r"
    using parseredirs_loop_show [OF k(2) r(1) redirs_stop(1) [OF r(2)]] by (simp add: parseredirs_def base_redirs(1))
  have g: "gettoken (CHR ''('' # CHR '' '' # show_cmd 0 ?b @ ?u) = (CHR ''('', ''('', show_cmd 0 ?b @ ?u)"
    "gettoken ?u = (CHR '')'', '')'', ?t)"
    using gettoken_symbol [OF _ trimmed_cmd [OF k(1) u(1)], of "CHR ''(''" 0] gettoken_symbol [OF _ t, of "CHR '')''"] by simp_all
  have p: "peek (CHR ''('' # x) ''('' = (True, CHR ''('' # x)" "peek (CHR '')'' # x) '')'' = (True, CHR '')'' # x)" for x
    by (simp_all add: peek_symbol whitespace_def)
  show "parseexec fuel (show_cmd 3 c @ r) = Parsed c r"
    unfolding s f by (simp add: p g pl rd)
qed

lemma follows_more: "follows '')&;'' r \<Longrightarrow> follows ''|)&;'' r" "follows '')'' r \<Longrightarrow> follows '')&;'' r"
  "follows '');'' r \<Longrightarrow> follows '')&;'' r" "follows '')'' r \<Longrightarrow> follows '');'' r"
  by (auto simp: follows_def)

lemma peek_no:
  "trimmed r \<Longrightarrow> follows cs r \<Longrightarrow> d \<notin> set cs \<Longrightarrow> d \<noteq> CHR 0x00 \<Longrightarrow> peek r [d] = (False, r)"
  by (auto simp: peek_trimmed follows_def)

lemma pipe_from_exec:
  assumes "exec_ok c" "show_cmd 2 c = show_cmd 3 c" shows "pipe_line_ok c"
  unfolding pipe_line_ok_def
proof (intro allI impI)
  fix r fuel assume r: "trimmed r" "follows '')&;'' r" and fl: "4 * length (show_cmd 2 c @ r) + 3 \<le> fuel"
  obtain f where f: "fuel = Suc f" using fl by (cases fuel) auto
  have "4 * length (show_cmd 3 c @ r) + 2 \<le> f" using fl f assms(2) by simp
  then have "parseexec f (show_cmd 3 c @ r) = Parsed c r" using assms(1) r follows_more(1) unfolding exec_ok_def by blast
  moreover have "peek r ''|'' = (False, r)" by (rule peek_no [OF r]) simp_all
  ultimately show "parsepipe fuel (show_cmd 2 c @ r) = Parsed c r" unfolding f assms(2) by simp
qed

lemma pipe_pipe:
  assumes l: "exec_ok l" and q: "pipe_line_ok q" "cmd_ok q" shows "pipe_line_ok (Pipe l q)"
  unfolding pipe_line_ok_def
proof (intro allI impI)
  fix r fuel assume r: "trimmed r" "follows '')&;'' r" and fl: "4 * length (show_cmd 2 (Pipe l q) @ r) + 3 \<le> fuel"
  obtain f where f: "fuel = Suc f" using fl by (cases fuel) auto
  let ?u = "CHR ''|'' # CHR '' '' # show_cmd 2 q @ r"
  have s: "show_cmd 2 (Pipe l q) @ r = show_cmd 3 l @ ?u" by (simp add: paren_def)
  have "trimmed ?u" "follows ''|)&;'' ?u" by (simp_all add: trimmed_symbol whitespace_def follows_def)
  moreover have "4 * length (show_cmd 3 l @ ?u) + 2 \<le> f" using fl unfolding s f by simp
  ultimately have e: "parseexec f (show_cmd 3 l @ ?u) = Parsed l ?u" using l unfolding exec_ok_def by blast
  have "4 * length (show_cmd 2 q @ r) + 3 \<le> f" using fl unfolding s f by simp
  then have pq: "parsepipe f (show_cmd 2 q @ r) = Parsed q r" using q(1) r unfolding pipe_line_ok_def by blast
  have "gettoken ?u = (CHR ''|'', ''|'', show_cmd 2 q @ r)"
    by (rule gettoken_symbol) (simp_all add: trimmed_cmd q(2) r(1))
  then show "parsepipe fuel (show_cmd 2 (Pipe l q) @ r) = Parsed (Pipe l q) r"
    unfolding s f by (simp add: e pq peek_symbol whitespace_def)
qed

primrec core :: "cmd \<Rightarrow> cmd" where
  "core (Back c) = core c"
| "core (Exec ws) = Exec ws" | "core (Pipe l r) = Pipe l r" | "core (List l r) = List l r"
| "core (Redir c f m d) = Redir c f m d"

primrec backs :: "cmd \<Rightarrow> nat" where
  "backs (Back c) = Suc (backs c)"
| "backs (Exec ws) = 0" | "backs (Pipe l r) = 0" | "backs (List l r) = 0" | "backs (Redir c f m d) = 0"

definition ands :: "nat \<Rightarrow> string" where
  "ands n = concat (replicate n ''& '')"

lemma ands_simps [simp]: "ands 0 = []" "ands (Suc n) = CHR ''&'' # CHR '' '' # ands n"
  by (simp_all add: ands_def)

lemma ands_snoc: "ands n @ CHR ''&'' # CHR '' '' # s = ands (Suc n) @ s"
  by (induction n) simp_all

lemma core_backs: "(Back ^^ backs c) (core c) = c" "show_cmd 1 c = show_cmd 2 (core c) @ ands (backs c)"
proof (induction c)
  case (Back c)
  { case 1 show ?case using Back.IH(1) by simp
  next case 2 show ?case using Back.IH(2) ands_snoc [of "backs c" "[]"] by (simp add: paren_def) }
qed (simp_all add: paren_def)

lemma trimmed_ands: "trimmed r \<Longrightarrow> trimmed (ands n @ r)" "follows '');'' r \<Longrightarrow> follows '')&;'' (ands n @ r)"
  by (cases n; auto simp: trimmed_symbol whitespace_def follows_def)+

lemma parseback_loop_show:
  "trimmed r \<Longrightarrow> follows '');'' r \<Longrightarrow> length (ands n @ r) < fuel \<Longrightarrow>
   parseback_loop fuel c (ands n @ r) = Parsed ((Back ^^ n) c) r"
proof (induction n arbitrary: fuel c)
  case 0
  then obtain f where "fuel = Suc f" by (cases fuel) auto
  then show ?case using peek_no [OF 0(1,2), of "CHR ''&''"] by simp
next
  case (Suc n)
  then obtain f where f: "fuel = Suc f" by (cases fuel) auto
  have "gettoken (CHR ''&'' # CHR '' '' # ands n @ r) = (CHR ''&'', ''&'', ands n @ r)"
    by (rule gettoken_symbol) (simp_all add: trimmed_ands Suc.prems)
  then show ?case using Suc unfolding f by (simp add: peek_symbol whitespace_def funpow_swap1)
qed

lemma line_head:
  assumes "pipe_line_ok (core c)" "trimmed r" "follows '');'' r" "4 * length (show_cmd 1 c @ r) + 3 \<le> f"
  shows "pbind (parsepipe f (show_cmd 1 c @ r)) (\<lambda>cmd s. pbind (parseback_loop (length s + 1) cmd s) k) = k c r"
proof -
  let ?t = "ands (backs c) @ r"
  have s: "show_cmd 1 c @ r = show_cmd 2 (core c) @ ?t" using core_backs(2) [of c] by simp
  have "parsepipe f (show_cmd 2 (core c) @ ?t) = Parsed (core c) ?t"
    using assms(1,4) trimmed_ands [of r "backs c"] assms(2,3) unfolding s pipe_line_ok_def by blast
  moreover have "parseback_loop (length ?t + 1) (core c) ?t = Parsed c r"
    using parseback_loop_show [OF assms(2,3), of "backs c" "length ?t + 1" "core c"] core_backs(1) [of c] by simp
  ultimately show ?thesis unfolding s by (simp del: parseback_loop.simps)
qed

lemma line_single:
  assumes c: "pipe_line_ok (core c)" and "show_cmd 0 c = show_cmd 1 c" shows "line_ok c"
  unfolding line_ok_def
proof (intro allI impI)
  fix r fuel assume r: "trimmed r" "follows '')'' r" and fl: "4 * length (show_cmd 0 c @ r) + 4 \<le> fuel"
  obtain f where f: "fuel = Suc f" using fl by (cases fuel) auto
  have "4 * length (show_cmd 1 c @ r) + 3 \<le> f" using fl assms(2) f by simp
  note h = line_head [OF c r(1) follows_more(4) [OF r(2)] this]
  have "peek r '';'' = (False, r)" by (rule peek_no [OF r]) simp_all
  then show "parseline fuel (show_cmd 0 c @ r) = Parsed c r" unfolding f assms(2) parseline.simps h by simp
qed

lemma line_list:
  assumes l: "pipe_line_ok (core l)" and q: "line_ok q" "cmd_ok q" shows "line_ok (List l q)"
  unfolding line_ok_def
proof (intro allI impI)
  fix r fuel assume r: "trimmed r" "follows '')'' r" and fl: "4 * length (show_cmd 0 (List l q) @ r) + 4 \<le> fuel"
  obtain f where f: "fuel = Suc f" using fl by (cases fuel) auto
  let ?u = "CHR '';'' # CHR '' '' # show_cmd 0 q @ r"
  have s: "show_cmd 0 (List l q) @ r = show_cmd 1 l @ ?u" by (simp add: paren_def)
  have u: "trimmed ?u" "follows '');'' ?u" by (simp_all add: trimmed_symbol whitespace_def follows_def)
  have "4 * length (show_cmd 1 l @ ?u) + 3 \<le> f" using fl unfolding s f by simp
  note h = line_head [OF l u this]
  have "4 * length (show_cmd 0 q @ r) + 4 \<le> f" using fl unfolding s f by simp
  then have pq: "parseline f (show_cmd 0 q @ r) = Parsed q r" using q(1) r unfolding line_ok_def by blast
  have "gettoken ?u = (CHR '';'', '';'', show_cmd 0 q @ r)"
    by (rule gettoken_symbol) (simp_all add: trimmed_cmd q(2) r(1))
  then show "parseline fuel (show_cmd 0 (List l q) @ r) = Parsed (List l q) r"
    unfolding s f parseline.simps h by (simp add: pq peek_symbol whitespace_def)
qed

lemma base_shape:
  "(\<exists>ws. base c = Exec ws) \<or> show_cmd 3 (base c) = ''( '' @ show_cmd 0 (base c) @ '') ''"
  by (induction c) (simp_all add: paren_def)

lemma all_levels: "cmd_ok c \<Longrightarrow> exec_ok c \<and> pipe_line_ok c \<and> line_ok c \<and> pipe_line_ok (core c)"
proof (induction c rule: measure_induct_rule [of size])
  case (less c)
  have ex: "exec_ok c" if "line_ok (base c) \<or> (\<exists>ws. base c = Exec ws)"
    using that base_shape [of c] exec_simple [OF less.prems] exec_paren [OF less.prems] by blast
  show ?case
  proof (cases c)
    case (Exec ws)
    then have "exec_ok c" using ex by simp
    then show ?thesis using pipe_from_exec [of c] line_single [of c] Exec by simp
  next
    case (Redir d f m x)
    have "size (base d) < size c" "cmd_ok (base d)"
      using base_redirs(3,4) [of d] less.prems Redir by auto
    then have "line_ok (base c)" using less.IH [of "base d"] Redir by simp
    then have "exec_ok c" using ex by simp
    then show ?thesis using pipe_from_exec [of c] line_single [of c] Redir by simp
  next
    case (Pipe l q)
    then have "pipe_line_ok c" using pipe_pipe [of l q] less.IH [of l] less.IH [of q] less.prems by simp
    then show ?thesis using line_single [of c] ex Pipe by (simp add: paren_def)
  next
    case (List l q)
    then have "line_ok c" using line_list [of l q] less.IH [of l] less.IH [of q] less.prems by simp
    then show ?thesis using ex pipe_from_exec [of c] List by (simp add: paren_def)
  next
    case (Back d)
    then have "pipe_line_ok (core c)" using less.IH [of d] less.prems by simp
    then show ?thesis using line_single [of c] ex pipe_from_exec [of c] Back by (simp add: paren_def)
  qed
qed

text \<open>
  C25. Every command that has a spelling is what the parser makes of that spelling: for each tree of
  commands with at most nine arguments each, whose arguments and file names are non-empty words without
  blanks and symbols and whose redirections have one of the three forms, \<^verbatim>\<open>parsecmd\<close> of its printed form
  returns that tree. Hence the parser groups \<^verbatim>\<open>|\<close>, \<^verbatim>\<open>&\<close>, \<^verbatim>\<open>;\<close>, parentheses and redirections as the printer
  spells them.
\<close>

theorem parsecmd_show_cmd:
  assumes "cmd_ok c" shows "parsecmd (show_cmd 0 c) = Parsed c []"
proof -
  have "parseline (4 * length (show_cmd 0 c) + 4) (show_cmd 0 c @ []) = Parsed c []"
    using all_levels [OF assms] unfolding line_ok_def
    by (elim conjE allE [of _ "[]"] allE [of _ "4 * length (show_cmd 0 c) + 4"])
      (simp add: trimmed_def skip_white_def follows_def)
  then show ?thesis by (simp add: parsecmd_def peek_def skip_white_def)
qed

theorem parsecmd_show_cmd_witness:
  "parsecmd ''( a | b < f ; c & ) >> g '' =
     Parsed (Redir (List (Pipe (Exec [''a'']) (Redir (Exec [''b'']) ''f'' O_RDONLY 0)) (Back (Exec [''c''])))
       ''g'' (O_WRONLY OR O_CREATE) 1) []"
proof -
  let ?c = "Redir (List (Pipe (Exec [''a'']) (Redir (Exec [''b'']) ''f'' O_RDONLY 0)) (Back (Exec [''c''])))
       ''g'' (O_WRONLY OR O_CREATE) 1"
  have "cmd_ok ?c"
    by (simp add: redir_ok_def word_def word_char_def white_iff symbol_set MAXARGS_def) (simp add: symbols_def)
  moreover have "show_cmd 0 ?c = ''( a | b < f ; c & ) >> g ''"
    by (simp add: show_words_def show_redir_def paren_def modes)
  ultimately show ?thesis using parsecmd_show_cmd [of ?c] by simp
qed

end
