(* ===== verification/Uprog.thy ===== *)
theory Uprog
  imports Grep Fs "HOL-Library.Signed_Division"
begin

text \<open>
  User programs at the level of their system calls: \<^verbatim>\<open>wc\<close>, \<^verbatim>\<open>cat\<close>, \<^verbatim>\<open>echo\<close>, \<^verbatim>\<open>primes\<close>, \<^verbatim>\<open>xargs\<close> and \<^verbatim>\<open>find\<close>. The results of
  \<^verbatim>\<open>read()\<close> are a list of pieces, whose end is the end of the file. Of what the programs print, the arguments of
  \<^verbatim>\<open>printf\<close> are kept. Behaviour that C leaves undefined is \<^const>\<open>None\<close>, or an item of the output.
\<close>

section \<open>\<^verbatim>\<open>wc.c\<close>, \<^verbatim>\<open>cat.c\<close>, \<^verbatim>\<open>echo.c\<close>\<close>

datatype rd = Data string | RdErr

definition wc_space :: string where
  "wc_space = [CHR '' '', CHR 0x0D, CHR 0x09, CHR 0x0A, CHR 0x0B]"

fun wc_char :: "char \<Rightarrow> int \<times> int \<times> int \<times> bool \<Rightarrow> int \<times> int \<times> int \<times> bool" where
  "wc_char ch (l, w, c, inword) =
     (let c' = c + 1; l' = (if ch = newline_char then l + 1 else l)
      in if strchr wc_space ch \<noteq> None then (l', w, c', False)
         else if \<not> inword then (l', w + 1, c', True)
         else (l', w, c', inword))"

fun wc_loop :: "rd list \<Rightarrow> int \<times> int \<times> int \<times> bool \<Rightarrow> (int \<times> int \<times> int \<times> bool) option" where
  "wc_loop [] st = Some st"
| "wc_loop (RdErr # rs) st = None"
| "wc_loop (Data cs # rs) st = (if cs = [] then Some st else wc_loop rs (fold wc_char cs st))"

datatype wcout = WcCounts int int int string | WcReadError | WcCannotOpen string

definition wc :: "rd list \<Rightarrow> string \<Rightarrow> wcout" where
  "wc rs name = (case wc_loop rs (0, 0, 0, False) of None \<Rightarrow> WcReadError | Some (l, w, c, _) \<Rightarrow> WcCounts l w c name)"

text \<open>\<open>opn\<close> gives the pieces that the file of a name yields, or \<^const>\<open>None\<close> when it does not open.\<close>

primrec wc_files :: "(string \<Rightarrow> rd list option) \<Rightarrow> string list \<Rightarrow> wcout list" where
  "wc_files opn [] = []"
| "wc_files opn (a # as) =
     (case opn a of
        None \<Rightarrow> [WcCannotOpen a]
      | Some rs \<Rightarrow> (case wc rs a of WcReadError \<Rightarrow> [WcReadError] | x \<Rightarrow> x # wc_files opn as))"

definition wc_main :: "(string \<Rightarrow> rd list option) \<Rightarrow> rd list \<Rightarrow> string list \<Rightarrow> wcout list" where
  "wc_main opn stdin argv = (if length argv \<le> 1 then [wc stdin ''''] else wc_files opn (tl argv))"

datatype catend = CatOk | CatWriteError | CatReadError

text \<open>\<open>wr k s\<close> is what the \<open>k\<close>-th \<^verbatim>\<open>write()\<close> returns for \<open>s\<close>; the result has the pieces given to \<^verbatim>\<open>write()\<close>.\<close>

fun cat :: "(nat \<Rightarrow> string \<Rightarrow> int) \<Rightarrow> nat \<Rightarrow> rd list \<Rightarrow> string list \<times> catend" where
  "cat wr k [] = ([], CatOk)"
| "cat wr k (RdErr # rs) = ([], CatReadError)"
| "cat wr k (Data cs # rs) =
     (if cs = [] then ([], CatOk)
      else if wr k cs \<noteq> int (length cs) then ([cs], CatWriteError)
      else let (ws, e) = cat wr (Suc k) rs in (cs # ws, e))"

primrec echo_args :: "string list \<Rightarrow> string" where
  "echo_args [] = []"
| "echo_args (a # as) = a @ (if as \<noteq> [] then '' '' else [newline_char]) @ echo_args as"

definition echo_main :: "string list \<Rightarrow> string" where
  "echo_main argv = echo_args (tl argv)"

section \<open>\<^verbatim>\<open>primes.c\<close>\<close>

text \<open>
  What one process of the pipeline writes to the next, from what it reads after its first number: the loop
  ends at the end of the pipe or at \<open>- 1\<close>.
\<close>

primrec sieve_loop :: "int \<Rightarrow> int list \<Rightarrow> int list" where
  "sieve_loop p [] = []"
| "sieve_loop p (b # bs) = (if b = - 1 then [] else if b smod p \<noteq> 0 then b # sieve_loop p bs else sieve_loop p bs)"

lemma sieve_loop_eq: "sieve_loop p bs = filter (\<lambda>b. b smod p \<noteq> 0) (takeWhile (\<lambda>b. b \<noteq> - 1) bs)"
  by (induction bs) auto

lemma sieve_loop_ends: "takeWhile (\<lambda>b. b \<noteq> - 1) (sieve_loop p bs @ [- 1]) = sieve_loop p bs"
  by (induction bs) auto

text \<open>
  The numbers that the pipeline prints from the contents of its first pipe. Each process prints its number
  before it forks the next, so the order is fixed. A \<^verbatim>\<open>read()\<close> from an empty pipe leaves \<^verbatim>\<open>prime\<close> undefined.
\<close>

function traversal :: "int list \<Rightarrow> int list option" where
  "traversal [] = None"
| "traversal (prime # p) =
     (if prime = - 1 then Some [] else map_option (\<lambda>ps. prime # ps) (traversal (sieve_loop prime p @ [- 1])))"
  by pat_completeness auto
termination
  by (relation "measure (\<lambda>bs. length (takeWhile (\<lambda>b. b \<noteq> - 1) bs))")
    (auto simp: sieve_loop_ends less_Suc_eq_le, simp add: sieve_loop_eq length_filter_le)

definition primes_input :: "int \<Rightarrow> int list" where
  "primes_input n = [2..n] @ [- 1]"

definition primes_main :: "int list option" where
  "primes_main = traversal (primes_input 35)"

section \<open>\<^verbatim>\<open>xargs.c\<close>\<close>

text \<open>
  The state of the loop: the number of bytes read, the bytes from \<^verbatim>\<open>last_p\<close> on, the arguments stored since
  \<^verbatim>\<open>args\<close>, and the argument vectors of the calls of \<^verbatim>\<open>run\<close>. Storing past the end of \<^verbatim>\<open>buf\<close> or \<^verbatim>\<open>argsbuf\<close> is
  undefined.
\<close>

fun xargs_loop :: "string list \<Rightarrow> nat \<Rightarrow> string \<Rightarrow> string list \<Rightarrow> string \<Rightarrow> string list list option" where
  "xargs_loop args n tok pa [] =
     (if pa = [] then Some [] else if 128 \<le> length args + length pa then None else Some [args @ pa])"
| "xargs_loop args n tok pa (ch # input) =
     (if 2048 \<le> n then None
      else if ch = CHR '' '' \<or> ch = newline_char then
        (if 128 \<le> length args + length pa then None
         else if ch = CHR '' '' then xargs_loop args (n + 1) [] (pa @ [tok]) input
         else if 128 \<le> length args + length pa + 1 then None
         else map_option (\<lambda>rs. (args @ pa @ [tok]) # rs) (xargs_loop args (n + 1) [] [] input))
      else xargs_loop args (n + 1) (tok @ [ch]) pa input)"

definition xargs_main :: "string list \<Rightarrow> string \<Rightarrow> string list list option" where
  "xargs_main argv input = (if 128 < length (tl argv) then None else xargs_loop (tl argv) 0 [] [] input)"

section \<open>\<^verbatim>\<open>find.c\<close>\<close>

text \<open>
  \<open>opn path\<close> is what opening the path gives: the type that \<^verbatim>\<open>fstat\<close> reports, and the entries of a directory with
  their inode numbers. Type 1 is \<^verbatim>\<open>T_DIR\<close> and 2 is \<^verbatim>\<open>T_FILE\<close>. A suffix that
  would start before the string is undefined, and so is a name that does not fit in \<^verbatim>\<open>target\<close>.
\<close>

datatype fout = Found string | CannotOpen string | CannotStat string | TooLong | UndefinedAccess | OutOfFuel

definition suffix_at :: "string \<Rightarrow> string \<Rightarrow> bool option" where
  "suffix_at s t = (if length s < length t then None else Some (drop (length s - length t) s = t))"

definition cname :: "string \<Rightarrow> string" where
  "cname name = takeWhile (\<lambda>c. c \<noteq> CHR 0x00) (take DIRSIZ name)"

definition find_entry ::
  "(string \<Rightarrow> (nat option \<times> (nat \<times> string) list) option) \<Rightarrow> (string \<Rightarrow> fout list) \<Rightarrow> string \<Rightarrow> nat \<times> string \<Rightarrow> fout list" where
  "find_entry opn rec path de =
     (let buf = path @ ''/'' @ cname (snd de) in
      if fst de = 0 then []
      else if (case opn buf of Some (Some _, _) \<Rightarrow> False | _ \<Rightarrow> True) then [CannotStat buf]
      else case suffix_at buf ''/.'' of
        None \<Rightarrow> [UndefinedAccess]
      | Some True \<Rightarrow> []
      | Some False \<Rightarrow>
          (case suffix_at buf ''/..'' of None \<Rightarrow> [UndefinedAccess] | Some True \<Rightarrow> [] | Some False \<Rightarrow> rec buf))"

primrec find_path ::
  "nat \<Rightarrow> (string \<Rightarrow> (nat option \<times> (nat \<times> string) list) option) \<Rightarrow> string \<Rightarrow> string \<Rightarrow> fout list" where
  "find_path 0 opn target path = [OutOfFuel]"
| "find_path (Suc fuel) opn target path =
     (case opn path of
        None \<Rightarrow> [CannotOpen path]
      | Some (None, _) \<Rightarrow> [CannotStat path]
      | Some (Some ty, des) \<Rightarrow>
          if ty = 2 then
            (case suffix_at path target of None \<Rightarrow> [UndefinedAccess] | Some b \<Rightarrow> if b then [Found path] else [])
          else if ty = 1 then
            (if 512 < length path + 1 + DIRSIZ + 1 then [TooLong]
             else concat (map (find_entry opn (find_path fuel opn target) path) des))
          else [])"

definition find_main :: "(string \<Rightarrow> (nat option \<times> (nat \<times> string) list) option) \<Rightarrow> string list \<Rightarrow> fout list" where
  "find_main opn argv = (if length argv < 3 then []
      else if 510 < length (argv ! 2) then [UndefinedAccess]
      else find_path 512 opn (''/'' @ argv ! 2) (argv ! 1))"

section \<open>Counting\<close>

text \<open>The pieces in which \<^verbatim>\<open>read()\<close> returns a file do not matter.\<close>

lemma wc_loop_concat:
  "(\<forall>c \<in> set cs. c \<noteq> []) \<Longrightarrow> wc_loop (map Data cs) st = Some (fold wc_char (concat cs) st)"
  by (induction cs arbitrary: st) auto

lemma wc_char_simps:
  "fst (wc_char ch st) = fst st + (if ch = newline_char then 1 else 0)"
  "fst (snd (snd (wc_char ch st))) = fst (snd (snd st)) + 1"
  by (cases st; simp add: Let_def)+

lemma wc_counts:
  "fst (fold wc_char s st) = fst st + int (length (filter (\<lambda>x. x = newline_char) s)) \<and>
   fst (snd (snd (fold wc_char s st))) = fst (snd (snd st)) + int (length s)"
proof (induction s arbitrary: st)
  case (Cons ch s)
  show ?case using Cons.IH [of "wc_char ch st"] by (simp add: wc_char_simps)
qed simp

section \<open>Fuel of \<^verbatim>\<open>find\<close>\<close>

text \<open>The limit on the length of paths bounds the depth of the recursion.\<close>

lemma find_entry_fuel:
  assumes "\<And>name. OutOfFuel \<notin> set (rec (path @ ''/'' @ name))"
  shows "OutOfFuel \<notin> set (find_entry opn rec path de)"
  using assms by (auto simp: find_entry_def Let_def split: option.splits bool.splits)

lemma find_path_fuel: "0 < fuel \<Longrightarrow> 498 \<le> fuel + length path \<Longrightarrow> OutOfFuel \<notin> set (find_path fuel opn target path)"
proof (induction fuel arbitrary: path)
  case (Suc fuel)
  have "OutOfFuel \<notin> set (find_entry opn (find_path fuel opn target) path de)" if "length path + 16 \<le> 512" for de
    by (rule find_entry_fuel, rule Suc.IH) (use Suc.prems that in auto)
  then show ?case by (auto simp: DIRSIZ_def split: option.splits if_splits)
qed simp

lemma find_main_fuel: "OutOfFuel \<notin> set (find_main opn argv)"
  unfolding find_main_def using find_path_fuel [of 512] by simp

section \<open>Lines of \<^verbatim>\<open>xargs\<close>\<close>

lemma xargs_token:
  "\<forall>c \<in> set t. c \<noteq> CHR '' '' \<and> c \<noteq> newline_char \<Longrightarrow> n + length t \<le> 2048 \<Longrightarrow>
    xargs_loop args n tok pa (t @ input) = xargs_loop args (n + length t) (tok @ t) pa input"
  by (induction t arbitrary: n tok) auto

text \<open>The words of a line that a newline ends are the arguments of one call.\<close>

lemma xargs_line:
  assumes "\<forall>t \<in> set (ts @ [u]). \<forall>c \<in> set t. c \<noteq> CHR '' '' \<and> c \<noteq> newline_char"
    and "n + length (concat (map (\<lambda>t. t @ '' '') ts)) + length u < 2048"
    and "length args + length pa + length ts + 1 < 128"
  shows "xargs_loop args n [] pa (concat (map (\<lambda>t. t @ '' '') ts) @ u @ newline_char # input) =
    map_option (\<lambda>rs. (args @ pa @ ts @ [u]) # rs)
      (xargs_loop args (n + length (concat (map (\<lambda>t. t @ '' '') ts)) + length u + 1) [] [] input)"
  using assms
proof (induction ts arbitrary: n pa)
  case Nil
  then show ?case using xargs_token [of u n args "[]" pa "newline_char # input"] by (simp add: newline_char_def)
next
  case (Cons t ts)
  have "xargs_loop args n [] pa (t @ '' '' @ concat (map (\<lambda>t. t @ '' '') ts) @ u @ newline_char # input) =
      xargs_loop args (n + length t + 1) [] (pa @ [t]) (concat (map (\<lambda>t. t @ '' '') ts) @ u @ newline_char # input)"
    using Cons.prems xargs_token [of t n args "[]" pa] by simp
  also have "\<dots> = map_option (\<lambda>rs. (args @ (pa @ [t]) @ ts @ [u]) # rs)
      (xargs_loop args (n + length t + 1 + length (concat (map (\<lambda>t. t @ '' '') ts)) + length u + 1) [] [] input)"
    by (rule Cons.IH) (use Cons.prems in auto)
  finally show ?case by (simp add: add_ac)
qed

text \<open>Without the newline, the last word is lost.\<close>

lemma xargs_drops_last: "xargs_main [''xargs'', ''echo''] ''a b'' = Some [[''echo'', ''a'']]"
  by (simp add: xargs_main_def newline_char_def)

section \<open>The sieve\<close>

lemma smod_dvd: "0 < p \<Longrightarrow> 0 \<le> b \<Longrightarrow> b smod p \<noteq> 0 \<longleftrightarrow> \<not> p dvd b" for p b :: int
  by (cases "b = 0") (simp_all add: signed_modulo_int_def signed_divide_int_def dvd_eq_mod_eq_0 minus_div_mult_eq_mod)

lemma traversal_filter:
  "sorted_wrt (<) xs \<Longrightarrow> \<forall>x \<in> set xs. 0 < x \<Longrightarrow>
    traversal (xs @ [- 1]) = Some (filter (\<lambda>x. \<forall>y \<in> set xs. y < x \<longrightarrow> \<not> y dvd x) xs)"
proof (induction "length xs" arbitrary: xs rule: less_induct)
  case less
  show ?case
  proof (cases xs)
    case (Cons p r)
    let ?f = "filter (\<lambda>x. \<not> p dvd x) r"
    have r: "sorted_wrt (<) r" "\<forall>x \<in> set r. p < x" "0 < p" "\<forall>x \<in> set r. 0 < x" using less.prems Cons by auto
    have tw: "takeWhile (\<lambda>b. b \<noteq> - 1) (r @ [- 1]) = r" using r(4) by (induction r) auto
    have "sieve_loop p (r @ [- 1]) = ?f"
      unfolding sieve_loop_eq tw by (rule filter_cong) (use r smod_dvd in auto)
    moreover have "traversal (?f @ [- 1]) = Some (filter (\<lambda>x. \<forall>y \<in> set ?f. y < x \<longrightarrow> \<not> y dvd x) ?f)"
      by (rule less.hyps) (use r Cons in \<open>auto intro: sorted_wrt_filter le_imp_less_Suc\<close>)
    moreover have "filter (\<lambda>x. \<forall>y \<in> set ?f. y < x \<longrightarrow> \<not> y dvd x) ?f = filter (\<lambda>x. \<forall>y \<in> set xs. y < x \<longrightarrow> \<not> y dvd x) r"
      unfolding filter_filter Cons by (rule filter_cong) (use r in \<open>auto dest: dvd_trans\<close>)
    moreover have "\<forall>y \<in> set xs. y < p \<longrightarrow> \<not> y dvd p" using r(2) Cons by auto
    ultimately show ?thesis using r(3) by (simp add: Cons)
  qed simp
qed

definition is_prime :: "int \<Rightarrow> bool" where
  "is_prime x \<longleftrightarrow> 2 \<le> x \<and> (\<forall>d. 0 < d \<and> d dvd x \<longrightarrow> d = 1 \<or> d = x)"

text \<open>
  C40. The pipeline of \<^verbatim>\<open>primes\<close> prints the primes up to its bound, in increasing order, whatever the bound, as long as
  its calls of \<^verbatim>\<open>fork()\<close> and \<^verbatim>\<open>pipe()\<close> succeed;
  the program itself, with its bound of 35, prints the eleven primes up to 31 and ends.
\<close>

theorem primes_prints_primes:
  "traversal (primes_input n) = Some (filter is_prime [2..n]) \<and> primes_main = Some [2, 3, 5, 7, 11, 13, 17, 19, 23, 29, 31]"
proof
  have "traversal (primes_input n) = Some (filter (\<lambda>x. \<forall>y \<in> set [2..n]. y < x \<longrightarrow> \<not> y dvd x) [2..n])"
    unfolding primes_input_def by (rule traversal_filter) (auto simp: sorted_wrt_upto)
  also have "filter (\<lambda>x. \<forall>y \<in> set [2..n]. y < x \<longrightarrow> \<not> y dvd x) [2..n] = filter is_prime [2..n]"
  proof (rule filter_cong [OF refl])
    fix x assume x: "x \<in> set [2..n]"
    have "(\<forall>y \<in> set [2..n]. y < x \<longrightarrow> \<not> y dvd x) \<longleftrightarrow> (\<forall>d. 0 < d \<and> d dvd x \<longrightarrow> d = 1 \<or> d = x)"
    proof
      assume a: "\<forall>y \<in> set [2..n]. y < x \<longrightarrow> \<not> y dvd x"
      show "\<forall>d. 0 < d \<and> d dvd x \<longrightarrow> d = 1 \<or> d = x"
      proof (intro allI impI)
        fix d assume d: "0 < d \<and> d dvd x"
        then have "d \<le> x" using x by (auto intro: zdvd_imp_le)
        then show "d = 1 \<or> d = x" using a [rule_format, of d] d x by force
      qed
    next
      assume a: "\<forall>d. 0 < d \<and> d dvd x \<longrightarrow> d = 1 \<or> d = x"
      show "\<forall>y \<in> set [2..n]. y < x \<longrightarrow> \<not> y dvd x"
      proof (intro ballI impI notI)
        fix y assume "y \<in> set [2..n]" "y < x" "y dvd x"
        then show False using a [rule_format, of y] by simp
      qed
    qed
    then show "(\<forall>y \<in> set [2..n]. y < x \<longrightarrow> \<not> y dvd x) = is_prime x" using x by (simp add: is_prime_def)
  qed
  finally show "traversal (primes_input n) = Some (filter is_prime [2..n])" .
  show "primes_main = Some [2, 3, 5, 7, 11, 13, 17, 19, 23, 29, 31]"
    by code_simp
qed

end
