(* ===== verification/Spec2Isabelle.thy ===== *)
theory Spec2Isabelle
  imports Trap Pipeio Uartq Strcheck Filetab Wakeup Bshare Inodes Ulib Shprint Uprog
begin

text \<open>
  A verification development for the xv6 kernel of this repository (\<^verbatim>\<open>src/kernel\<close>) and some of its
  user programs (\<^verbatim>\<open>src/user\<close>).

  \<^bold>\<open>How code is modelled.\<close> A C function of the kernel is a function of the state monad of \<open>Prelude\<close>. It
  takes the state of the kernel and a list of steps of the rest of the machine, and yields a value
  with the new state (\<open>Ret\<close>), the message of a \<^verbatim>\<open>panic()\<close> (\<open>Panic\<close>), or the state in which it waits
  with no step left to wait for (\<open>Blocked\<close>). The code waits where it spins on a lock and where
  \<^verbatim>\<open>swtch\<close> gives up the hart; there the next step of the list changes the state. The state is the
  record \<open>kernel\<close> of \<open>Kernel_State\<close>, with one field per global variable and a byte-addressed physical
  memory that holds page tables, the free list and user pages. Unsigned integers have
  the width they have in C; an \<^verbatim>\<open>int\<close> is an integer, since its overflow is undefined in C. Where a routine
  can leave the range of \<^verbatim>\<open>int\<close> on an argument in range (\<open>printint_buf\<close>, \<open>uprintint\<close>, \<open>uatoi\<close>), the result is
  \<open>None\<close>.

  \<^bold>\<open>Loops.\<close> A loop without a structural bound has fuel, and running out of it is \<open>Blocked\<close>. A theorem
  that a function yields \<open>Ret\<close> therefore includes that the fuel is enough.
  \<^item> \<open>freerange\<close>: one round per page below the end of memory.
  \<^item> \<open>uvmalloc\<close>: one round per page of the user address space.
  \<^item> \<open>freewalk\<close>: three levels.
  \<^item> \<open>copyout\<close>, \<open>copyin\<close>: each round moves a byte at least.
  \<^item> The parser of the shell: four calls per character.
  \<^item> The walks along the list of buffers: one round per buffer.
  \<^item> \<open>find_path\<close>: one level per character of the longest path that \<^verbatim>\<open>find\<close> follows.
  \<^item> Loops that sleep: one round per step of the environment.

  \<^bold>\<open>Models of code.\<close>
  \<^item> \<open>Prelude\<close>, \<open>Memory\<close>, \<open>Layout\<close>: the monad, word and list lemmas, byte memory, the layout of structures.
  \<^item> \<open>Riscv\<close>, \<open>Kernel_State\<close>: constants, registers and the structures of the header files.
  \<^item> \<open>Strings\<close> (\<^verbatim>\<open>string.c\<close>), \<open>Spinlock\<close> (\<^verbatim>\<open>spinlock.c\<close>), \<open>Kalloc\<close> (\<^verbatim>\<open>kalloc.c\<close>), \<open>Vm\<close> (\<^verbatim>\<open>vm.c\<close>),
    \<open>Proc\<close> and \<open>Process\<close> (\<^verbatim>\<open>proc.c\<close>), \<open>Sleeplock\<close> (\<^verbatim>\<open>sleeplock.c\<close>).
  \<^item> \<open>Bio\<close> (\<^verbatim>\<open>bio.c\<close>), \<open>Log\<close> (\<^verbatim>\<open>log.c\<close>), \<open>Fs\<close> (\<^verbatim>\<open>fs.c\<close>), \<open>Virtio\<close> (\<^verbatim>\<open>virtio_disk.c\<close>).
  \<^item> \<open>Uart\<close>, \<open>Printf\<close>, \<open>Console\<close>: the source files of the same names.
  \<^item> \<open>File\<close> (\<^verbatim>\<open>file.c\<close>, \<^verbatim>\<open>pipe.c\<close>), \<open>Syscall\<close> (\<^verbatim>\<open>syscall.c\<close>, \<^verbatim>\<open>sysproc.c\<close>, \<^verbatim>\<open>sysfile.c\<close>), \<open>Trap\<close>
    (\<^verbatim>\<open>trap.c\<close>, \<^verbatim>\<open>main.c\<close>, parts of \<^verbatim>\<open>plic.c\<close>).
  \<^item> \<open>Grep\<close>: \<^verbatim>\<open>user/grep.c\<close> without its \<^verbatim>\<open>main\<close>. \<open>Sh\<close>: the parser of \<^verbatim>\<open>user/sh.c\<close>.
    \<open>Ulib\<close>: routines of \<^verbatim>\<open>user/ulib.c\<close> and \<^verbatim>\<open>user/printf.c\<close>. \<open>Uprog\<close>: \<^verbatim>\<open>primes\<close>, \<^verbatim>\<open>xargs\<close>, \<^verbatim>\<open>find\<close>,
    \<^verbatim>\<open>wc\<close>, \<^verbatim>\<open>cat\<close> and \<^verbatim>\<open>echo\<close>.

  \<^bold>\<open>What is proved.\<close>
  \<^item> \<open>Spinlock\<close>: no two harts are inside the same lock, and a hart inside a lock has interrupts off, in every
    reachable state; a critical section restores the machine state. The locale \<open>step_system\<close> carries the
    invariant proof, here and in the other systems of steps below.
  \<^item> \<open>Kalloc\<close>: the free list holds each usable page once; allocation and release against the locale
    \<open>page_allocator\<close>.
  \<^item> \<open>Paging\<close>, \<open>Uvm\<close>, \<open>Uvmfree\<close>: page tables in memory; growing an address space takes effect fully or
    not at all, and freeing one returns every page.
  \<^item> \<open>Copy\<close>: \<^verbatim>\<open>copyout\<close> and \<^verbatim>\<open>copyin\<close> on user memory, errors included.
  \<^item> \<open>Sched\<close>: the effect of \<^verbatim>\<open>wakeup\<close> and of \<^verbatim>\<open>sleep\<close> on a hart that finds the locks free. \<open>Wakeup\<close>: \<^verbatim>\<open>sleep\<close>
    on one hart and \<^verbatim>\<open>wakeup\<close> on another, interleaved statement by statement; no wakeup is lost. An
    \<^verbatim>\<open>acquire\<close>, a \<^verbatim>\<open>release\<close> and the \<^verbatim>\<open>if\<close> of \<^verbatim>\<open>wakeup\<close> are one step each.
  \<^item> \<open>Ring\<close>, \<open>Pipe\<close>, \<open>Pipeio\<close>: rings with wrapping counters are bounded queues (locale
    \<open>bounded_queue\<close>), the ring of a pipe is one, and \<^verbatim>\<open>pipewrite\<close> and \<^verbatim>\<open>piperead\<close> that need not wait
    append to it and take from it.
  \<^item> \<open>Uartq\<close>: the transmit ring of the UART is a bounded queue, and \<^verbatim>\<open>uartstart\<close> ends and sends its front.
  \<^item> \<open>Strcheck\<close>: \<^verbatim>\<open>memmove\<close> under overlap, the bound of \<^verbatim>\<open>safestrcpy\<close>.
  \<^item> \<open>Printint\<close>: the digits that \<^verbatim>\<open>printint\<close> stores, and that its buffer is large enough.
  \<^item> \<open>Fsdata\<close>: path components, the layout of inodes in a block, the bits of the free map. \<open>Inodes\<close>: what
    \<^verbatim>\<open>iupdate\<close> stores through the log and the cache is what \<^verbatim>\<open>ilock\<close> loads.
  \<^item> \<open>Sleepcheck\<close>: sleep locks exclude. \<open>Filetab\<close>: the reference counts of open files.
  \<^item> \<open>Bcache\<close>: the linked list of buffers, least recently used replacement, and that the cache refines a
    store of blocks for a client that keeps to its rules: it changes, unpins and releases only what it holds,
    and gives the last reference to a block back only when the disk has its contents. \<open>Bshare\<close>: any number
    of processes that keep to no rules, one call at a time; the list stays in order, no block gets two
    buffers, and no two processes have the same buffer or block.
  \<^item> \<open>Logsafe\<close>: transactions are atomic under crashes between any two block writes, during commit and
    during recovery; the effect of \<^verbatim>\<open>log_write\<close>, start-up of the log, and the count that recovery wraps. A block
    write is taken to be atomic. \<open>Bcache\<close>, \<open>Logsafe\<close> and \<open>Inodes\<close> are about one process that finds the spinlocks
    free.
  \<^item> The theories on the cache and above use the disk driver through \<open>disk_rw\<close> of \<open>Bio\<close>, which says what
    \<^verbatim>\<open>virtio_disk_rw()\<close> has done when it returns. That the driver of \<open>Virtio\<close> with its device does this is
    not proved.
  \<^item> \<open>Ulib\<close>: when \<^verbatim>\<open>atoi\<close> reads what \<^verbatim>\<open>printf\<close> prints, \<^verbatim>\<open>memmove\<close> under overlap, the order of \<^verbatim>\<open>strcmp\<close>.
  \<^item> \<open>Grep\<close>: the matcher decides the language of the pattern; the loop writes the matching lines.
  \<^item> \<open>Sh\<close>, \<open>Shprint\<close>: the parser ends on every input, and reads back every command that is printed.
  \<^item> \<open>Uprog\<close>: \<^verbatim>\<open>primes\<close> prints the primes; how \<^verbatim>\<open>xargs\<close> splits a line; the fuel of \<^verbatim>\<open>find\<close> is enough, since
    the buffer bounds the length of a path; \<^verbatim>\<open>wc\<close> does not depend on how \<^verbatim>\<open>read()\<close> cuts the input.

  \<open>Console\<close>, \<open>Virtio\<close>, \<open>Process\<close>, \<open>Syscall\<close> and \<open>Trap\<close> are models without theorems about
  them so far, and so are the operations of \<open>Fs\<close>, \<open>File\<close> and \<open>Proc\<close> that are not named above.

  \<^bold>\<open>Not modelled.\<close> Assembly and the saved registers of \<^verbatim>\<open>swtch\<close>: the model is at the level of C. The
  machine-mode code of \<^verbatim>\<open>start.c\<close> and the register writes of \<^verbatim>\<open>plicinit\<close>: device configuration. Weak
  memory order: steps of harts interleave. User programs other than
  those named above, which are few system calls each or, like \<^verbatim>\<open>ls\<close>, the rest of \<^verbatim>\<open>sh\<close> and the allocator of
  \<^verbatim>\<open>umalloc.c\<close>, are left for later. Tests, and \<^verbatim>\<open>mkfs\<close>, which runs on the host.
\<close>

end
